(* ===== verification/Prelude.thy ===== *)
theory Prelude
  imports "HOL-Library.Word" "HOL-Library.List_Lexorder" "HOL-Library.Sublist"
begin

text \<open>
  What every theory of the development shares: the names of the machine types, the sequencing
  of fallible computations (the question mark operator of the source), the bytes of a string,
  the decimal rendering of a number, the little-endian bytes of a 64-bit word, and the generic
  facts about words and lists on which the component proofs rest.

  Conventions. A Rust \<open>String\<close> is a \<^typ>\<open>string\<close>: the list of its UTF-8 bytes, each one a
  \<^typ>\<open>char\<close>. \<open>Vec<u8>\<close> and \<open>&[u8]\<close> are lists of \<^typ>\<open>8 word\<close>. \<open>u64\<close> is \<^typ>\<open>64 word\<close>, whose
  arithmetic wraps around; where the source relies on a sum not to overflow, the theorem says
  so with \<^const>\<open>unat\<close>. \<open>Result<T, E>\<close> is a sum with the error on the left.
\<close>

section \<open>Machine types\<close>

type_synonym byte = "8 word"
type_synonym bytes = "8 word list"
type_synonym u64 = "64 word"

named_theorems pos_simps \<open>facts that move log positions between words and natural numbers\<close>
named_theorems result_simps \<open>sequencing of fallible computations\<close>

section \<open>Fallible computations\<close>

text \<open>\<open>and_then r f\<close> is \<open>f(r?)\<close>: an error is returned at once, a value is handed on.\<close>

definition and_then :: "'e + 'a \<Rightarrow> ('a \<Rightarrow> 'e + 'b) \<Rightarrow> 'e + 'b" where
  "and_then r f = (case r of Inl e \<Rightarrow> Inl e | Inr x \<Rightarrow> f x)"

text \<open>\<open>map_err g r\<close> is \<open>r.map_err(g)\<close>.\<close>

definition map_err :: "('e \<Rightarrow> 'd) \<Rightarrow> 'e + 'a \<Rightarrow> 'd + 'a" where
  "map_err g r = (case r of Inl e \<Rightarrow> Inl (g e) | Inr x \<Rightarrow> Inr x)"

text \<open>\<open>ok_or e v\<close> is \<open>v.ok_or_else(|| e)\<close>.\<close>

definition ok_or :: "'e \<Rightarrow> 'a option \<Rightarrow> 'e + 'a" where
  "ok_or e v = (case v of None \<Rightarrow> Inl e | Some x \<Rightarrow> Inr x)"

text \<open>Collecting a list of results stops at the first error, as \<open>collect::<Result<_, _>>()\<close> does.\<close>

fun collect :: "('e + 'a) list \<Rightarrow> 'e + 'a list" where
  "collect [] = Inr []"
| "collect (r # rs) = and_then r (\<lambda>x. and_then (collect rs) (\<lambda>xs. Inr (x # xs)))"

section \<open>Strings and bytes\<close>

text \<open>\<open>String::into_bytes\<close> and byte string literals.\<close>

definition into_bytes :: "string \<Rightarrow> bytes" where
  "into_bytes s = map of_char s"

text \<open>\<open>format!("{}", n)\<close> for an unsigned \<open>n\<close>.\<close>

definition digit_char :: "nat \<Rightarrow> char" where
  "digit_char d = char_of (48 + d)"

fun decimal :: "nat \<Rightarrow> string" where
  "decimal n = (if n < 10 then [digit_char n] else decimal (n div 10) @ [digit_char (n mod 10)])"

declare decimal.simps [simp del]

text \<open>\<open>join(sep)\<close> on a slice of strings.\<close>

fun join_with :: "string \<Rightarrow> string list \<Rightarrow> string" where
  "join_with sep [] = []"
| "join_with sep [s] = s"
| "join_with sep (s # t # ts) = s @ sep @ join_with sep (t # ts)"

text \<open>\<open>u64::to_le_bytes\<close> and \<open>u64::from_le_bytes\<close>.\<close>

fun le_bytes :: "nat \<Rightarrow> nat \<Rightarrow> bytes" where
  "le_bytes 0 n = []"
| "le_bytes (Suc k) n = of_nat (n mod 256) # le_bytes k (n div 256)"

fun le_value :: "bytes \<Rightarrow> nat" where
  "le_value [] = 0"
| "le_value (b # bs) = unat b + 256 * le_value bs"

definition to_le_bytes :: "u64 \<Rightarrow> bytes" where
  "to_le_bytes w = le_bytes 8 (unat w)"

definition from_le_bytes :: "bytes \<Rightarrow> u64" where
  "from_le_bytes bs = of_nat (le_value bs)"

section \<open>Generic facts\<close>

subsection \<open>Sequencing\<close>

lemma and_then_simps [simp, result_simps]:
  "and_then (Inl e) f = Inl e" "and_then (Inr x) f = f x"
  by (simp_all add: and_then_def)

lemma and_then_eq_Inr [result_simps]:
  "and_then r f = Inr y \<longleftrightarrow> (\<exists>x. r = Inr x \<and> f x = Inr y)"
  by (cases r) auto

lemma map_err_simps [simp, result_simps]:
  "map_err g (Inl e) = Inl (g e)" "map_err g (Inr x) = Inr x"
  by (simp_all add: map_err_def)

lemma ok_or_simps [simp, result_simps]:
  "ok_or e None = Inl e" "ok_or e (Some x) = Inr x"
  by (simp_all add: ok_or_def)

lemma collect_map_Inr [simp]: "collect (map (\<lambda>x. Inr (f x)) xs) = Inr (map f xs)"
  by (induction xs) auto

lemma collect_eq_Inr: "collect rs = Inr xs \<longleftrightarrow> rs = map Inr xs"
  by (induction rs arbitrary: xs) (auto simp: and_then_eq_Inr Cons_eq_map_conv)

subsection \<open>Strings and bytes\<close>

lemma of_char_byte_inject: "(of_char c :: byte) = of_char d \<longleftrightarrow> c = d"
proof
  assume "(of_char c :: byte) = of_char d"
  then have "unat (of_nat (of_char c) :: byte) = unat (of_nat (of_char d) :: byte)"
    by (simp add: of_nat_of_char)
  then have "(of_char c :: nat) = of_char d"
    by (simp add: unat_of_nat)
  then show "c = d"
    by simp
qed simp

lemma into_bytes_inject [simp]: "into_bytes s = into_bytes t \<longleftrightarrow> s = t"
proof -
  have "inj (of_char :: char \<Rightarrow> byte)"
    by (rule injI) (simp only: of_char_byte_inject)
  then show ?thesis
    by (simp add: into_bytes_def inj_map_eq_map)
qed

lemma into_bytes_append [simp]: "into_bytes (s @ t) = into_bytes s @ into_bytes t"
  by (simp add: into_bytes_def)

lemma into_bytes_Cons: "into_bytes (c # s) = of_char c # into_bytes s"
  by (simp add: into_bytes_def)

lemma into_bytes_Nil [simp]: "into_bytes [] = []"
  by (simp add: into_bytes_def)

lemma length_into_bytes [simp]: "length (into_bytes s) = length s"
  by (simp add: into_bytes_def)

lemma prefix_into_bytes [simp]: "prefix (into_bytes s) (into_bytes t) \<longleftrightarrow> prefix s t"
proof
  assume "prefix (into_bytes s) (into_bytes t)"
  then have "take (length s) (into_bytes t) = into_bytes s"
    by (auto simp: prefix_def)
  then have "into_bytes (take (length s) t) = into_bytes s"
    by (simp add: into_bytes_def take_map)
  then show "prefix s t"
    by (metis into_bytes_inject take_is_prefix)
next
  assume "prefix s t"
  then show "prefix (into_bytes s) (into_bytes t)"
    by (auto simp: prefix_def)
qed

subsection \<open>Decimal rendering\<close>

lemma decimal_nonempty [simp]: "decimal n \<noteq> []"
  by (subst decimal.simps) simp

lemma digit_char_inject: "d < 10 \<Longrightarrow> e < 10 \<Longrightarrow> digit_char d = digit_char e \<longleftrightarrow> d = e"
  by (auto simp: digit_char_def char_of_eq_iff take_bit_eq_mod)

lemma decimal_small: "n < 10 \<Longrightarrow> decimal n = [digit_char n]"
  by (subst decimal.simps) simp

lemma decimal_large: "\<not> n < 10 \<Longrightarrow> decimal n = decimal (n div 10) @ [digit_char (n mod 10)]"
  by (subst decimal.simps) simp

lemma decimal_inject [simp]: "decimal m = decimal n \<longleftrightarrow> m = n"
proof (induction m arbitrary: n rule: less_induct)
  case (less m)
  consider "m < 10" "n < 10" | "m < 10" "\<not> n < 10" | "\<not> m < 10" "n < 10"
    | "\<not> m < 10" "\<not> n < 10" by blast
  then show ?case
  proof cases
    case 1
    then show ?thesis by (simp add: decimal_small digit_char_inject)
  next
    case 2
    then show ?thesis by (auto simp: decimal_small decimal_large Cons_eq_append_conv)
  next
    case 3
    then show ?thesis by (auto simp: decimal_small decimal_large append_eq_Cons_conv)
  next
    case 4
    have "decimal (m div 10) = decimal (n div 10) \<longleftrightarrow> m div 10 = n div 10"
      using 4 by (intro less.IH) simp
    moreover have "m = n \<longleftrightarrow> m div 10 = n div 10 \<and> m mod 10 = n mod 10"
      by (metis div_mult_mod_eq)
    ultimately show ?thesis
      using 4 by (simp add: decimal_large digit_char_inject)
  qed
qed

subsection \<open>Little-endian bytes\<close>

lemma length_le_bytes [simp]: "length (le_bytes k n) = k"
  by (induction k arbitrary: n) auto

lemma le_value_le_bytes: "le_value (le_bytes k n) = n mod 256 ^ k"
proof (induction k arbitrary: n)
  case 0
  then show ?case by simp
next
  case (Suc k)
  then show ?case by (simp add: unat_of_nat mod_mult2_eq)
qed

lemma length_to_le_bytes [simp]: "length (to_le_bytes w) = 8"
  by (simp add: to_le_bytes_def)

lemma from_to_le_bytes [simp]: "from_le_bytes (to_le_bytes w) = w"
proof -
  have "unat w < 256 ^ 8"
    using unsigned_less[of w] by simp
  then show ?thesis
    by (simp add: from_le_bytes_def to_le_bytes_def le_value_le_bytes)
qed

lemma min_list_le: "x \<in> set xs \<Longrightarrow> min_list xs \<le> (x :: 'a::linorder)"
  by (simp add: min_list_Min[of xs] length_pos_if_in_set[THEN length_greater_0_conv[THEN iffD1]])

subsection \<open>Positions\<close>

lemma unat_of_nat_pos [pos_simps]: "n < 2 ^ 64 \<Longrightarrow> unat (of_nat n :: u64) = n"
  by (simp add: unat_of_nat)

lemma of_nat_pos_less [pos_simps]:
  "m < 2 ^ 64 \<Longrightarrow> n < 2 ^ 64 \<Longrightarrow> (of_nat m :: u64) < of_nat n \<longleftrightarrow> m < n"
  by (simp add: word_less_nat_alt unat_of_nat)

lemma of_nat_pos_le [pos_simps]:
  "m < 2 ^ 64 \<Longrightarrow> n < 2 ^ 64 \<Longrightarrow> (of_nat m :: u64) \<le> of_nat n \<longleftrightarrow> m \<le> n"
  by (simp add: word_le_nat_alt unat_of_nat)

lemma of_nat_pos_eq [pos_simps]:
  "m < 2 ^ 64 \<Longrightarrow> n < 2 ^ 64 \<Longrightarrow> (of_nat m :: u64) = of_nat n \<longleftrightarrow> m = n"
  by (metis unat_of_nat_pos)

lemma unat_u64_less: "unat (w :: u64) < 2 ^ 64"
  by (rule order.strict_trans2[OF unsigned_less]) simp

lemma min_u64_max [simp]: "min w (- 1) = (w :: u64)"
  by (simp add: min_absorb1)

lemma of_nat_diff_pos [pos_simps]:
  "n \<le> m \<Longrightarrow> (of_nat m :: u64) - of_nat n = of_nat (m - n)"
  by simp

end
