(* ===== verification/Core.thy ===== *)
theory Core
  imports Prelude "HOL-Library.Finite_Map"
begin

text \<open>
  The crate \<open>relos-core\<close>: log positions and server identifiers (\<open>types.rs\<close>), the error type
  and its display (\<open>error.rs\<close>), and log entries (\<open>entry.rs\<close>). An entry carries one header per
  engine and an application payload; the header map is a finite map (the source's hash map, which
  it only inserts into and looks keys up in).

  Serialisation goes through the external crate \<open>bincode\<close>. It is a parameter here: a
  \<open>'a codec\<close> is the pair of its \<open>serialize\<close> and \<open>deserialize\<close> at one type, with the crate's
  error rendered as a string, as \<open>e.to_string()\<close> does. \<open>codec_ok\<close> states what the program relies
  on: a value serialises, and its bytes deserialise to that value.
\<close>

section \<open>Types and errors\<close>

type_synonym LogPos = u64
type_synonym ServerId = u64

definition LOG_POS_INVALID :: LogPos where
  "LOG_POS_INVALID = 0"

definition LOG_POS_BEGIN :: LogPos where
  "LOG_POS_BEGIN = 1"

datatype relos_error =
    is_Sealed: Sealed LogPos
  | is_Trimmed: Trimmed LogPos
  | EndOfLog
  | VersionMismatch (expected: u64) (actual: u64)
  | Serialization string
  | Store string
  | NotFound string
  | InvalidOperation string
  | Io string
  | Internal string

type_synonym 'a result = "relos_error + 'a"

text \<open>\<open>to_string\<close> of an error, from the \<open>#[error(...)]\<close> attributes.\<close>

fun display_error :: "relos_error \<Rightarrow> string" where
  "display_error (Sealed p) = ''log sealed at position '' @ decimal (unat p)"
| "display_error (Trimmed p) = ''position '' @ decimal (unat p) @ '' has been trimmed''"
| "display_error EndOfLog = ''end of log reached''"
| "display_error (VersionMismatch e a) =
     ''version mismatch: expected '' @ decimal (unat e) @ '', got '' @ decimal (unat a)"
| "display_error (Serialization m) = ''serialization error: '' @ m"
| "display_error (Store m) = ''store error: '' @ m"
| "display_error (NotFound m) = ''not found: '' @ m"
| "display_error (InvalidOperation m) = ''invalid operation: '' @ m"
| "display_error (Io m) = ''io error: '' @ m"
| "display_error (Internal m) = ''internal error: '' @ m"

section \<open>Codecs\<close>

record 'a codec =
  serialize :: "'a \<Rightarrow> string + bytes"
  deserialize :: "bytes \<Rightarrow> string + 'a"

definition codec_ok :: "'a codec \<Rightarrow> bool" where
  "codec_ok c \<longleftrightarrow> (\<forall>x. \<exists>bs. serialize c x = Inr bs \<and> deserialize c bs = Inr x)"

text \<open>The two calls as the source makes them, with the crate's error wrapped.\<close>

definition encode :: "'a codec \<Rightarrow> 'a \<Rightarrow> bytes result" where
  "encode c x = map_err Serialization (serialize c x)"

definition decode :: "'a codec \<Rightarrow> bytes \<Rightarrow> 'a result" where
  "decode c bs = map_err Serialization (deserialize c bs)"

section \<open>Entries\<close>

record entry =
  headers :: "(string, bytes) fmap"
  payload :: bytes

definition entry_new :: "bytes \<Rightarrow> entry" where
  "entry_new p = \<lparr>headers = fmempty, payload = p\<rparr>"

definition with_header :: "entry \<Rightarrow> string \<Rightarrow> bytes \<Rightarrow> entry" where
  "with_header en engine header = en\<lparr>headers := fmupd engine header (headers en)\<rparr>"

definition get_header :: "entry \<Rightarrow> string \<Rightarrow> bytes option" where
  "get_header en engine = fmlookup (headers en) engine"

definition entry_to_bytes :: "entry codec \<Rightarrow> entry \<Rightarrow> bytes result" where
  "entry_to_bytes c en = encode c en"

definition entry_from_bytes :: "entry codec \<Rightarrow> bytes \<Rightarrow> entry result" where
  "entry_from_bytes c bs = decode c bs"

section \<open>Facts\<close>

lemma codec_okE:
  assumes "codec_ok c"
  obtains bs where "serialize c x = Inr bs" "deserialize c bs = Inr x"
  using assms by (auto simp: codec_ok_def)

lemma encode_total: "codec_ok c \<Longrightarrow> \<exists>bs. encode c x = Inr bs"
  by (erule codec_okE[where x = x]) (auto simp: encode_def)

lemma decode_encode: "codec_ok c \<Longrightarrow> encode c x = Inr bs \<Longrightarrow> decode c bs = Inr x"
  by (erule codec_okE[where x = x]) (auto simp: encode_def decode_def)

lemma encode_inject: "codec_ok c \<Longrightarrow> encode c x = Inr bs \<Longrightarrow> encode c y = Inr bs \<Longrightarrow> x = y"
  by (metis decode_encode Inr_inject)

lemma entry_new_sel [simp]: "headers (entry_new p) = fmempty" "payload (entry_new p) = p"
  by (simp_all add: entry_new_def)

lemma with_header_payload [simp]: "payload (with_header en k h) = payload en"
  by (simp add: with_header_def)

lemma get_header_new [simp]: "get_header (entry_new p) k = None"
  by (simp add: get_header_def)

lemma get_header_with_header [simp]:
  "get_header (with_header en k h) k' = (if k' = k then Some h else get_header en k')"
  by (simp add: get_header_def with_header_def)

end
