(* ===== verification/Table_Schema.thy ===== *)
theory Table_Schema
  imports Core
begin

text \<open>
  The data of the table layer: schemas, values and rows (\<open>relos-table/src/schema.rs\<close>), the commands
  that travel in log entries and their responses (\<open>command.rs\<close>), and the layout of store keys that
  \<open>applicator.rs\<close> and \<open>table.rs\<close> share.

  The crates \<open>bincode\<close> and \<open>hex\<close> are parameters, collected in \<open>table_codecs\<close>. \<open>value_bytes\<close> is
  \<open>bincode::serialize(v).expect(..)\<close> on a value; a serialisation that fails there would abort the
  task, so it is a total function. \<open>codecs_ok\<close> names what the program relies on: round trips of
  \<open>bincode\<close>, that the encoding of a value is injective and not empty (an enum starts with its
  variant index), and that \<open>hex\<close> is injective and writes two hexadecimal digits per byte.
\<close>

section \<open>Schemas, values and rows\<close>

datatype column_type = TInt64 | TUtf8 | TBytes | TBool | TFloat64

record column_def =
  col_name :: string
  col_type :: column_type
  nullable :: bool

record table_schema =
  schema_name :: string
  columns :: "column_def list"
  primary_key :: "string list"

text \<open>An \<open>i64\<close> and an \<open>f64\<close> are their 64 bits.\<close>

datatype table_value =
    Null
  | Int64 "64 word"
  | Utf8 string
  | Bytes bytes
  | Bool bool
  | Float64 "64 word"

record row =
  "values" :: "table_value list"

section \<open>Commands and responses\<close>

datatype table_command =
    CreateTable table_schema
  | DropTable string
  | Put string row
  | Delete string "table_value list"

datatype table_response = Ok | Error string

record table_codecs =
  schema_codec :: "table_schema codec"
  row_codec :: "row codec"
  command_codec :: "table_command codec"
  response_codec :: "table_response codec"
  value_bytes :: "table_value \<Rightarrow> bytes"
  hex_encode :: "bytes \<Rightarrow> string"

definition command_to_bytes :: "table_codecs \<Rightarrow> table_command \<Rightarrow> bytes result" where
  "command_to_bytes c cmd = encode (command_codec c) cmd"

definition command_from_bytes :: "table_codecs \<Rightarrow> bytes \<Rightarrow> table_command result" where
  "command_from_bytes c bs = decode (command_codec c) bs"

definition response_to_bytes :: "table_codecs \<Rightarrow> table_response \<Rightarrow> bytes result" where
  "response_to_bytes c resp = encode (response_codec c) resp"

definition response_from_bytes :: "table_codecs \<Rightarrow> bytes \<Rightarrow> table_response result" where
  "response_from_bytes c bs = decode (response_codec c) bs"

section \<open>Store keys\<close>

definition encode_primary_key :: "table_codecs \<Rightarrow> table_value list \<Rightarrow> string" where
  "encode_primary_key c vs =
     join_with [CHR 0x00] (map (\<lambda>v. hex_encode c (value_bytes c v)) vs)"

definition schema_key :: "string \<Rightarrow> bytes" where
  "schema_key table_name = into_bytes (''schema/'' @ table_name)"

definition row_prefix :: "string \<Rightarrow> bytes" where
  "row_prefix table_name = into_bytes (''data/'' @ table_name @ ''/'')"

definition row_key :: "table_codecs \<Rightarrow> string \<Rightarrow> table_value list \<Rightarrow> bytes" where
  "row_key c table_name pk_values =
     into_bytes (''data/'' @ table_name @ ''/'' @ encode_primary_key c pk_values)"

section \<open>What the codecs promise\<close>

definition hex_digits :: "char set" where
  "hex_digits = set ''0123456789abcdef''"

definition codecs_ok :: "table_codecs \<Rightarrow> bool" where
  "codecs_ok c \<longleftrightarrow> codec_ok (schema_codec c) \<and> codec_ok (row_codec c) \<and> codec_ok (command_codec c) \<and>
     codec_ok (response_codec c) \<and> inj (value_bytes c) \<and> (\<forall>v. value_bytes c v \<noteq> []) \<and>
     inj (hex_encode c) \<and>
     (\<forall>bs. length (hex_encode c bs) = 2 * length bs \<and> set (hex_encode c bs) \<subseteq> hex_digits)"

text \<open>A table name without a slash, the names the key layout is made for.\<close>

definition plain_name :: "string \<Rightarrow> bool" where
  "plain_name t \<longleftrightarrow> CHR ''/'' \<notin> set t"

section \<open>Facts\<close>

subsection \<open>Joined keys\<close>

lemma append_sep_inject:
  assumes "x @ c # xs = y @ c # ys" "c \<notin> set x" "c \<notin> set y"
  shows "x = y \<and> xs = ys"
  using assms
proof (induction x arbitrary: y)
  case Nil
  then show ?case by (cases y) auto
next
  case (Cons a x)
  then show ?case by (cases y) auto
qed

lemma join_with_Cons:
  "join_with sep (s # ss) = s @ (if ss = [] then [] else sep @ join_with sep ss)"
  by (cases ss) auto

lemma join_with_inject:
  assumes "\<forall>s \<in> set ss. s \<noteq> [] \<and> c \<notin> set s" "\<forall>s \<in> set ts. s \<noteq> [] \<and> c \<notin> set s"
    "join_with [c] ss = join_with [c] ts"
  shows "ss = ts"
  using assms
proof (induction ss arbitrary: ts)
  case Nil
  then show ?case by (cases ts) (auto simp: join_with_Cons split: if_splits)
next
  case (Cons s ss)
  then obtain t ts' where ts: "ts = t # ts'"
    by (cases ts) (auto simp: join_with_Cons split: if_splits)
  have st: "c \<notin> set s" "c \<notin> set t" using Cons.prems ts by auto
  consider "ss = []" "ts' = []" | "ss = []" "ts' \<noteq> []" | "ss \<noteq> []" "ts' = []" | "ss \<noteq> []" "ts' \<noteq> []"
    by blast
  then show ?case
  proof cases
    case 4
    then have "s @ c # join_with [c] ss = t @ c # join_with [c] ts'"
      using Cons.prems(3) ts by (simp add: join_with_Cons)
    then have "s = t" "join_with [c] ss = join_with [c] ts'"
      using append_sep_inject st by metis+
    then show ?thesis using Cons.IH[of ts'] Cons.prems ts by simp
  qed (use Cons.prems ts st in \<open>auto simp: join_with_Cons\<close>)
qed

lemma encode_primary_key_inject:
  assumes "codecs_ok c" "encode_primary_key c vs = encode_primary_key c ws"
  shows "vs = ws"
proof -
  let ?h = "\<lambda>v. hex_encode c (value_bytes c v)"
  have h: "?h v \<noteq> [] \<and> CHR 0x00 \<notin> set (?h v)" for v
  proof -
    have "length (?h v) = 2 * length (value_bytes c v)" "set (?h v) \<subseteq> hex_digits" "value_bytes c v \<noteq> []"
      using assms(1) by (auto simp: codecs_ok_def)
    moreover have "CHR 0x00 \<notin> hex_digits" by (simp add: hex_digits_def)
    ultimately show ?thesis by (metis length_0_conv mult_is_0 subsetD zero_neq_numeral)
  qed
  have "map ?h vs = map ?h ws"
    using assms(2) unfolding encode_primary_key_def by (intro join_with_inject) (use h in auto)
  moreover have "inj ?h"
    using assms(1) by (auto simp: codecs_ok_def inj_def)
  ultimately show ?thesis by (simp add: inj_map_eq_map)
qed

subsection \<open>The key layout\<close>

lemma schema_key_inject [simp]: "schema_key t = schema_key u \<longleftrightarrow> t = u"
  by (simp add: schema_key_def del: into_bytes_append)

lemma row_key_split: "row_key c t vs = row_prefix t @ into_bytes (encode_primary_key c vs)"
  unfolding row_key_def row_prefix_def into_bytes_append[symmetric] by simp

lemma row_prefix_row_key [simp]: "prefix (row_prefix t) (row_key c t vs)"
  by (simp add: row_key_split)

lemma row_prefix_plain:
  assumes "plain_name t" "plain_name u"
  shows "prefix (row_prefix t) (row_key c u vs) \<longleftrightarrow> t = u"
proof
  assume "prefix (row_prefix t) (row_key c u vs)"
  then have "prefix (''data/'' @ t @ ''/'') (''data/'' @ u @ ''/'' @ encode_primary_key c vs)"
    unfolding row_prefix_def row_key_def prefix_into_bytes .
  then obtain r where "t @ CHR ''/'' # r = u @ CHR ''/'' # encode_primary_key c vs"
    by (auto simp: prefix_def)
  then show "t = u"
    using append_sep_inject assms unfolding plain_name_def by metis
qed simp

lemma schema_key_not_row [simp]:
  "\<not> prefix (row_prefix t) (schema_key u)" "row_key c t vs \<noteq> schema_key u" "schema_key u \<noteq> row_key c t vs"
proof -
  show "\<not> prefix (row_prefix t) (schema_key u)"
    unfolding row_prefix_def schema_key_def prefix_into_bytes by simp
  then show "row_key c t vs \<noteq> schema_key u" "schema_key u \<noteq> row_key c t vs"
    using row_prefix_row_key[of t c vs] by metis+
qed

lemma row_key_inject:
  assumes "codecs_ok c" "plain_name t" "plain_name u" "row_key c t vs = row_key c u ws"
  shows "t = u \<and> vs = ws"
proof -
  have "t = u"
    using row_prefix_plain[OF assms(2,3), of c ws] assms(4) row_prefix_row_key[of t c vs] by simp
  with assms(4) have "encode_primary_key c vs = encode_primary_key c ws"
    by (simp add: row_key_split)
  with \<open>t = u\<close> encode_primary_key_inject[OF assms(1)] show ?thesis by blast
qed

end
