(* ===== verification/Loglet.thy ===== *)
theory Loglet
  imports Core
begin

text \<open>
  The trait \<open>Loglet\<close> of \<open>relos-log/src/loglet.rs\<close>. A \<open>dyn Loglet\<close> is a state and a record of its
  five operations; \<open>append\<close> may fail to return (the retry loop of the virtual log), which is the
  result \<open>None\<close>, and the two queries leave the state alone. The contract in the trait's comments
  is stated against an abstract log, the history of everything ever appended with a trim
  position and a seal: \<open>loglet_core\<close> is the part that concerns appending, reading, trimming and
  the tail, and \<open>loglet\<close> adds what sealing promises.
\<close>

section \<open>Operations\<close>

record 'l loglet_ops =
  lg_append :: "entry \<Rightarrow> 'l \<Rightarrow> (LogPos result \<times> 'l) option"
  lg_check_tail :: "'l \<Rightarrow> LogPos result"
  lg_read :: "LogPos \<Rightarrow> 'l \<Rightarrow> entry option result"
  lg_trim :: "LogPos \<Rightarrow> 'l \<Rightarrow> unit result \<times> 'l"
  lg_seal :: "'l \<Rightarrow> LogPos result \<times> 'l"

section \<open>The abstract log\<close>

record alog =
  al_entries :: "entry list"
  al_trim :: nat
  al_sealed :: bool

definition alog_new :: alog where
  "alog_new = \<lparr>al_entries = [], al_trim = 1, al_sealed = False\<rparr>"

definition al_tail :: "alog \<Rightarrow> nat" where
  "al_tail a = Suc (length (al_entries a))"

definition al_push :: "entry \<Rightarrow> alog \<Rightarrow> alog" where
  "al_push e a = a\<lparr>al_entries := al_entries a @ [e]\<rparr>"

definition al_at :: "alog \<Rightarrow> nat \<Rightarrow> entry" where
  "al_at a p = al_entries a ! (p - 1)"

lemma al_tail_pos [simp]: "0 < al_tail a"
  by (simp add: al_tail_def)

lemma al_push_sel [simp]:
  "al_entries (al_push e a) = al_entries a @ [e]" "al_trim (al_push e a) = al_trim a"
  "al_sealed (al_push e a) = al_sealed a" "al_tail (al_push e a) = Suc (al_tail a)"
  by (simp_all add: al_push_def al_tail_def)

lemma al_push_entries:
  "(al_push e a)\<lparr>al_entries := al_entries a @ e # es\<rparr> = a\<lparr>al_entries := al_entries a @ e # es\<rparr>"
  by (simp add: al_push_def)

lemma al_tail_trim [simp]: "al_tail (a\<lparr>al_trim := t\<rparr>) = al_tail a"
  by (simp add: al_tail_def)

lemma al_tail_seal [simp]: "al_tail (a\<lparr>al_sealed := b\<rparr>) = al_tail a"
  by (simp add: al_tail_def)

lemma al_at_push:
  "1 \<le> p \<Longrightarrow> p < al_tail a \<Longrightarrow> al_at (al_push e a) p = al_at a p"
  "al_at (al_push e a) (al_tail a) = e"
  by (auto simp: al_at_def al_tail_def nth_append)

lemma al_at_trim [simp]: "al_at (a\<lparr>al_trim := t\<rparr>) p = al_at a p"
  by (simp add: al_at_def)

section \<open>The contract\<close>

text \<open>\<open>rel l a\<close>: the state \<open>l\<close> represents the abstract log \<open>a\<close>. Positions are words, and the
  abstract log is only ever as long as they can count.\<close>

locale loglet_core =
  fixes ops :: "'l loglet_ops"
    and rel :: "'l \<Rightarrow> alog \<Rightarrow> bool"
  assumes rel_bounds: "rel l a \<Longrightarrow> 1 \<le> al_trim a \<and> al_tail a < 2 ^ 64"
    and append_open: "rel l a \<Longrightarrow> \<not> al_sealed a \<Longrightarrow> Suc (al_tail a) < 2 ^ 64 \<Longrightarrow>
      \<exists>l'. lg_append ops e l = Some (Inr (of_nat (al_tail a)), l') \<and> rel l' (al_push e a)"
    and check_tail: "rel l a \<Longrightarrow> lg_check_tail ops l = Inr (of_nat (al_tail a))"
    and read_trimmed: "rel l a \<Longrightarrow> 1 \<le> unat p \<Longrightarrow> unat p < al_trim a \<Longrightarrow>
      \<exists>q. lg_read ops p l = Inl (Trimmed q)"
    and read_entry: "rel l a \<Longrightarrow> al_trim a \<le> unat p \<Longrightarrow> unat p < al_tail a \<Longrightarrow>
      lg_read ops p l = Inr (Some (al_at a (unat p)))"
    and read_beyond: "rel l a \<Longrightarrow> al_trim a \<le> unat p \<Longrightarrow> al_tail a \<le> unat p \<Longrightarrow>
      lg_read ops p l = Inr None"
    and trim: "rel l a \<Longrightarrow> unat p \<le> al_tail a \<Longrightarrow>
      \<exists>l'. lg_trim ops p l = (Inr (), l') \<and> rel l' (a\<lparr>al_trim := max (al_trim a) (unat p)\<rparr>)"

locale loglet = loglet_core +
  assumes seal: "rel l a \<Longrightarrow>
      \<exists>l'. lg_seal ops l = (Inr (of_nat (al_tail a)), l') \<and> rel l' (a\<lparr>al_sealed := True\<rparr>)"
    and append_sealed: "rel l a \<Longrightarrow> al_sealed a \<Longrightarrow>
      \<exists>t l'. lg_append ops e l = Some (Inl (Sealed t), l') \<and> rel l' a"

text \<open>A log that is never closed for good, as a virtual log is: a seal reports the tail and appends go on.\<close>

locale shared_log = loglet_core ops rel
  for ops :: "'l loglet_ops" and rel :: "'l \<Rightarrow> alog \<Rightarrow> bool" +
  assumes stays_open: "rel l a \<Longrightarrow> \<not> al_sealed a"
    and seal_open: "rel l a \<Longrightarrow> \<exists>l'. lg_seal ops l = (Inr (of_nat (al_tail a)), l') \<and> rel l' a"

text \<open>Appending a list of entries one after the other, and what a client sees of it.\<close>

fun append_list :: "'l loglet_ops \<Rightarrow> entry list \<Rightarrow> 'l \<Rightarrow> (LogPos list result \<times> 'l) option" where
  "append_list ops [] l = Some (Inr [], l)"
| "append_list ops (e # es) l =
     (case lg_append ops e l of
        None \<Rightarrow> None
      | Some (Inl err, l') \<Rightarrow> Some (Inl err, l')
      | Some (Inr p, l') \<Rightarrow>
          (case append_list ops es l' of
             None \<Rightarrow> None
           | Some (Inl err, l'') \<Rightarrow> Some (Inl err, l'')
           | Some (Inr ps, l'') \<Rightarrow> Some (Inr (p # ps), l'')))"

context loglet_core
begin

lemma tail_word: "rel l a \<Longrightarrow> unat (of_nat (al_tail a) :: u64) = al_tail a"
  using rel_bounds by (simp add: unat_of_nat_pos)

text \<open>An appended entry is read back at the position the append returned, and every entry that
  could be read before still can.\<close>

lemma append_then_read:
  assumes "rel l a" "\<not> al_sealed a" "Suc (al_tail a) < 2 ^ 64" "al_trim a \<le> al_tail a"
  shows "\<exists>p l'. lg_append ops e l = Some (Inr p, l') \<and> unat p = al_tail a \<and>
           lg_read ops p l' = Inr (Some e) \<and>
           (\<forall>q x. 1 \<le> unat q \<longrightarrow> lg_read ops q l = Inr (Some x) \<longrightarrow> lg_read ops q l' = Inr (Some x))"
proof -
  from append_open[OF assms(1-3)] obtain l' where
    l': "lg_append ops e l = Some (Inr (of_nat (al_tail a)), l')" "rel l' (al_push e a)"
    by blast
  have u: "unat (of_nat (al_tail a) :: u64) = al_tail a"
    using assms(1) by (rule tail_word)
  have "lg_read ops (of_nat (al_tail a)) l' = Inr (Some e)"
    using read_entry[OF l'(2), of "of_nat (al_tail a)"] u assms(4) by (simp add: al_at_push)
  moreover have "lg_read ops q l' = Inr (Some x)"
    if q: "1 \<le> unat q" and r: "lg_read ops q l = Inr (Some x)" for q x
  proof -
    have "al_trim a \<le> unat q" "unat q < al_tail a"
      using read_trimmed[OF assms(1) q] read_beyond[OF assms(1), of q] r by force+
    with read_entry[OF assms(1), of q] read_entry[OF l'(2), of q] r q show ?thesis
      by (simp add: al_at_push)
  qed
  ultimately show ?thesis using l'(1) u by blast
qed

lemma append_list_spec:
  assumes "rel l a" "\<not> al_sealed a" "al_tail a + length es < 2 ^ 64"
  shows "\<exists>l'. append_list ops es l =
           Some (Inr (map of_nat [al_tail a..<al_tail a + length es]), l') \<and>
         rel l' (a\<lparr>al_entries := al_entries a @ es\<rparr>)"
  using assms
proof (induction es arbitrary: l a)
  case Nil
  then show ?case by simp
next
  case (Cons e es)
  from append_open[OF Cons.prems(1,2), of e] Cons.prems(3) obtain l1 where
    l1: "lg_append ops e l = Some (Inr (of_nat (al_tail a)), l1)" "rel l1 (al_push e a)"
    by auto
  from Cons.IH[OF l1(2)] Cons.prems obtain l2 where
    l2: "append_list ops es l1 =
           Some (Inr (map of_nat [Suc (al_tail a)..<Suc (al_tail a) + length es]), l2)"
        "rel l2 (a\<lparr>al_entries := al_entries a @ e # es\<rparr>)"
    by (auto simp: al_push_entries simp del: upt_Suc)
  have "[al_tail a..<al_tail a + length (e # es)] =
        al_tail a # [Suc (al_tail a)..<Suc (al_tail a) + length es]"
    by (simp add: upt_conv_Cons del: upt_Suc)
  with l1(1) l2 show ?case by (simp del: upt_Suc)
qed

end

end
