(* ===== verification/Ordered_Map.thy ===== *)
theory Ordered_Map
  imports Prelude
begin

text \<open>
  \<open>std::collections::BTreeMap\<close>, as far as the program uses it: a map iterated in key order,
  held here as the list of its entries in ascending key order. The in-memory store
  (\<open>relos-store/src/memory.rs\<close>) and the log servers (\<open>relos-log/src/native_loglet.rs\<close>) keep their
  data in one. The interface is the locale \<open>ordered_map\<close>: a lookup function and the order of
  iteration determine what every operation does. The facts a client needs are proved there once.
\<close>

section \<open>Operations\<close>

type_synonym ('k, 'v) btree = "('k \<times> 'v) list"

definition bt_empty :: "('k, 'v) btree" where
  "bt_empty = []"

definition bt_get :: "('k, 'v) btree \<Rightarrow> 'k \<Rightarrow> 'v option" where
  "bt_get m k = map_of m k"

fun bt_insert :: "'k::linorder \<Rightarrow> 'v \<Rightarrow> ('k, 'v) btree \<Rightarrow> ('k, 'v) btree" where
  "bt_insert k v [] = [(k, v)]"
| "bt_insert k v (e # m) =
     (if fst e < k then e # bt_insert k v m
      else if fst e = k then (k, v) # m
      else (k, v) # e # m)"

definition bt_remove :: "'k \<Rightarrow> ('k, 'v) btree \<Rightarrow> ('k, 'v) btree" where
  "bt_remove k m = filter (\<lambda>e. fst e \<noteq> k) m"

text \<open>\<open>range(k..)\<close> and \<open>range(..k)\<close>.\<close>

definition bt_range_from :: "'k::linorder \<Rightarrow> ('k, 'v) btree \<Rightarrow> ('k \<times> 'v) list" where
  "bt_range_from k m = dropWhile (\<lambda>e. fst e < k) m"

definition bt_range_to :: "'k::linorder \<Rightarrow> ('k, 'v) btree \<Rightarrow> ('k \<times> 'v) list" where
  "bt_range_to k m = takeWhile (\<lambda>e. fst e < k) m"

definition bt_ok :: "('k::linorder, 'v) btree \<Rightarrow> bool" where
  "bt_ok m \<longleftrightarrow> sorted_wrt (<) (map fst m)"

section \<open>The interface\<close>

locale ordered_map =
  fixes empty :: 'm
    and look :: "'m \<Rightarrow> 'k::linorder \<Rightarrow> 'v option"
    and ins :: "'k \<Rightarrow> 'v \<Rightarrow> 'm \<Rightarrow> 'm"
    and rem :: "'k \<Rightarrow> 'm \<Rightarrow> 'm"
    and entries :: "'m \<Rightarrow> ('k \<times> 'v) list"
    and above :: "'k \<Rightarrow> 'm \<Rightarrow> ('k \<times> 'v) list"
    and below :: "'k \<Rightarrow> 'm \<Rightarrow> ('k \<times> 'v) list"
    and ok :: "'m \<Rightarrow> bool"
  assumes look_empty: "look empty = Map.empty"
    and look_ins: "ok m \<Longrightarrow> look (ins k v m) = (look m)(k \<mapsto> v)"
    and look_rem: "ok m \<Longrightarrow> look (rem k m) = (look m)(k := None)"
    and look_entries: "ok m \<Longrightarrow> look m = map_of (entries m)"
    and entries_ascending: "ok m \<Longrightarrow> sorted_wrt (<) (map fst (entries m))"
    and above_entries: "ok m \<Longrightarrow> above k m = filter (\<lambda>e. k \<le> fst e) (entries m)"
    and below_entries: "ok m \<Longrightarrow> below k m = filter (\<lambda>e. fst e < k) (entries m)"
    and ok_empty: "ok empty"
    and ok_ins: "ok m \<Longrightarrow> ok (ins k v m)"
    and ok_rem: "ok m \<Longrightarrow> ok (rem k m)"
begin

lemma entries_distinct: "ok m \<Longrightarrow> distinct (map fst (entries m))"
  using entries_ascending strict_sorted_iff by blast

lemma in_entries_iff: "ok m \<Longrightarrow> (k, v) \<in> set (entries m) \<longleftrightarrow> look m k = Some v"
  by (simp add: look_entries entries_distinct map_of_eq_Some_iff)

text \<open>A map is determined by its lookups: iteration adds no information.\<close>

lemma entries_by_look:
  assumes "ok m" "ok m'" "look m = look m'"
  shows "entries m = entries m'"
proof (rule map_sorted_distinct_set_unique[where f = fst])
  show "inj_on fst (set (entries m) \<union> set (entries m'))"
    using assms by (auto simp: inj_on_def in_entries_iff)
  show "set (entries m) = set (entries m')"
    using assms by (auto simp: in_entries_iff)
qed (use assms entries_ascending strict_sorted_iff in blast)+

text \<open>Removing, one by one, the keys of any list.\<close>

lemma ok_rem_all: "ok m \<Longrightarrow> ok (fold rem ks m)"
  by (induction ks arbitrary: m) (auto simp: ok_rem)

lemma look_rem_all: "ok m \<Longrightarrow> look (fold rem ks m) k = (if k \<in> set ks then None else look m k)"
  by (induction ks arbitrary: m) (auto simp: look_rem ok_rem)

end

section \<open>The interface holds of the sorted list\<close>

lemma bt_ok_Cons: "bt_ok (e # m) \<longleftrightarrow> (\<forall>d \<in> set m. fst e < fst d) \<and> bt_ok m"
  by (auto simp: bt_ok_def)

lemma bt_ok_ascending: "bt_ok m \<Longrightarrow> sorted_wrt (<) (map fst m)"
  by (simp add: bt_ok_def)

lemma bt_ok_Nil [simp]: "bt_ok []"
  by (simp add: bt_ok_def)

lemma bt_insert_keys: "fst ` set (bt_insert k v m) = insert k (fst ` set m)"
  by (induction m) auto

lemma bt_insert_set: "e \<in> set (bt_insert k v m) \<Longrightarrow> e = (k, v) \<or> e \<in> set m"
  by (induction m) (auto split: if_splits)

lemma bt_ok_insert: "bt_ok m \<Longrightarrow> bt_ok (bt_insert k v m)"
proof (induction m)
  case Nil
  then show ?case by (simp add: bt_ok_Cons)
next
  case (Cons e m)
  then show ?case
    by (auto simp: bt_ok_Cons dest!: bt_insert_set)
qed

lemma bt_get_insert: "bt_ok m \<Longrightarrow> bt_get (bt_insert k v m) = (bt_get m)(k \<mapsto> v)"
  by (induction m) (auto simp: bt_get_def bt_ok_Cons fun_eq_iff)

lemma bt_get_remove: "bt_get (bt_remove k m) = (bt_get m)(k := None)"
  by (induction m) (auto simp: bt_get_def bt_remove_def fun_eq_iff)

lemma bt_ok_remove: "bt_ok m \<Longrightarrow> bt_ok (bt_remove k m)"
  by (auto simp: bt_ok_def bt_remove_def sorted_wrt_map sorted_wrt_filter)

lemma bt_range_from_filter: "bt_ok m \<Longrightarrow> bt_range_from k m = filter (\<lambda>e. k \<le> fst e) m"
  by (induction m) (force simp: bt_range_from_def bt_ok_Cons intro!: filter_True[symmetric])+

lemma bt_range_to_filter: "bt_ok m \<Longrightarrow> bt_range_to k m = filter (\<lambda>e. fst e < k) m"
  by (induction m) (force simp: bt_range_to_def bt_ok_Cons intro!: filter_False[symmetric])+

lemma bt_get_empty: "bt_get bt_empty = Map.empty"
  by (simp add: bt_get_def bt_empty_def fun_eq_iff)

lemma bt_get_map_of: "bt_get m = map_of m"
  by (simp add: bt_get_def fun_eq_iff)

lemma bt_ok_empty: "bt_ok bt_empty"
  by (simp add: bt_empty_def)

interpretation bt: ordered_map bt_empty bt_get bt_insert bt_remove "\<lambda>m. m"
    bt_range_from bt_range_to bt_ok
  by unfold_locales
    (assumption | rule bt_get_empty bt_get_insert bt_get_remove bt_get_map_of bt_ok_ascending
      bt_range_from_filter bt_range_to_filter bt_ok_empty bt_ok_insert bt_ok_remove)+

end
