(* ===== verification/Memory_Store.thy ===== *)
theory Memory_Store
  imports Core Ordered_Map
begin

text \<open>
  The crate \<open>relos-store\<close>: the traits of \<open>traits.rs\<close> as an interface, and the in-memory store
  of \<open>memory.rs\<close>. \<open>MemoryStore\<close> shares one ordered map behind a lock; a write transaction
  works on a clone of it and \<open>commit\<close> swaps the clone in, a read transaction keeps a clone.
  The lock's poison flag is part of the state, since every access checks it.
\<close>

section \<open>The store and its transactions\<close>

type_synonym store_data = "(bytes, bytes) btree"

record memory_store =
  data :: store_data
  poisoned :: bool

definition memory_store_new :: memory_store where
  "memory_store_new = \<lparr>data = bt_empty, poisoned = False\<rparr>"

definition lock_poisoned :: relos_error where
  "lock_poisoned = Store ''lock poisoned: poisoned lock: another task failed inside''"

text \<open>The field \<open>store\<close> of a write transaction is the shared store itself: the operations
  that follow the reference take the store as an argument.\<close>

record memory_write_tx =
  working :: store_data
  committed :: bool

record memory_read_tx =
  snapshot :: store_data

definition begin_write_txn :: "memory_store \<Rightarrow> memory_write_tx result" where
  "begin_write_txn s =
     (if poisoned s then Inl lock_poisoned
      else Inr \<lparr>working = data s, committed = False\<rparr>)"

definition begin_read_txn :: "memory_store \<Rightarrow> memory_read_tx result" where
  "begin_read_txn s =
     (if poisoned s then Inl lock_poisoned else Inr \<lparr>snapshot = data s\<rparr>)"

definition flush :: "memory_store \<Rightarrow> unit result" where
  "flush s = Inr ()"

definition scan_prefix :: "store_data \<Rightarrow> bytes \<Rightarrow> (bytes \<times> bytes) list" where
  "scan_prefix m p = takeWhile (\<lambda>e. prefix p (fst e)) (bt_range_from p m)"

definition read_get :: "memory_read_tx \<Rightarrow> bytes \<Rightarrow> bytes option result" where
  "read_get t k = Inr (bt_get (snapshot t) k)"

definition read_prefix_scan :: "memory_read_tx \<Rightarrow> bytes \<Rightarrow> (bytes \<times> bytes) list result" where
  "read_prefix_scan t p = Inr (scan_prefix (snapshot t) p)"

definition write_get :: "memory_write_tx \<Rightarrow> bytes \<Rightarrow> bytes option result" where
  "write_get t k = Inr (bt_get (working t) k)"

definition write_prefix_scan :: "memory_write_tx \<Rightarrow> bytes \<Rightarrow> (bytes \<times> bytes) list result" where
  "write_prefix_scan t p = Inr (scan_prefix (working t) p)"

definition put :: "bytes \<Rightarrow> bytes \<Rightarrow> memory_write_tx \<Rightarrow> unit result \<times> memory_write_tx" where
  "put k v t = (Inr (), t\<lparr>working := bt_insert k v (working t)\<rparr>)"

definition delete :: "bytes \<Rightarrow> memory_write_tx \<Rightarrow> unit result \<times> memory_write_tx" where
  "delete k t = (Inr (), t\<lparr>working := bt_remove k (working t)\<rparr>)"

text \<open>\<open>commit\<close> swaps the working copy with the shared map; \<open>rollback\<close> empties the working
  copy. Both consume the transaction, which is returned as they leave it.\<close>

definition commit ::
  "memory_write_tx \<Rightarrow> memory_store \<Rightarrow> unit result \<times> memory_write_tx \<times> memory_store" where
  "commit t s =
     (if poisoned s then (Inl lock_poisoned, t, s)
      else (Inr (), t\<lparr>working := data s, committed := True\<rparr>, s\<lparr>data := working t\<rparr>))"

definition rollback :: "memory_write_tx \<Rightarrow> unit result \<times> memory_write_tx" where
  "rollback t = (Inr (), t\<lparr>working := bt_empty, committed := True\<rparr>)"

definition store_ok :: "memory_store \<Rightarrow> bool" where
  "store_ok s \<longleftrightarrow> bt_ok (data s) \<and> \<not> poisoned s"

definition tx_ok :: "memory_write_tx \<Rightarrow> bool" where
  "tx_ok t \<longleftrightarrow> bt_ok (working t)"

text \<open>What a store and an open transaction hold, as a map.\<close>

definition content :: "memory_store \<Rightarrow> bytes \<rightharpoonup> bytes" where
  "content s = bt_get (data s)"

definition tx_content :: "memory_write_tx \<Rightarrow> bytes \<rightharpoonup> bytes" where
  "tx_content t = bt_get (working t)"

text \<open>The writes of one transaction, and their meaning on maps.\<close>

datatype write_op = WPut bytes bytes | WDelete bytes

fun write_map :: "write_op \<Rightarrow> (bytes \<rightharpoonup> bytes) \<Rightarrow> (bytes \<rightharpoonup> bytes)" where
  "write_map (WPut k v) m = m(k \<mapsto> v)"
| "write_map (WDelete k) m = m(k := None)"

fun tx_write :: "write_op \<Rightarrow> memory_write_tx \<Rightarrow> memory_write_tx" where
  "tx_write (WPut k v) t = snd (put k v t)"
| "tx_write (WDelete k) t = snd (delete k t)"

text \<open>Interleaved use of one store: transactions are opened under a handle, and every event is
  one call of the API on the transaction with that handle. An event on a handle that is not
  open has no effect: the type system of the source excludes it.\<close>

record store_sys =
  sys_store :: memory_store
  writers :: "nat \<rightharpoonup> memory_write_tx"
  readers :: "nat \<rightharpoonup> memory_read_tx"

datatype store_event =
    BeginWrite nat
  | BeginRead nat
  | Write nat write_op
  | Commit nat
  | Rollback nat

fun store_step :: "store_event \<Rightarrow> store_sys \<Rightarrow> store_sys" where
  "store_step (BeginWrite i) y =
     (case begin_write_txn (sys_store y) of
        Inl _ \<Rightarrow> y | Inr t \<Rightarrow> y\<lparr>writers := (writers y)(i \<mapsto> t)\<rparr>)"
| "store_step (BeginRead i) y =
     (case begin_read_txn (sys_store y) of
        Inl _ \<Rightarrow> y | Inr t \<Rightarrow> y\<lparr>readers := (readers y)(i \<mapsto> t)\<rparr>)"
| "store_step (Write i w) y =
     (case writers y i of None \<Rightarrow> y | Some t \<Rightarrow> y\<lparr>writers := (writers y)(i \<mapsto> tx_write w t)\<rparr>)"
| "store_step (Commit i) y =
     (case writers y i of None \<Rightarrow> y
      | Some t \<Rightarrow> (case commit t (sys_store y) of
          (_, _, s') \<Rightarrow> y\<lparr>sys_store := s', writers := (writers y)(i := None)\<rparr>))"
| "store_step (Rollback i) y =
     (case writers y i of None \<Rightarrow> y
      | Some t \<Rightarrow> (case rollback t of (_, _) \<Rightarrow> y\<lparr>writers := (writers y)(i := None)\<rparr>))"

definition store_run :: "store_event list \<Rightarrow> store_sys \<Rightarrow> store_sys" where
  "store_run es y = fold store_step es y"

section \<open>Prefix scans\<close>

text \<open>In the lexicographic order, the keys that start with a prefix form an interval.\<close>

lemma prefix_convex:
  fixes p k r :: "'a::linorder list"
  assumes "p \<le> k" "k \<le> p @ r"
  shows "prefix p k"
  using assms
proof (induction p arbitrary: k)
  case Nil
  then show ?case by simp
next
  case (Cons x p)
  then obtain y ys where k: "k = y # ys"
    by (cases k) auto
  with Cons.prems have "x = y" "p \<le> ys" "ys \<le> p @ r"
    by auto
  with Cons.IH k show ?case by simp
qed

lemma prefix_le: "prefix p k \<Longrightarrow> p \<le> (k :: 'a::linorder list)"
proof (induction p arbitrary: k)
  case (Cons x p)
  then show ?case by (cases k) auto
qed simp

lemma takeWhile_prefix_sorted:
  assumes "sorted_wrt (<) (map fst m)" and "\<forall>e \<in> set m. p \<le> fst e"
  shows "takeWhile (\<lambda>e. prefix p (fst e)) m = filter (\<lambda>e. prefix p (fst e)) (m :: ('a::linorder list \<times> 'v) list)"
  using assms
proof (induction m)
  case (Cons e m)
  show ?case
  proof (cases "prefix p (fst e)")
    case True
    with Cons show ?thesis by simp
  next
    case False
    have "\<not> prefix p (fst d)" if d: "d \<in> set m" for d
    proof
      assume "prefix p (fst d)"
      then obtain r where "fst d = p @ r" by (auto simp: prefix_def)
      moreover have "fst e < fst d" using Cons.prems d by auto
      ultimately have "prefix p (fst e)"
        using Cons.prems(2) prefix_convex[of p "fst e" r] by auto
      with False show False by simp
    qed
    with False show ?thesis by (simp add: filter_empty_conv)
  qed
qed simp

lemma scan_prefix_filter:
  assumes "bt_ok m"
  shows "scan_prefix m p = filter (\<lambda>e. prefix p (fst e)) m"
proof -
  have "scan_prefix m p = filter (\<lambda>e. prefix p (fst e)) (filter (\<lambda>e. p \<le> fst e) m)"
    unfolding scan_prefix_def bt.above_entries[OF assms]
    using assms by (intro takeWhile_prefix_sorted) (auto simp: bt_ok_def sorted_wrt_map sorted_wrt_filter)
  also have "\<dots> = filter (\<lambda>e. prefix p (fst e)) m"
    by (auto simp: filter_filter intro!: filter_cong dest: prefix_le)
  finally show ?thesis .
qed


section \<open>The interface\<close>

text \<open>What the traits \<open>LocalStore\<close>, \<open>ReadTransaction\<close> and \<open>WriteTransaction\<close> promise, over the
  content of a store and of a transaction.\<close>

locale local_store =
  fixes ok :: "'s \<Rightarrow> bool"
    and held :: "'s \<Rightarrow> bytes \<rightharpoonup> bytes"
    and t_ok :: "'t \<Rightarrow> bool"
    and t_held :: "'t \<Rightarrow> bytes \<rightharpoonup> bytes"
    and start :: "'s \<Rightarrow> 't result"
    and get :: "'t \<Rightarrow> bytes \<Rightarrow> bytes option result"
    and scan :: "'t \<Rightarrow> bytes \<Rightarrow> (bytes \<times> bytes) list result"
    and wr :: "write_op \<Rightarrow> 't \<Rightarrow> 't"
    and finish :: "'t \<Rightarrow> 's \<Rightarrow> unit result \<times> 't \<times> 's"
  assumes start_ok: "ok s \<Longrightarrow> \<exists>t. start s = Inr t \<and> t_ok t \<and> t_held t = held s"
    and get_ok: "t_ok t \<Longrightarrow> get t k = Inr (t_held t k)"
    and scan_ok: "t_ok t \<Longrightarrow> \<exists>xs. scan t p = Inr xs \<and> sorted_wrt (<) (map fst xs) \<and>
                    map_of xs = t_held t |` {k. prefix p k}"
    and wr_ok: "t_ok t \<Longrightarrow> t_ok (wr w t) \<and> t_held (wr w t) = write_map w (t_held t)"
    and finish_ok: "ok s \<Longrightarrow> t_ok t \<Longrightarrow>
                      \<exists>t' s'. finish t s = (Inr (), t', s') \<and> ok s' \<and> held s' = t_held t"
begin

lemma writes_ok:
  "t_ok t \<Longrightarrow> t_ok (fold wr ws t) \<and> t_held (fold wr ws t) = fold write_map ws (t_held t)"
proof (induction ws arbitrary: t)
  case (Cons w ws)
  then show ?case using wr_ok[of t w] by simp
qed simp

text \<open>A transaction of any writes, started and finished on the same store, takes effect as a
  whole and reads its own writes in between.\<close>

lemma transaction:
  assumes "ok s"
  shows "\<exists>t t' s'. start s = Inr t \<and> finish (fold wr ws t) s = (Inr (), t', s') \<and> ok s' \<and>
           held s' = fold write_map ws (held s) \<and>
           (\<forall>k. get (fold wr ws t) k = Inr (fold write_map ws (held s) k))"
proof -
  from start_ok[OF assms] obtain t where t: "start s = Inr t" "t_ok t" "t_held t = held s"
    by blast
  with writes_ok[OF t(2), of ws] have w: "t_ok (fold wr ws t)"
    "t_held (fold wr ws t) = fold write_map ws (held s)"
    by simp_all
  from finish_ok[OF assms w(1)] w t(1) get_ok[OF w(1)] show ?thesis by metis
qed

end

section \<open>The interface holds of the in-memory store\<close>

lemma bt_ok_filter: "bt_ok m \<Longrightarrow> bt_ok (filter P m)"
  by (auto simp: bt_ok_def sorted_wrt_map sorted_wrt_filter)

lemma map_of_filter_key: "map_of (filter (\<lambda>e. P (fst e)) m) = map_of m |` {k. P k}"
  by (induction m) (auto simp: restrict_map_def fun_eq_iff)

lemma tx_write_content:
  "tx_ok t \<Longrightarrow> tx_ok (tx_write w t) \<and> tx_content (tx_write w t) = write_map w (tx_content t)"
  by (cases w) (auto simp: tx_ok_def tx_content_def put_def delete_def bt.look_ins bt.look_rem
    bt.ok_ins bt.ok_rem)

lemma scan_prefix_spec:
  assumes "tx_ok t"
  shows "\<exists>xs. write_prefix_scan t p = Inr xs \<and> sorted_wrt (<) (map fst xs) \<and>
    map_of xs = tx_content t |` {k. prefix p k}"
proof -
  have ok: "bt_ok (working t)" using assms by (simp add: tx_ok_def)
  have "sorted_wrt (<) (map fst (filter (\<lambda>e. prefix p (fst e)) (working t)))"
    by (rule bt_ok_ascending) (rule bt_ok_filter[OF ok])
  then show ?thesis
    by (simp add: write_prefix_scan_def scan_prefix_filter[OF ok] tx_content_def bt_get_map_of
      map_of_filter_key)
qed

interpretation mem: local_store store_ok content tx_ok tx_content begin_write_txn write_get
    write_prefix_scan tx_write commit
proof unfold_locales
  show "\<exists>t. begin_write_txn s = Inr t \<and> tx_ok t \<and> tx_content t = content s" if "store_ok s" for s
    using that by (simp add: begin_write_txn_def store_ok_def tx_ok_def tx_content_def content_def)
  show "\<exists>t' s'. commit t s = (Inr (), t', s') \<and> store_ok s' \<and> content s' = tx_content t"
    if "store_ok s" "tx_ok t" for s t
    using that by (simp add: commit_def store_ok_def tx_ok_def tx_content_def content_def)
qed (simp_all add: write_get_def tx_content_def[symmetric] scan_prefix_spec tx_write_content)

section \<open>Interleaved transactions\<close>

definition sys_ok :: "store_sys \<Rightarrow> bool" where
  "sys_ok y \<longleftrightarrow> store_ok (sys_store y) \<and> (\<forall>i t. writers y i = Some t \<longrightarrow> tx_ok t) \<and>
     (\<forall>i t. readers y i = Some t \<longrightarrow> bt_ok (snapshot t))"

lemma store_step_reader:
  "readers y i = Some t \<Longrightarrow> e \<noteq> BeginRead i \<Longrightarrow> readers (store_step e y) i = Some t"
  by (cases e) (auto split: sum.splits option.splits prod.splits)

lemma store_step_ok: "sys_ok y \<Longrightarrow> sys_ok (store_step e y)"
proof (cases e)
  case (BeginWrite i)
  then show "sys_ok y \<Longrightarrow> ?thesis"
    by (auto simp: sys_ok_def begin_write_txn_def store_ok_def tx_ok_def)
next
  case (BeginRead i)
  then show "sys_ok y \<Longrightarrow> ?thesis"
    by (auto simp: sys_ok_def begin_read_txn_def store_ok_def)
next
  case (Write i w)
  then show "sys_ok y \<Longrightarrow> ?thesis"
    by (auto simp: sys_ok_def tx_write_content split: option.splits)
next
  case (Commit i)
  then show "sys_ok y \<Longrightarrow> ?thesis"
    by (auto simp: sys_ok_def commit_def store_ok_def tx_ok_def split: option.splits)
next
  case (Rollback i)
  then show "sys_ok y \<Longrightarrow> ?thesis"
    by (auto simp: sys_ok_def rollback_def split: option.splits)
qed

lemma store_run_ok: "sys_ok y \<Longrightarrow> sys_ok (store_run es y)"
  by (induction es arbitrary: y) (simp_all add: store_run_def store_step_ok)

lemma store_run_reader:
  "readers y i = Some t \<Longrightarrow> BeginRead i \<notin> set es \<Longrightarrow> readers (store_run es y) i = Some t"
  by (induction es arbitrary: y) (auto simp: store_run_def store_step_reader simp del: store_step.simps)

lemma store_run_writes:
  "writers y i = Some t \<Longrightarrow>
   store_run (map (Write i) ws) y = y\<lparr>writers := (writers y)(i \<mapsto> fold tx_write ws t)\<rparr>"
proof (induction ws arbitrary: y t)
  case Nil
  then show ?case by (simp add: store_run_def map_upd_triv)
next
  case (Cons w ws)
  let ?y = "y\<lparr>writers := (writers y)(i \<mapsto> tx_write w t)\<rparr>"
  have "store_run (map (Write i) (w # ws)) y = store_run (map (Write i) ws) ?y"
    by (simp add: store_run_def Cons.prems)
  also have "\<dots> = ?y\<lparr>writers := (writers ?y)(i \<mapsto> fold tx_write ws (tx_write w t))\<rparr>"
    by (rule Cons.IH) simp
  also have "\<dots> = y\<lparr>writers := (writers y)(i \<mapsto> fold tx_write (w # ws) t)\<rparr>"
    by simp
  finally show ?case .
qed

lemma store_run_append: "store_run (es @ fs) y = store_run fs (store_run es y)"
  by (simp add: store_run_def)

lemma store_run_Cons: "store_run (e # es) y = store_run es (store_step e y)"
  by (simp add: store_run_def)

lemma store_run_Nil [simp]: "store_run [] y = y"
  by (simp add: store_run_def)

section \<open>Properties\<close>

text \<open>C30. A prefix scan of a snapshot returns exactly the entries of the store whose key starts
  with the prefix, in ascending key order: stopping at the first key without the prefix loses
  nothing.\<close>

theorem prefix_scan_complete:
  assumes "store_ok s" and "begin_read_txn s = Inr t"
  shows "read_prefix_scan t p = Inr (filter (\<lambda>e. prefix p (fst e)) (data s)) \<and>
         sorted_wrt (<) (map fst (filter (\<lambda>e. prefix p (fst e)) (data s)))"
proof -
  have "bt_ok (data s)" and "snapshot t = data s"
    using assms by (auto simp: store_ok_def begin_read_txn_def)
  then show ?thesis
    using bt_ok_ascending[OF bt_ok_filter] by (simp add: read_prefix_scan_def scan_prefix_filter)
qed

theorem prefix_scan_complete_witness:
  "read_prefix_scan \<lparr>snapshot = [([1, 2], [10]), ([1, 3], [11]), ([2], [12])]\<rparr> [1] =
   Inr [([1, 2], [10]), ([1, 3], [11])]"
  using prefix_scan_complete[of "\<lparr>data = [([1, 2], [10]), ([1, 3], [11]), ([2], [12])], poisoned = False\<rparr>"
    "\<lparr>snapshot = [([1, 2], [10]), ([1, 3], [11]), ([2], [12])]\<rparr>" "[1]"]
  by (simp add: store_ok_def bt_ok_def begin_read_txn_def)

text \<open>C29. A write transaction started and committed on the same store takes effect as a whole:
  the store then holds the result of its puts and deletes in program order, and every read inside
  the transaction saw the writes made before it.\<close>

theorem transaction_atomic:
  assumes "store_ok s"
  shows "\<exists>t t' s'. begin_write_txn s = Inr t \<and> commit (fold tx_write ws t) s = (Inr (), t', s') \<and>
           store_ok s' \<and> content s' = fold write_map ws (content s) \<and>
           (\<forall>k. write_get (fold tx_write ws t) k = Inr (fold write_map ws (content s) k))"
  by (rule mem.transaction) (rule assms)

theorem transaction_atomic_witness:
  "\<exists>t t' s'. begin_write_txn memory_store_new = Inr t \<and>
     commit (fold tx_write [WPut [1] [2], WDelete [1], WPut [3] [4]] t) memory_store_new = (Inr (), t', s') \<and>
     store_ok s' \<and> content s' [3] = Some [4] \<and> content s' [1] = None"
proof -
  have ok: "store_ok memory_store_new" and e: "content memory_store_new = Map.empty"
    by (simp_all add: store_ok_def memory_store_new_def bt_ok_empty content_def bt_get_empty)
  from transaction_atomic[OF ok, of "[WPut [1] [2], WDelete [1], WPut [3] [4]]"] obtain t t' s' where
    "begin_write_txn memory_store_new = Inr t"
    "commit (fold tx_write [WPut [1] [2], WDelete [1], WPut [3] [4]] t) memory_store_new = (Inr (), t', s')"
    "store_ok s'" "content s' = fold write_map [WPut [1] [2], WDelete [1], WPut [3] [4]] (content memory_store_new)"
    by metis
  with e show ?thesis by auto
qed

text \<open>C28. Snapshot isolation: once a read transaction is open, no sequence of other calls on the
  store (transactions opened, written, committed or rolled back in any interleaving) changes what
  it reads, by key or by prefix, and every reachable state stays well formed.\<close>

theorem snapshot_isolation:
  assumes "sys_ok y" and "begin_read_txn (sys_store y) = Inr t" and "BeginRead i \<notin> set es"
  shows "\<exists>t'. readers (store_run (BeginRead i # es) y) i = Some t' \<and>
           read_get t' k = Inr (content (sys_store y) k) \<and>
           read_prefix_scan t' p = Inr (filter (\<lambda>e. prefix p (fst e)) (data (sys_store y))) \<and>
           sys_ok (store_run (BeginRead i # es) y)"
proof -
  have t: "snapshot t = data (sys_store y)" and ok: "bt_ok (data (sys_store y))"
    using assms by (auto simp: begin_read_txn_def sys_ok_def store_ok_def split: if_splits)
  have "readers (store_step (BeginRead i) y) i = Some t"
    using assms(2) by simp
  then have "readers (store_run (BeginRead i # es) y) i = Some t"
    unfolding store_run_Cons using assms(3) by (rule store_run_reader)
  then show ?thesis
    using store_run_ok[OF assms(1)] t ok
    by (simp add: read_get_def content_def read_prefix_scan_def scan_prefix_filter)
qed

theorem snapshot_isolation_witness:
  "\<exists>t'. readers (store_run [BeginRead 0, BeginWrite 1, Write 1 (WPut [7] [9]), Commit 1]
      \<lparr>sys_store = memory_store_new, writers = Map.empty, readers = Map.empty\<rparr>) 0 = Some t' \<and>
      read_get t' [7] = Inr None"
proof -
  let ?y = "\<lparr>sys_store = memory_store_new, writers = Map.empty, readers = Map.empty\<rparr>"
  have "sys_ok ?y" "begin_read_txn (sys_store ?y) = Inr \<lparr>snapshot = []\<rparr>"
    "content (sys_store ?y) [7] = None"
    by (simp_all add: sys_ok_def store_ok_def memory_store_new_def begin_read_txn_def bt_empty_def
      content_def bt_get_def)
  with snapshot_isolation[of ?y "\<lparr>snapshot = []\<rparr>" 0 "[BeginWrite 1, Write 1 (WPut [7] [9]), Commit 1]" "[7]"]
  show ?thesis by auto
qed

text \<open>C33. Write transactions are not serialised: of two write transactions opened on the same
  state, the one that commits last replaces the whole map, so every write of the one that committed
  first is lost, although its commit succeeded.\<close>

theorem concurrent_commit_lost_update:
  assumes "sys_ok y" and "i \<noteq> j"
  shows "content (sys_store (store_run ([BeginWrite i, BeginWrite j] @ map (Write i) ws @
            map (Write j) vs @ [Commit i]) y)) = fold write_map ws (content (sys_store y)) \<and>
         content (sys_store (store_run ([BeginWrite i, BeginWrite j] @ map (Write i) ws @
            map (Write j) vs @ [Commit i, Commit j]) y)) = fold write_map vs (content (sys_store y))"
proof -
  let ?t = "\<lparr>working = data (sys_store y), committed = False\<rparr>"
  have ok: "tx_ok ?t" and np: "\<not> poisoned (sys_store y)"
    using assms(1) by (auto simp: sys_ok_def store_ok_def tx_ok_def)
  have c: "tx_content ?t = content (sys_store y)"
    by (simp add: tx_content_def content_def)
  show ?thesis
    using np assms(2) mem.writes_ok[OF ok, of ws] mem.writes_ok[OF ok, of vs] c
    by (simp add: store_run_append store_run_Cons store_run_writes begin_write_txn_def commit_def
      content_def tx_content_def)
qed

theorem concurrent_commit_lost_update_witness:
  "content (sys_store (store_run [BeginWrite 0, BeginWrite 1, Write 0 (WPut [1] [1]),
      Write 1 (WPut [2] [2]), Commit 0, Commit 1]
      \<lparr>sys_store = memory_store_new, writers = Map.empty, readers = Map.empty\<rparr>)) [1] = None"
  using concurrent_commit_lost_update[of "\<lparr>sys_store = memory_store_new, writers = Map.empty, readers = Map.empty\<rparr>"
    0 1 "[WPut [1] [1]]" "[WPut [2] [2]]"]
  by (simp add: sys_ok_def store_ok_def memory_store_new_def bt_ok_empty content_def bt_get_empty)

end
