(* ===== verification/Base_Engine.thy ===== *)
theory Base_Engine
  imports Loglet Memory_Store
begin

text \<open>
  The engine and applicator traits (\<open>relos-engine/src/traits.rs\<close>) and the base engine
  (\<open>base_engine.rs\<close>), which drives a replicated state machine: it reads the entries of the shared
  log in order and applies each one, together with the new apply cursor, in one transaction of the
  local store.

  The state of the apply loop is the log, the store, the applicator's own state (an applicator may
  share state with its engine, such as a view map) and the cursor. Appending may fail to return
  and the loop of \<open>handle_propose\<close> may run past the last 64-bit position, so both are options.

  \<open>applicator\<close> is the contract of an applicator: what it does to the content of the store, and
  what it returns, is a function of the entry, its position and that content. \<open>replica\<close> proves
  from it, for any log that meets the contract of a loglet, that the store of an engine is always
  the replay of a prefix of the log.
\<close>

section \<open>Traits\<close>

datatype return_value = Success | Data bytes

record 's engine_ops =
  eng_propose :: "entry \<Rightarrow> 's \<Rightarrow> (return_value result \<times> 's) option"
  eng_sync :: "'s \<Rightarrow> (LogPos result \<times> 's) option"

type_synonym 'x applicator_fn =
  "entry \<Rightarrow> LogPos \<Rightarrow> memory_write_tx \<Rightarrow> 'x \<Rightarrow> return_value result \<times> memory_write_tx \<times> 'x"

section \<open>The engine\<close>

definition CURSOR_KEY :: bytes where
  "CURSOR_KEY = into_bytes ''__cursor__''"

record ('l, 'x) base_engine =
  be_log :: 'l
  be_store :: memory_store
  be_app :: 'x
  be_cursor :: LogPos

definition read_cursor :: "memory_store \<Rightarrow> LogPos result" where
  "read_cursor s =
     and_then (begin_read_txn s) (\<lambda>txn.
     and_then (read_get txn CURSOR_KEY) (\<lambda>v.
     case v of
       None \<Rightarrow> Inr LOG_POS_BEGIN
     | Some bs \<Rightarrow>
         if length bs = 8 then Inr (from_le_bytes bs) else Inl (Store ''invalid cursor bytes'')))"

definition engine_new :: "'l \<Rightarrow> memory_store \<Rightarrow> 'x \<Rightarrow> ('l, 'x) base_engine result" where
  "engine_new log s x =
     and_then (read_cursor s) (\<lambda>cursor.
     Inr \<lparr>be_log = log, be_store = s, be_app = x, be_cursor = cursor\<rparr>)"

text \<open>A transaction that is not committed is dropped, and the store is unchanged; what the
  applicator did to its own state remains.\<close>

definition apply_one ::
  "'l loglet_ops \<Rightarrow> 'x applicator_fn \<Rightarrow> 'l \<Rightarrow> LogPos \<Rightarrow> memory_store \<Rightarrow> 'x \<Rightarrow>
   return_value result \<times> memory_store \<times> 'x" where
  "apply_one ops app log pos s x =
     (case lg_read ops pos log of
        Inl err \<Rightarrow> (Inl err, s, x)
      | Inr None \<Rightarrow>
          (Inl (Internal (''expected entry at position '' @ decimal (unat pos) @ '' but got None'')), s, x)
      | Inr (Some en) \<Rightarrow>
          (case begin_write_txn s of
             Inl err \<Rightarrow> (Inl err, s, x)
           | Inr txn \<Rightarrow>
               (case app en pos txn x of
                  (Inl err, txn1, x') \<Rightarrow> (Inl err, s, x')
                | (Inr rv, txn1, x') \<Rightarrow>
                    (let next_cursor = pos + 1 in
                     case put CURSOR_KEY (to_le_bytes next_cursor) txn1 of
                       (Inl err, txn2) \<Rightarrow> (Inl err, s, x')
                     | (Inr _, txn2) \<Rightarrow>
                         (case commit txn2 s of
                            (Inl err, txn3, s') \<Rightarrow> (Inl err, s', x')
                          | (Inr _, txn3, s') \<Rightarrow> (Inr rv, s', x'))))))"

partial_function (option) propose_loop ::
  "'l loglet_ops \<Rightarrow> 'x applicator_fn \<Rightarrow> 'l \<Rightarrow> LogPos \<Rightarrow> return_value \<Rightarrow> LogPos \<Rightarrow> memory_store \<Rightarrow> 'x \<Rightarrow>
   (return_value result \<times> LogPos \<times> memory_store \<times> 'x) option" where
  "propose_loop ops app log target_pos target_return cursor s x =
     (if cursor \<le> target_pos then
        (case apply_one ops app log cursor s x of
           (Inl err, s', x') \<Rightarrow> Some (Inl err, cursor, s', x')
         | (Inr rv, s', x') \<Rightarrow>
             propose_loop ops app log target_pos (if cursor = target_pos then rv else target_return)
               (cursor + 1) s' x')
      else Some (Inr target_return, cursor, s, x))"

declare propose_loop.simps [code]

definition handle_propose ::
  "'l loglet_ops \<Rightarrow> 'x applicator_fn \<Rightarrow> entry \<Rightarrow> ('l, 'x) base_engine \<Rightarrow>
   (return_value result \<times> ('l, 'x) base_engine) option" where
  "handle_propose ops app en be =
     (case lg_append ops en (be_log be) of
        None \<Rightarrow> None
      | Some (Inl err, log') \<Rightarrow> Some (Inl err, be\<lparr>be_log := log'\<rparr>)
      | Some (Inr target_pos, log') \<Rightarrow>
          (case propose_loop ops app log' target_pos Success (be_cursor be) (be_store be) (be_app be) of
             None \<Rightarrow> None
           | Some (r, cursor', s', x') \<Rightarrow>
               Some (r, \<lparr>be_log = log', be_store = s', be_app = x', be_cursor = cursor'\<rparr>)))"

function sync_loop ::
  "'l loglet_ops \<Rightarrow> 'x applicator_fn \<Rightarrow> 'l \<Rightarrow> LogPos \<Rightarrow> LogPos \<Rightarrow> memory_store \<Rightarrow> 'x \<Rightarrow>
   unit result \<times> LogPos \<times> memory_store \<times> 'x" where
  "sync_loop ops app log tail cursor s x =
     (if cursor < tail then
        (case apply_one ops app log cursor s x of
           (Inl err, s', x') \<Rightarrow> (Inl err, cursor, s', x')
         | (Inr _, s', x') \<Rightarrow> sync_loop ops app log tail (cursor + 1) s' x')
      else (Inr (), cursor, s, x))"
  by pat_completeness auto

definition handle_sync ::
  "'l loglet_ops \<Rightarrow> 'x applicator_fn \<Rightarrow> ('l, 'x) base_engine \<Rightarrow> LogPos result \<times> ('l, 'x) base_engine" where
  "handle_sync ops app be =
     (case lg_check_tail ops (be_log be) of
        Inl err \<Rightarrow> (Inl err, be)
      | Inr tail \<Rightarrow>
          (case sync_loop ops app (be_log be) tail (be_cursor be) (be_store be) (be_app be) of
             (Inl err, cursor', s', x') \<Rightarrow>
               (Inl err, be\<lparr>be_store := s', be_app := x', be_cursor := cursor'\<rparr>)
           | (Inr _, cursor', s', x') \<Rightarrow>
               (Inr tail, be\<lparr>be_store := s', be_app := x', be_cursor := cursor'\<rparr>)))"

text \<open>The apply loop serves one request at a time, in the order the channel delivers them.\<close>

datatype apply_request = Propose entry | Sync

datatype apply_reply = Proposed "return_value result" | Synced "LogPos result"

fun apply_loop ::
  "'l loglet_ops \<Rightarrow> 'x applicator_fn \<Rightarrow> apply_request list \<Rightarrow> ('l, 'x) base_engine \<Rightarrow>
   (apply_reply list \<times> ('l, 'x) base_engine) option" where
  "apply_loop ops app [] be = Some ([], be)"
| "apply_loop ops app (Propose en # rs) be =
     (case handle_propose ops app en be of
        None \<Rightarrow> None
      | Some (r, be') \<Rightarrow>
          map_option (\<lambda>(reps, be''). (Proposed r # reps, be'')) (apply_loop ops app rs be'))"
| "apply_loop ops app (Sync # rs) be =
     (case handle_sync ops app be of
        (r, be') \<Rightarrow> map_option (\<lambda>(reps, be''). (Synced r # reps, be'')) (apply_loop ops app rs be'))"

text \<open>\<open>impl Engine for BaseEngine\<close>: a call is one request to the loop and its reply. The loop runs as
  long as the engine exists, so the two errors for a loop that has shut down do not occur.\<close>

definition base_propose ::
  "'l loglet_ops \<Rightarrow> 'x applicator_fn \<Rightarrow> entry \<Rightarrow> ('l, 'x) base_engine \<Rightarrow>
   (return_value result \<times> ('l, 'x) base_engine) option" where
  "base_propose ops app en be = handle_propose ops app en be"

definition base_sync ::
  "'l loglet_ops \<Rightarrow> 'x applicator_fn \<Rightarrow> ('l, 'x) base_engine \<Rightarrow>
   (LogPos result \<times> ('l, 'x) base_engine) option" where
  "base_sync ops app be = Some (handle_sync ops app be)"

definition base_ops :: "'l loglet_ops \<Rightarrow> 'x applicator_fn \<Rightarrow> ('l, 'x) base_engine engine_ops" where
  "base_ops ops app = \<lparr>eng_propose = base_propose ops app, eng_sync = base_sync ops app\<rparr>"

lemma base_ops_sel [simp]:
  "eng_propose (base_ops ops app) = handle_propose ops app"
  "eng_sync (base_ops ops app) be = Some (handle_sync ops app be)"
  by (simp_all add: base_ops_def base_propose_def[abs_def] base_sync_def)

text \<open>The life of one server: its own requests, entries that other servers append to the shared log
  meanwhile, and crashes. A crash may come after any number of further entries were applied, before
  the reply; what survives is the log and the store, from which \<open>engine_new\<close> starts again with a
  fresh applicator state.\<close>

fun apply_some ::
  "'l loglet_ops \<Rightarrow> 'x applicator_fn \<Rightarrow> 'l \<Rightarrow> nat \<Rightarrow> LogPos \<Rightarrow> memory_store \<Rightarrow> 'x \<Rightarrow> memory_store" where
  "apply_some ops app log 0 cursor s x = s"
| "apply_some ops app log (Suc j) cursor s x =
     (case apply_one ops app log cursor s x of
        (Inl err, s', x') \<Rightarrow> s'
      | (Inr _, s', x') \<Rightarrow> apply_some ops app log j (cursor + 1) s' x')"

datatype server_event = Request apply_request | Remote entry | Crash nat

fun server_run ::
  "'l loglet_ops \<Rightarrow> 'x applicator_fn \<Rightarrow> 'x \<Rightarrow> server_event list \<Rightarrow> ('l, 'x) base_engine \<Rightarrow>
   (unit result \<times> ('l, 'x) base_engine) option" where
  "server_run ops app x0 [] be = Some (Inr (), be)"
| "server_run ops app x0 (Request r # es) be =
     (case apply_loop ops app [r] be of
        None \<Rightarrow> None
      | Some (_, be') \<Rightarrow> server_run ops app x0 es be')"
| "server_run ops app x0 (Remote en # es) be =
     (case lg_append ops en (be_log be) of
        None \<Rightarrow> None
      | Some (_, log') \<Rightarrow> server_run ops app x0 es (be\<lparr>be_log := log'\<rparr>))"
| "server_run ops app x0 (Crash j # es) be =
     (let s' = apply_some ops app (be_log be) j (be_cursor be) (be_store be) (be_app be)
      in case engine_new (be_log be) s' x0 of
           Inl err \<Rightarrow> Some (Inl err, be\<lparr>be_store := s'\<rparr>)
         | Inr be' \<Rightarrow> server_run ops app x0 es be')"

fun run_appended :: "server_event list \<Rightarrow> entry list" where
  "run_appended [] = []"
| "run_appended (Request (Propose en) # es) = en # run_appended es"
| "run_appended (Remote en # es) = en # run_appended es"
| "run_appended (_ # es) = run_appended es"

text \<open>The loop of \<open>handle_sync\<close> always ends: the cursor stays below the tail it has read.\<close>

lemma succ_less_pos: "c < (t :: u64) \<Longrightarrow> unat (c + 1) = Suc (unat c)"
proof -
  assume "c < t"
  then have "unat c < unat t" "unat t < 2 ^ 64"
    using unat_u64_less by (simp_all add: word_less_nat_alt)
  then have "unat (of_nat (Suc (unat c)) :: u64) = Suc (unat c)"
    by (intro unat_of_nat_pos) simp
  then show ?thesis by (simp add: add.commute)
qed

termination sync_loop
  by (relation "measure (\<lambda>(ops, app, log, tail, cursor, s, x). unat tail - unat cursor)")
    (auto simp: succ_less_pos word_less_nat_alt)

declare sync_loop.simps [simp del]

section \<open>Replay\<close>

text \<open>What the log means: applying entries to a content one after the other, each at its position
  and each followed by the cursor it leaves behind.\<close>

type_synonym app_sem =
  "entry \<Rightarrow> LogPos \<Rightarrow> (bytes \<rightharpoonup> bytes) \<Rightarrow> (return_value \<times> (bytes \<rightharpoonup> bytes)) result"

definition with_cursor :: "nat \<Rightarrow> (bytes \<rightharpoonup> bytes) \<Rightarrow> (bytes \<rightharpoonup> bytes)" where
  "with_cursor p m = m(CURSOR_KEY \<mapsto> to_le_bytes (of_nat p))"

fun replay :: "app_sem \<Rightarrow> nat \<Rightarrow> entry list \<Rightarrow> (bytes \<rightharpoonup> bytes) \<Rightarrow> (bytes \<rightharpoonup> bytes) result" where
  "replay sem p [] m = Inr m"
| "replay sem p (e # es) m =
     and_then (sem e (of_nat p) m) (\<lambda>(rv, m'). replay sem (Suc p) es (with_cursor (Suc p) m'))"

lemma replay_append:
  "replay sem p (es @ fs) m = and_then (replay sem p es m) (replay sem (p + length es) fs)"
  by (induction es arbitrary: p m) (auto simp: and_then_def split: sum.splits)

lemma replay_snoc:
  "replay sem p (es @ [e]) m = and_then (replay sem p es m) (\<lambda>m1.
     and_then (sem e (of_nat (p + length es)) m1) (\<lambda>(rv, m2). Inr (with_cursor (Suc (p + length es)) m2)))"
  by (cases "replay sem p es m") (simp_all add: replay_append)

lemma replay_take_Suc:
  "k < length es \<Longrightarrow> replay sem 1 (take (Suc k) es) m = and_then (replay sem 1 (take k es) m) (\<lambda>m1.
     and_then (sem (es ! k) (of_nat (Suc k)) m1) (\<lambda>(rv, m2). Inr (with_cursor (Suc (Suc k)) m2)))"
  using replay_snoc[of sem 1 "take k es" "es ! k" m] by (simp add: take_Suc_conv_app_nth)

lemma replay_cursor:
  assumes "replay sem 1 es m = Inr m'"
  shows "m' CURSOR_KEY = (if es = [] then m CURSOR_KEY else Some (to_le_bytes (of_nat (Suc (length es)))))"
proof (cases es rule: rev_cases)
  case (snoc xs e)
  with assms show ?thesis
    by (auto simp: replay_snoc and_then_eq_Inr with_cursor_def split: prod.splits)
qed (use assms in simp)

text \<open>A prefix of a log that replays replays too.\<close>

lemma replay_take_prefix:
  assumes "replay sem 1 (take n es) m = Inr m'" "k \<le> n"
  shows "\<exists>m1. replay sem 1 (take k es) m = Inr m1"
proof -
  have "take n es = take k es @ take (n - k) (drop k es)"
    using assms(2) by (metis le_add_diff_inverse take_add)
  then have "replay sem 1 (take k es @ take (n - k) (drop k es)) m = Inr m'"
    using assms(1) by simp
  then show ?thesis by (auto simp: replay_append and_then_eq_Inr)
qed

section \<open>Contracts\<close>

text \<open>\<open>sem\<close> is the applicator's meaning: it says what the call returns and what the transaction
  then holds, whatever the applicator's own state and the transaction's representation.\<close>

definition meets ::
  "return_value result \<times> memory_write_tx \<times> 'x \<Rightarrow> (return_value \<times> (bytes \<rightharpoonup> bytes)) result \<Rightarrow> bool" where
  "meets out res \<longleftrightarrow>
     (case res of
        Inl err \<Rightarrow> fst out = Inl err
      | Inr (rv, m) \<Rightarrow> fst out = Inr rv \<and> tx_ok (fst (snd out)) \<and> tx_content (fst (snd out)) = m)"

lemma meets_simps [simp]:
  "meets out (Inl err) \<longleftrightarrow> fst out = Inl err"
  "meets out (Inr (rv, m)) \<longleftrightarrow> fst out = Inr rv \<and> tx_ok (fst (snd out)) \<and> tx_content (fst (snd out)) = m"
  by (simp_all add: meets_def)

locale applicator =
  fixes app :: "'x applicator_fn" and sem :: app_sem
  assumes app_meets: "tx_ok t \<Longrightarrow> meets (app en pos t x) (sem en pos (tx_content t))"
begin

lemma app_ok:
  "tx_ok t \<Longrightarrow> sem en pos (tx_content t) = Inr (rv, m) \<Longrightarrow>
   \<exists>t' x'. app en pos t x = (Inr rv, t', x') \<and> tx_ok t' \<and> tx_content t' = m"
  using app_meets[of t en pos x] by (cases "app en pos t x") simp

lemma app_err:
  "tx_ok t \<Longrightarrow> sem en pos (tx_content t) = Inl err \<Longrightarrow> \<exists>t' x'. app en pos t x = (Inl err, t', x')"
  using app_meets[of t en pos x] by (cases "app en pos t x") simp

end

text \<open>\<open>engine_inv rel sem be a n\<close>: the log of the engine represents \<open>a\<close>, and the engine has applied
  exactly its first \<open>n\<close> entries.\<close>

definition replayed :: "app_sem \<Rightarrow> alog \<Rightarrow> nat \<Rightarrow> memory_store \<Rightarrow> bool" where
  "replayed sem a n s \<longleftrightarrow> store_ok s \<and> n \<le> length (al_entries a) \<and>
     replay sem 1 (take n (al_entries a)) Map.empty = Inr (content s)"

definition engine_inv ::
  "('l \<Rightarrow> alog \<Rightarrow> bool) \<Rightarrow> app_sem \<Rightarrow> ('l, 'x) base_engine \<Rightarrow> alog \<Rightarrow> nat \<Rightarrow> bool" where
  "engine_inv rel sem be a n \<longleftrightarrow> rel (be_log be) a \<and> be_cursor be = of_nat (Suc n) \<and>
     replayed sem a n (be_store be)"

text \<open>Why an engine that has applied \<open>k\<close> entries cannot apply the next one: it is trimmed, or the
  applicator refuses it.\<close>

definition blocked :: "app_sem \<Rightarrow> alog \<Rightarrow> nat \<Rightarrow> memory_store \<Rightarrow> relos_error \<Rightarrow> bool" where
  "blocked sem a k s err \<longleftrightarrow>
     (if Suc k < al_trim a then is_Trimmed err
      else sem (al_entries a ! k) (of_nat (Suc k)) (content s) = Inl err)"

lemma replayed_push: "replayed sem a n s \<Longrightarrow> replayed sem (al_push e a) n s"
  by (simp add: replayed_def)

lemma replayed_det: "replayed sem a n s \<Longrightarrow> replayed sem a n s' \<Longrightarrow> content s = content s'"
  by (simp add: replayed_def)

lemma read_cursor_replayed:
  assumes "replayed sem a n s"
  shows "read_cursor s = Inr (of_nat (Suc n))"
proof -
  have "content s CURSOR_KEY = (if n = 0 then None else Some (to_le_bytes (of_nat (Suc n))))"
    using assms replay_cursor[of sem "take n (al_entries a)" Map.empty "content s"]
    by (auto simp: replayed_def)
  then show ?thesis
    using assms by (simp add: read_cursor_def begin_read_txn_def replayed_def store_ok_def read_get_def
      content_def LOG_POS_BEGIN_def)
qed

text \<open>How far a loop with target \<open>N\<close> gets: to the target, or to the first entry that blocks.\<close>

definition played :: "app_sem \<Rightarrow> alog \<Rightarrow> nat \<Rightarrow> 'r result \<Rightarrow> nat \<Rightarrow> memory_store \<Rightarrow> bool" where
  "played sem a N r k s \<longleftrightarrow> replayed sem a k s \<and> k \<le> N \<and>
     (case r of Inr _ \<Rightarrow> k = N | Inl err \<Rightarrow> k < N \<and> blocked sem a k s err)"

text \<open>\<open>rv\<close> is what applying the entry at position \<open>Suc k\<close> returns, after the entries before it.\<close>

definition returned :: "app_sem \<Rightarrow> alog \<Rightarrow> nat \<Rightarrow> return_value \<Rightarrow> bool" where
  "returned sem a k rv \<longleftrightarrow>
     (\<exists>m0 m. replay sem 1 (take k (al_entries a)) Map.empty = Inr m0 \<and>
        sem (al_entries a ! k) (of_nat (Suc k)) m0 = Inr (rv, m))"

text \<open>Neither depends on how much of the log is trimmed.\<close>

lemma replayed_trim [simp]: "replayed sem (a\<lparr>al_trim := T\<rparr>) n s = replayed sem a n s"
  by (simp add: replayed_def)

lemma returned_trim [simp]: "returned sem (a\<lparr>al_trim := T\<rparr>) k rv = returned sem a k rv"
  by (simp add: returned_def)

text \<open>No entry of a log that replays as a whole blocks, and an entry that the applicator refuses
  stops the replay for good.\<close>

lemma not_blocked:
  assumes "replayed sem a k s" "k < N" "N \<le> length (al_entries a)" "al_trim a \<le> Suc k"
    "replay sem 1 (take N (al_entries a)) Map.empty = Inr m"
  shows "\<not> blocked sem a k s err"
proof -
  obtain m1 where "replay sem 1 (take (Suc k) (al_entries a)) Map.empty = Inr m1"
    using replay_take_prefix[OF assms(5), of "Suc k"] assms(2) by auto
  then show ?thesis
    using assms(1-4)
    by (auto simp: blocked_def replayed_def replay_take_Suc and_then_eq_Inr simp del: of_nat_Suc One_nat_def)
qed

lemma played_healthy:
  assumes "played sem a N r k s" "n \<le> k" "N \<le> length (al_entries a)" "al_trim a \<le> Suc n"
    "replay sem 1 (take N (al_entries a)) Map.empty = Inr m"
  shows "(\<exists>v. r = Inr v) \<and> k = N \<and> content s = m"
proof (cases r)
  case (Inl err)
  then have "k < N" "blocked sem a k s err" "replayed sem a k s"
    using assms(1) by (simp_all add: played_def)
  with not_blocked[OF _ _ assms(3) _ assms(5)] assms(2,4) show ?thesis by fastforce
next
  case (Inr v)
  with assms(1,5) show ?thesis by (auto simp: played_def replayed_def)
qed

definition refused :: "app_sem \<Rightarrow> alog \<Rightarrow> nat \<Rightarrow> memory_store \<Rightarrow> relos_error \<Rightarrow> bool" where
  "refused sem a n s err \<longleftrightarrow> n < length (al_entries a) \<and> al_trim a \<le> Suc n \<and>
     sem (al_entries a ! n) (of_nat (Suc n)) (content s) = Inl err"

lemma refused_stays:
  assumes "replayed sem a n s" "refused sem a n s err" "replayed sem a' k s'" "n \<le> k"
    "al_entries a' = al_entries a @ fs"
  shows "k = n"
proof (rule ccontr)
  assume "k \<noteq> n"
  with assms obtain m where m: "replay sem 1 (take (Suc n) (al_entries a')) Map.empty = Inr m"
    using replay_take_prefix[of sem k "al_entries a'" Map.empty "content s'" "Suc n"]
    by (auto simp: replayed_def)
  have "take (Suc n) (al_entries a') = take (Suc n) (al_entries a)"
    using assms(2,5) by (simp add: refused_def)
  with m assms(1,2) show False
    by (simp add: refused_def replayed_def replay_take_Suc del: of_nat_Suc One_nat_def)
qed

lemma refused_push: "refused sem a n s err \<Longrightarrow> refused sem (al_push e a) n s err"
  by (simp add: refused_def nth_append)

lemma refused_extend:
  "refused sem a n s err \<Longrightarrow> refused sem (a\<lparr>al_entries := al_entries a @ fs\<rparr>) n s err"
  by (simp add: refused_def nth_append)

lemma played_refused:
  assumes "played sem a N r n s" "n < N" "refused sem a n s err"
  shows "r = Inl err"
  using assms by (cases r) (auto simp: played_def blocked_def refused_def simp del: of_nat_Suc)

locale replica = loglet_core ops rel + applicator app sem
  for ops :: "'l loglet_ops" and rel :: "'l \<Rightarrow> alog \<Rightarrow> bool"
  and app :: "'x applicator_fn" and sem :: app_sem
begin

lemma pos_word:
  assumes "rel l a" "k \<le> length (al_entries a)"
  shows "unat (of_nat (Suc k) :: u64) = Suc k"
  using assms rel_bounds[OF assms(1)] by (intro unat_of_nat_pos) (simp add: al_tail_def)

text \<open>One entry, on every branch.\<close>

lemma apply_one_spec:
  assumes "rel l a" "replayed sem a k s" "k < length (al_entries a)"
  shows "(\<exists>err x'. apply_one ops app l (of_nat (Suc k)) s x = (Inl err, s, x') \<and> blocked sem a k s err) \<or>
         (\<exists>rv m s' x'. apply_one ops app l (of_nat (Suc k)) s x = (Inr rv, s', x') \<and>
            al_trim a \<le> Suc k \<and> replayed sem a (Suc k) s' \<and>
            sem (al_entries a ! k) (of_nat (Suc k)) (content s) = Inr (rv, m) \<and>
            content s' = with_cursor (Suc (Suc k)) m)"
proof (cases "Suc k < al_trim a")
  case True
  have "unat (of_nat (Suc k) :: u64) = Suc k"
    using pos_word[OF assms(1)] assms(3) by simp
  with read_trimmed[OF assms(1), of "of_nat (Suc k)"] True obtain q where
    "lg_read ops (of_nat (Suc k)) l = Inl (Trimmed q)" by auto
  then show ?thesis using True by (simp add: apply_one_def blocked_def)
next
  case False
  have u: "unat (of_nat (Suc k) :: u64) = Suc k"
    using pos_word[OF assms(1)] assms(3) by simp
  have rd: "lg_read ops (of_nat (Suc k)) l = Inr (Some (al_entries a ! k))"
    using read_entry[OF assms(1), of "of_nat (Suc k)"] u False assms(3)
    by (simp add: al_at_def al_tail_def)
  obtain t where t: "begin_write_txn s = Inr t" "tx_ok t" "tx_content t = content s"
    using mem.start_ok assms(2) by (auto simp: replayed_def)
  show ?thesis
  proof (cases "sem (al_entries a ! k) (of_nat (Suc k)) (content s)")
    case (Inl err)
    then obtain t' x' where "app (al_entries a ! k) (of_nat (Suc k)) t x = (Inl err, t', x')"
      using app_err[OF t(2)] t(3) by metis
    then show ?thesis using rd t(1) Inl False by (simp add: apply_one_def blocked_def)
  next
    case (Inr res)
    obtain rv m where res: "res = (rv, m)" by (cases res)
    obtain t' x' where ap: "app (al_entries a ! k) (of_nat (Suc k)) t x = (Inr rv, t', x')"
      "tx_ok t'" "tx_content t' = m"
      using app_ok[OF t(2)] t(3) Inr res by metis
    define w where "w = tx_write (WPut CURSOR_KEY (to_le_bytes (of_nat (Suc (Suc k))))) t'"
    have w: "tx_ok w" "tx_content w = with_cursor (Suc (Suc k)) m"
      using tx_write_content[OF ap(2), of "WPut CURSOR_KEY (to_le_bytes (of_nat (Suc (Suc k))))"] ap(3)
      by (simp_all add: w_def with_cursor_def)
    have pw: "put CURSOR_KEY (to_le_bytes (of_nat (Suc (Suc k)))) t' = (Inr (), w)"
      by (simp add: w_def put_def)
    obtain t2 s' where c: "commit w s = (Inr (), t2, s')" "store_ok s'" "content s' = tx_content w"
      using mem.finish_ok[OF _ w(1), of s] assms(2) by (auto simp: replayed_def)
    have "apply_one ops app l (of_nat (Suc k)) s x = (Inr rv, s', x')"
      using rd t(1) ap(1) pw c(1) by (simp add: apply_one_def Let_def add.commute)
    moreover have "replayed sem a (Suc k) s'"
      using assms(2,3) c(2,3) w(2) Inr res
      by (simp add: replayed_def replay_take_Suc del: One_nat_def)
    ultimately show ?thesis using Inr res c(3) w(2) False by auto
  qed
qed

text \<open>The two loops play forward to their target or stop at the first entry that blocks; in
  between, the store and the cursor move together.\<close>

lemma pos_less:
  assumes "rel l a" "i \<le> length (al_entries a)" "j \<le> length (al_entries a)"
  shows "(of_nat (Suc i) :: u64) < of_nat (Suc j) \<longleftrightarrow> i < j"
  unfolding word_less_nat_alt pos_word[OF assms(1,2)] pos_word[OF assms(1,3)] by simp

lemma sync_loop_spec:
  assumes "rel l a" "replayed sem a n s" "n \<le> N" "N \<le> length (al_entries a)"
  shows "\<exists>r k s' x'. sync_loop ops app l (of_nat (Suc N)) (of_nat (Suc n)) s x = (r, of_nat (Suc k), s', x') \<and>
           n \<le> k \<and> played sem a N r k s'"
  using assms(2,3)
proof (induction "N - n" arbitrary: n s x)
  case 0
  then have "n = N" by simp
  have "sync_loop ops app l (of_nat (Suc N)) (of_nat (Suc n)) s x = (Inr (), of_nat (Suc n), s, x)"
    by (subst sync_loop.simps) (simp add: \<open>n = N\<close>)
  then show ?case
    using 0(2) \<open>n = N\<close> by (intro exI[of _ "Inr ()"] exI[of _ n]) (simp add: played_def del: of_nat_Suc)
next
  case (Suc d)
  then have n: "n < N" "d = N - Suc n" by simp_all
  have lt: "(of_nat (Suc n) :: u64) < of_nat (Suc N)"
    using n assms(4) pos_less[OF assms(1), of n N] by linarith
  note unf = sync_loop.simps[of ops app l "of_nat (Suc N)" "of_nat (Suc n)" s x]
  have "n < length (al_entries a)" using n assms(4) by simp
  from apply_one_spec[OF assms(1) Suc.prems(1) this, of x]
  consider (err) err x' where "apply_one ops app l (of_nat (Suc n)) s x = (Inl err, s, x')" "blocked sem a n s err"
    | (ok) rv s1 x1 where "apply_one ops app l (of_nat (Suc n)) s x = (Inr rv, s1, x1)" "replayed sem a (Suc n) s1"
    by blast
  then show ?case
  proof cases
    case err
    then have "sync_loop ops app l (of_nat (Suc N)) (of_nat (Suc n)) s x = (Inl err, of_nat (Suc n), s, x')"
      using lt unf by (simp del: of_nat_Suc)
    then show ?thesis
      using err(2) n Suc.prems(1)
      by (intro exI[of _ "Inl err"] exI[of _ n]) (simp add: played_def del: of_nat_Suc)
  next
    case ok
    have "sync_loop ops app l (of_nat (Suc N)) (of_nat (Suc n)) s x =
          sync_loop ops app l (of_nat (Suc N)) (of_nat (Suc n) + 1) s1 x1"
      using lt unf ok(1) by (simp del: of_nat_Suc)
    then have "sync_loop ops app l (of_nat (Suc N)) (of_nat (Suc n)) s x =
          sync_loop ops app l (of_nat (Suc N)) (of_nat (Suc (Suc n))) s1 x1"
      by (simp only: of_nat_Suc add.commute)
    moreover obtain r k s' x' where
      "sync_loop ops app l (of_nat (Suc N)) (of_nat (Suc (Suc n))) s1 x1 = (r, of_nat (Suc k), s', x')"
      "Suc n \<le> k" "played sem a N r k s'"
      using Suc.hyps(1)[OF n(2) ok(2), of x1] n(1) by (metis Suc_leI)
    ultimately show ?thesis by (metis Suc_leD)
  qed
qed

lemma propose_loop_spec:
  assumes "rel l a" "replayed sem a n s" "n \<le> N" "Suc N \<le> length (al_entries a)"
  shows "\<exists>r k s' x'. propose_loop ops app l (of_nat (Suc N)) ret (of_nat (Suc n)) s x =
             Some (r, of_nat (Suc k), s', x') \<and> n \<le> k \<and> played sem a (Suc N) r k s' \<and>
           (\<forall>rv. r = Inr rv \<longrightarrow> returned sem a N rv)"
  using assms(2,3)
proof (induction "N - n" arbitrary: n s x ret rule: less_induct)
  case less
  have un: "unat (of_nat (Suc n) :: u64) = Suc n" "unat (of_nat (Suc N) :: u64) = Suc N"
    "unat (of_nat (Suc (Suc N)) :: u64) = Suc (Suc N)"
    using pos_word[OF assms(1), of n] pos_word[OF assms(1), of N] pos_word[OF assms(1,4)]
      less.prems(2) assms(4) by (simp_all del: of_nat_Suc)
  have le: "(of_nat (Suc n) :: u64) \<le> of_nat (Suc N)"
    unfolding word_le_nat_alt un using less.prems(2) by simp
  have eq: "(of_nat (Suc n) :: u64) = of_nat (Suc N) \<longleftrightarrow> n = N"
    using un(1,2) by (metis nat.inject)
  note unf = propose_loop.simps[of ops app l "of_nat (Suc N)" ret "of_nat (Suc n)" s x]
  have "n < length (al_entries a)" using less.prems(2) assms(4) by simp
  from apply_one_spec[OF assms(1) less.prems(1) this, of x]
  consider (err) err x' where "apply_one ops app l (of_nat (Suc n)) s x = (Inl err, s, x')" "blocked sem a n s err"
    | (ok) rv s1 x1 m where "apply_one ops app l (of_nat (Suc n)) s x = (Inr rv, s1, x1)" "replayed sem a (Suc n) s1"
       "sem (al_entries a ! n) (of_nat (Suc n)) (content s) = Inr (rv, m)"
    by blast
  then show ?case
  proof cases
    case err
    then have "propose_loop ops app l (of_nat (Suc N)) ret (of_nat (Suc n)) s x = Some (Inl err, of_nat (Suc n), s, x')"
      using le unf by (simp del: of_nat_Suc)
    then show ?thesis
      using err(2) less.prems
      by (intro exI[of _ "Inl err"] exI[of _ n]) (simp add: played_def del: of_nat_Suc)
  next
    case ok
    define ret' where "ret' = (if n = N then rv else ret)"
    have "propose_loop ops app l (of_nat (Suc N)) ret (of_nat (Suc n)) s x =
          propose_loop ops app l (of_nat (Suc N)) ret' (of_nat (Suc n) + 1) s1 x1"
      using le unf ok(1) eq by (simp add: ret'_def del: of_nat_Suc)
    then have step: "propose_loop ops app l (of_nat (Suc N)) ret (of_nat (Suc n)) s x =
          propose_loop ops app l (of_nat (Suc N)) ret' (of_nat (Suc (Suc n))) s1 x1"
      by (simp only: of_nat_Suc add.commute)
    show ?thesis
    proof (cases "n = N")
      case False
      then have n: "Suc n \<le> N" "N - Suc n < N - n" using less.prems(2) by simp_all
      show ?thesis
        unfolding step using less.hyps[OF n(2) ok(2) n(1), of ret' x1] by (meson Suc_leD)
    next
      case True
      have "\<not> (of_nat (Suc (Suc n)) :: u64) \<le> of_nat (Suc N)"
        unfolding word_le_nat_alt True un by simp
      then have "propose_loop ops app l (of_nat (Suc N)) ret' (of_nat (Suc (Suc n))) s1 x1 =
          Some (Inr rv, of_nat (Suc (Suc n)), s1, x1)"
        by (subst propose_loop.simps) (simp add: ret'_def True del: of_nat_Suc)
      moreover have "returned sem a N rv"
        using less.prems(1) ok(3) True unfolding returned_def replayed_def by blast
      ultimately show ?thesis
        unfolding step using ok(2) True
        by (intro exI[of _ "Inr rv"] exI[of _ "Suc n"]) (simp add: played_def del: of_nat_Suc)
    qed
  qed
qed

text \<open>The two requests.\<close>

lemma handle_propose_spec:
  assumes "engine_inv rel sem be a n" "\<not> al_sealed a" "Suc (al_tail a) < 2 ^ 64"
  shows "\<exists>r be' k. handle_propose ops app en be = Some (r, be') \<and>
           engine_inv rel sem be' (al_push en a) k \<and> n \<le> k \<and>
           played sem (al_push en a) (al_tail a) r k (be_store be') \<and>
           (\<forall>rv. r = Inr rv \<longrightarrow> returned sem (al_push en a) (length (al_entries a)) rv)"
proof -
  have inv: "rel (be_log be) a" "be_cursor be = of_nat (Suc n)" "replayed sem a n (be_store be)"
    using assms(1) by (simp_all add: engine_inv_def)
  from append_open[OF inv(1) assms(2,3)] obtain l' where
    l': "lg_append ops en (be_log be) = Some (Inr (of_nat (al_tail a)), l')" "rel l' (al_push en a)"
    by blast
  have "n \<le> length (al_entries a)" using inv(3) by (simp add: replayed_def)
  from propose_loop_spec[OF l'(2) replayed_push[OF inv(3)] this, of Success "be_app be"]
  obtain r k s' x' where
    "propose_loop ops app l' (of_nat (al_tail a)) Success (be_cursor be) (be_store be) (be_app be) =
       Some (r, of_nat (Suc k), s', x')"
    "n \<le> k" "played sem (al_push en a) (al_tail a) r k s'"
    "\<forall>rv. r = Inr rv \<longrightarrow> returned sem (al_push en a) (length (al_entries a)) rv"
    unfolding inv(2) al_tail_def by auto
  then show ?thesis
    using l' by (intro exI[of _ r] exI[of _ "\<lparr>be_log = l', be_store = s', be_app = x', be_cursor = of_nat (Suc k)\<rparr>"]
      exI[of _ k]) (simp add: handle_propose_def engine_inv_def played_def del: of_nat_Suc)
qed

lemma handle_sync_spec:
  assumes "engine_inv rel sem be a n"
  shows "\<exists>r be' k. handle_sync ops app be = (r, be') \<and> engine_inv rel sem be' a k \<and> n \<le> k \<and>
           played sem a (length (al_entries a)) r k (be_store be') \<and>
           (\<forall>t. r = Inr t \<longrightarrow> t = of_nat (al_tail a)) \<and> be_log be' = be_log be"
proof -
  have inv: "rel (be_log be) a" "be_cursor be = of_nat (Suc n)" "replayed sem a n (be_store be)"
    using assms(1) by (simp_all add: engine_inv_def)
  have "n \<le> length (al_entries a)" using inv(3) by (simp add: replayed_def)
  from sync_loop_spec[OF inv(1,3) this order_refl, of "be_app be"]
  obtain r k s' x' where
    l: "sync_loop ops app (be_log be) (of_nat (al_tail a)) (be_cursor be) (be_store be) (be_app be) =
       (r, of_nat (Suc k), s', x')"
    "n \<le> k" "played sem a (length (al_entries a)) r k s'"
    unfolding inv(2) al_tail_def by auto
  define be' where "be' = be\<lparr>be_store := s', be_app := x', be_cursor := of_nat (Suc k)\<rparr>"
  have be': "engine_inv rel sem be' a k" "be_store be' = s'" "be_log be' = be_log be"
    using inv(1) l(3) by (simp_all add: be'_def engine_inv_def played_def del: of_nat_Suc)
  show ?thesis
  proof (cases r)
    case (Inl err)
    then have "handle_sync ops app be = (Inl err, be')"
      using l(1) check_tail[OF inv(1)] by (simp add: handle_sync_def be'_def del: of_nat_Suc)
    then show ?thesis using be' l(2,3) Inl by (auto simp: played_def)
  next
    case (Inr u)
    then have "handle_sync ops app be = (Inr (of_nat (al_tail a)), be')"
      using l(1) check_tail[OF inv(1)] by (simp add: handle_sync_def be'_def del: of_nat_Suc)
    then show ?thesis using be' l(2,3) Inr by (auto simp: played_def)
  qed
qed

text \<open>A crash in the middle of a loop leaves a replayed store behind, with the cursor that a new
  engine reads.\<close>

lemma apply_some_spec:
  assumes "rel l a" "replayed sem a n s"
  shows "\<exists>k. n \<le> k \<and> replayed sem a k (apply_some ops app l j (of_nat (Suc n)) s x)"
  using assms(2)
proof (induction j arbitrary: n s x)
  case (Suc j)
  show ?case
  proof (cases "n < length (al_entries a)")
    case True
    from apply_one_spec[OF assms(1) Suc.prems True, of x]
    consider (err) err x' where "apply_one ops app l (of_nat (Suc n)) s x = (Inl err, s, x')"
      | (ok) rv s1 x1 where "apply_one ops app l (of_nat (Suc n)) s x = (Inr rv, s1, x1)" "replayed sem a (Suc n) s1"
      by blast
    then show ?thesis
    proof cases
      case ok
      have "apply_some ops app l (Suc j) (of_nat (Suc n)) s x =
          apply_some ops app l j (of_nat (Suc n) + 1) s1 x1"
        using ok(1) by (simp del: of_nat_Suc)
      then have "apply_some ops app l (Suc j) (of_nat (Suc n)) s x =
          apply_some ops app l j (of_nat (Suc (Suc n))) s1 x1"
        by (simp only: of_nat_Suc add.commute)
      with Suc.IH[OF ok(2), of x1] show ?thesis by (metis Suc_leD)
    qed (use Suc.prems in \<open>auto simp del: of_nat_Suc\<close>)
  next
    case False
    then have n: "n = length (al_entries a)" using Suc.prems by (simp add: replayed_def)
    have "\<exists>err x'. apply_one ops app l (of_nat (Suc n)) s x = (Inl err, s, x')"
    proof (cases "Suc n < al_trim a")
      case True
      with read_trimmed[OF assms(1), of "of_nat (Suc n)"] pos_word[OF assms(1), of n] n show ?thesis
        by (auto simp: apply_one_def simp del: of_nat_Suc)
    next
      case False
      with read_beyond[OF assms(1), of "of_nat (Suc n)"] pos_word[OF assms(1), of n] n show ?thesis
        by (auto simp: apply_one_def al_tail_def simp del: of_nat_Suc)
    qed
    then show ?thesis using Suc.prems by (auto simp del: of_nat_Suc)
  qed
qed auto

text \<open>The whole life of a server.\<close>

lemma server_run_spec:
  assumes "engine_inv rel sem be a n" "\<not> al_sealed a" "al_tail a + length (run_appended es) < 2 ^ 64"
  shows "\<exists>be' k. server_run ops app x0 es be = Some (Inr (), be') \<and> n \<le> k \<and>
           engine_inv rel sem be' (a\<lparr>al_entries := al_entries a @ run_appended es\<rparr>) k"
  using assms
proof (induction es arbitrary: be a n)
  case Nil
  then show ?case by auto
next
  case (Cons e es)
  have next_step: ?case
    if "server_run ops app x0 (e # es) be = server_run ops app x0 es be1"
      "engine_inv rel sem be1 a1 k1" "n \<le> k1" "\<not> al_sealed a1" "al_tail a1 + length (run_appended es) < 2 ^ 64"
      "a1\<lparr>al_entries := al_entries a1 @ run_appended es\<rparr> = a\<lparr>al_entries := al_entries a @ run_appended (e # es)\<rparr>"
    for be1 a1 k1
    using Cons.IH[OF that(2,4,5)] that(1,3,6) by (metis order_trans)
  show ?case
  proof (cases e)
    case (Request r)
    show ?thesis
    proof (cases r)
      case (Propose en)
      with handle_propose_spec[OF Cons.prems(1,2), of en] Cons.prems(3) Request obtain q be1 k1 where
        "handle_propose ops app en be = Some (q, be1)" "engine_inv rel sem be1 (al_push en a) k1" "n \<le> k1"
        by auto
      then show ?thesis
        using Request Propose Cons.prems
        by (intro next_step[of be1 "al_push en a" k1]) (simp_all add: al_push_entries)
    next
      case Sync
      obtain q be1 k1 where
        "handle_sync ops app be = (q, be1)" "engine_inv rel sem be1 a k1" "n \<le> k1"
        using handle_sync_spec[OF Cons.prems(1)] by blast
      then show ?thesis
        using Request Sync Cons.prems by (intro next_step[of be1 a k1]) simp_all
    qed
  next
    case (Remote en)
    have inv: "rel (be_log be) a" "be_cursor be = of_nat (Suc n)" "replayed sem a n (be_store be)"
      using Cons.prems(1) by (simp_all add: engine_inv_def)
    from append_open[OF inv(1) Cons.prems(2), of en] Cons.prems(3) Remote obtain l' where
      "lg_append ops en (be_log be) = Some (Inr (of_nat (al_tail a)), l')" "rel l' (al_push en a)"
      by auto
    then show ?thesis
      using Remote Cons.prems inv replayed_push[OF inv(3), of en]
      by (intro next_step[of "be\<lparr>be_log := l'\<rparr>" "al_push en a" n])
        (simp_all add: al_push_entries engine_inv_def)
  next
    case (Crash j)
    have inv: "rel (be_log be) a" "be_cursor be = of_nat (Suc n)" "replayed sem a n (be_store be)"
      using Cons.prems(1) by (simp_all add: engine_inv_def)
    define s' where "s' = apply_some ops app (be_log be) j (be_cursor be) (be_store be) (be_app be)"
    obtain k where k: "n \<le> k" "replayed sem a k s'"
      using apply_some_spec[OF inv(1,3), of j "be_app be"] inv(2) by (auto simp: s'_def simp del: of_nat_Suc)
    define be1 where "be1 = \<lparr>be_log = be_log be, be_store = s', be_app = x0, be_cursor = of_nat (Suc k)\<rparr>"
    have "engine_new (be_log be) s' x0 = Inr be1"
      using read_cursor_replayed[OF k(2)] by (simp add: engine_new_def be1_def)
    then have "server_run ops app x0 (e # es) be = server_run ops app x0 es be1"
      unfolding Crash server_run.simps Let_def s'_def[symmetric] by simp
    moreover have "engine_inv rel sem be1 a k"
      using inv(1) k(2) by (simp add: engine_inv_def be1_def)
    ultimately show ?thesis
      using k(1) Crash Cons.prems by (intro next_step[of be1 a k]) simp_all
  qed
qed

text \<open>A log whose entries all apply: a proposal succeeds with the result of its own entry, and a
  synchronisation reaches the tail.\<close>

lemma propose_healthy:
  assumes "engine_inv rel sem be a n" "\<not> al_sealed a" "Suc (al_tail a) < 2 ^ 64" "al_trim a \<le> Suc n"
    "replay sem 1 (al_entries a) Map.empty = Inr m" "sem en (of_nat (al_tail a)) m = Inr (rv, m')"
  shows "\<exists>be'. handle_propose ops app en be = Some (Inr rv, be') \<and>
           engine_inv rel sem be' (al_push en a) (al_tail a) \<and>
           content (be_store be') = with_cursor (Suc (al_tail a)) m'"
proof -
  from handle_propose_spec[OF assms(1-3), of en] obtain r be' k where
    b: "handle_propose ops app en be = Some (r, be')" "engine_inv rel sem be' (al_push en a) k" "n \<le> k"
      "played sem (al_push en a) (al_tail a) r k (be_store be')"
      "\<forall>rv. r = Inr rv \<longrightarrow> returned sem (al_push en a) (length (al_entries a)) rv"
    by blast
  have full: "replay sem 1 (take (al_tail a) (al_entries (al_push en a))) Map.empty =
      Inr (with_cursor (Suc (al_tail a)) m')"
    using assms(5,6) replay_snoc[of sem 1 "al_entries a" en Map.empty] by (simp add: al_tail_def)
  have "al_tail a \<le> length (al_entries (al_push en a))" by (simp add: al_tail_def)
  from played_healthy[OF b(4,3) this _ full] assms(4) obtain v where
    v: "r = Inr v" "k = al_tail a" "content (be_store be') = with_cursor (Suc (al_tail a)) m'"
    by auto
  with b(5) assms(5,6) have "v = rv"
    by (auto simp: returned_def al_tail_def simp del: of_nat_Suc)
  with v b(1,2) show ?thesis by blast
qed

lemma sync_healthy:
  assumes "engine_inv rel sem be a n" "al_trim a \<le> Suc n" "replay sem 1 (al_entries a) Map.empty = Inr m"
  shows "\<exists>be'. handle_sync ops app be = (Inr (of_nat (al_tail a)), be') \<and>
           engine_inv rel sem be' a (length (al_entries a)) \<and> content (be_store be') = m \<and>
           be_log be' = be_log be"
proof -
  from handle_sync_spec[OF assms(1)] obtain r be' k where
    b: "handle_sync ops app be = (r, be')" "engine_inv rel sem be' a k" "n \<le> k"
      "played sem a (length (al_entries a)) r k (be_store be')" "\<forall>t. r = Inr t \<longrightarrow> t = of_nat (al_tail a)"
      "be_log be' = be_log be"
    by blast
  from played_healthy[OF b(4,3) order_refl assms(2)] assms(3) b(1,2,5,6) show ?thesis by auto
qed

lemma propose_refused:
  assumes "engine_inv rel sem be a n" "\<not> al_sealed a" "Suc (al_tail a) < 2 ^ 64" "al_trim a \<le> Suc n"
    "replay sem 1 (al_entries a) Map.empty = Inr m" "sem en (of_nat (al_tail a)) m = Inl err"
  shows "\<exists>be'. handle_propose ops app en be = Some (Inl err, be') \<and>
           engine_inv rel sem be' (al_push en a) (length (al_entries a)) \<and>
           refused sem (al_push en a) (length (al_entries a)) (be_store be') err"
proof -
  let ?a = "al_push en a" and ?N = "length (al_entries a)"
  from handle_propose_spec[OF assms(1-3), of en] obtain r be' k where
    b: "handle_propose ops app en be = Some (r, be')" "engine_inv rel sem be' ?a k" "n \<le> k"
      "played sem ?a (al_tail a) r k (be_store be')"
    by blast
  have pre: "replay sem 1 (take ?N (al_entries ?a)) Map.empty = Inr m" using assms(5) by simp
  have rep: "replayed sem ?a k (be_store be')" using b(2) by (simp add: engine_inv_def)
  have stop: "replay sem 1 (take (Suc ?N) (al_entries ?a)) Map.empty = Inl err"
    using assms(5,6) replay_snoc[of sem 1 "al_entries a" en Map.empty] by (simp add: al_tail_def)
  have "k \<noteq> Suc ?N" using rep stop by (auto simp: replayed_def)
  with b(4) obtain e where e: "r = Inl e" "k \<le> ?N" "blocked sem ?a k (be_store be') e"
    by (cases r) (auto simp: played_def al_tail_def)
  have "k = ?N"
    using not_blocked[OF rep _ _ _ pre, of e] e(2,3) b(3) assms(4) by fastforce
  moreover have "content (be_store be') = m"
    using rep pre \<open>k = ?N\<close> by (simp add: replayed_def)
  moreover have "al_trim a \<le> Suc ?N" using assms(4) b(3) e(2) by simp
  moreover have "e = err"
    using e(3) calculation assms(6) by (simp add: blocked_def al_tail_def del: of_nat_Suc)
  ultimately show ?thesis
    using b(1,2) e(1) assms(6) by (simp add: refused_def al_tail_def del: of_nat_Suc)
qed

text \<open>An entry that the applicator refuses: the engine never gets past it, and answers every request
  from then on with that error.\<close>

lemma refused_requests:
  assumes "engine_inv rel sem be a n" "refused sem a n (be_store be) err"
  shows "\<not> al_sealed a \<Longrightarrow> Suc (al_tail a) < 2 ^ 64 \<Longrightarrow>
      \<exists>be'. handle_propose ops app en be = Some (Inl err, be') \<and> be_cursor be' = be_cursor be \<and>
        content (be_store be') = content (be_store be)"
    and "\<exists>be'. handle_sync ops app be = (Inl err, be') \<and> be_cursor be' = be_cursor be \<and>
        content (be_store be') = content (be_store be)"
proof -
  have rep: "replayed sem a n (be_store be)" and cur: "be_cursor be = of_nat (Suc n)"
    and n: "n < length (al_entries a)"
    using assms by (simp_all add: engine_inv_def refused_def)
  have same: "refused sem b n s err \<longleftrightarrow> refused sem b n (be_store be) err" if "content s = content (be_store be)" for b s
    using that by (simp add: refused_def)
  show "\<exists>be'. handle_propose ops app en be = Some (Inl err, be') \<and> be_cursor be' = be_cursor be \<and>
        content (be_store be') = content (be_store be)" if "\<not> al_sealed a" "Suc (al_tail a) < 2 ^ 64"
  proof -
    from handle_propose_spec[OF assms(1) that, of en] obtain r be' k where
      b: "handle_propose ops app en be = Some (r, be')" "engine_inv rel sem be' (al_push en a) k" "n \<le> k"
        "played sem (al_push en a) (al_tail a) r k (be_store be')"
      by blast
    then have k: "k = n"
      using refused_stays[OF rep assms(2), of "al_push en a" k "be_store be'" "[en]"] by (simp add: engine_inv_def)
    then have c: "content (be_store be') = content (be_store be)"
      using b(2) replayed_det[OF replayed_push[OF rep]] by (metis engine_inv_def)
    have "r = Inl err"
      using played_refused[of sem "al_push en a" "al_tail a" r n "be_store be'" err] b(4) k n
        same[OF c] refused_push[OF assms(2), of en] by (simp add: al_tail_def)
    then show ?thesis using b(1,2) k c cur by (auto simp: engine_inv_def)
  qed
  from handle_sync_spec[OF assms(1)] obtain r be' k where
    b: "handle_sync ops app be = (r, be')" "engine_inv rel sem be' a k" "n \<le> k"
      "played sem a (length (al_entries a)) r k (be_store be')"
    by blast
  then have k: "k = n"
    using refused_stays[OF rep assms(2), of a k "be_store be'" "[]"] by (simp add: engine_inv_def)
  then have c: "content (be_store be') = content (be_store be)"
    using b(2) replayed_det[OF rep] by (metis engine_inv_def)
  have "r = Inl err"
    using played_refused[of sem a "length (al_entries a)" r n "be_store be'" err] b(4) k n
      same[OF c] assms(2) by simp
  then show "\<exists>be'. handle_sync ops app be = (Inl err, be') \<and> be_cursor be' = be_cursor be \<and>
        content (be_store be') = content (be_store be)"
    using b(1,2) k c cur by (auto simp: engine_inv_def)
qed

lemma refused_forever:
  assumes "engine_inv rel sem be a n" "refused sem a n (be_store be) err" "\<not> al_sealed a"
    "al_tail a + length (run_appended es) < 2 ^ 64"
  shows "\<exists>be'. server_run ops app x0 es be = Some (Inr (), be') \<and>
     engine_inv rel sem be' (a\<lparr>al_entries := al_entries a @ run_appended es\<rparr>) n \<and>
     refused sem (a\<lparr>al_entries := al_entries a @ run_appended es\<rparr>) n (be_store be') err"
proof -
  obtain be' k where b: "server_run ops app x0 es be = Some (Inr (), be')" "n \<le> k"
    "engine_inv rel sem be' (a\<lparr>al_entries := al_entries a @ run_appended es\<rparr>) k"
    using server_run_spec[OF assms(1,3,4)] by blast
  have rep: "replayed sem a n (be_store be)" using assms(1) by (simp add: engine_inv_def)
  have k: "k = n"
    using refused_stays[OF rep assms(2), of "a\<lparr>al_entries := al_entries a @ run_appended es\<rparr>" k
      "be_store be'" "run_appended es"] b(2,3) by (simp add: engine_inv_def)
  have "content (be_store be') = content (be_store be)"
    using b(3) rep by (simp add: engine_inv_def replayed_def k)
  then show ?thesis
    using b(1,3) k refused_extend[OF assms(2), of "run_appended es"] by (auto simp: refused_def)
qed

text \<open>A new engine on a store that holds a replayed prefix starts where the old one stopped.\<close>

lemma new_engine:
  assumes "rel l a" "replayed sem a n s"
  shows "\<exists>be. engine_new l s x = Inr be \<and> engine_inv rel sem be a n \<and> be_log be = l \<and> be_store be = s"
  using assms read_cursor_replayed[OF assms(2)] by (simp add: engine_new_def engine_inv_def)

lemma replayed_fresh: "replayed sem a 0 memory_store_new"
  by (simp add: replayed_def store_ok_def memory_store_new_def bt_ok_empty content_def bt_get_empty)

end

end
