(* ===== verification/Table_Applicator.thy ===== *)
theory Table_Applicator
  imports Table_Schema Base_Engine
begin

text \<open>
  \<open>TableApplicator\<close> (\<open>relos-table/src/applicator.rs\<close>): each command of the log as reads and writes of
  one store transaction. \<open>command_sem\<close> is its specification, a function on the content of the
  store; the applicator refines it, which is the contract \<open>applicator\<close> of the base engine. The
  applicator has no state of its own and passes the one it is given through.
\<close>

section \<open>The applicator\<close>

definition load_schema :: "table_codecs \<Rightarrow> memory_write_tx \<Rightarrow> string \<Rightarrow> table_schema option result" where
  "load_schema c txn table_name =
     and_then (write_get txn (schema_key table_name)) (\<lambda>v.
     case v of
       None \<Rightarrow> Inr None
     | Some bs \<Rightarrow> and_then (decode (schema_codec c) bs) (\<lambda>schema. Inr (Some schema)))"

text \<open>\<open>Iterator::position\<close>.\<close>

fun position :: "('a \<Rightarrow> bool) \<Rightarrow> 'a list \<Rightarrow> nat option" where
  "position P [] = None"
| "position P (x # xs) = (if P x then Some 0 else map_option Suc (position P xs))"

fun extract_pk_cols :: "column_def list \<Rightarrow> table_value list \<Rightarrow> string list \<Rightarrow> table_value list result" where
  "extract_pk_cols cols vals [] = Inr []"
| "extract_pk_cols cols vals (pk_col_name # rest) =
     and_then (ok_or (InvalidOperation (''primary key column '' @ [CHR 0x27] @ pk_col_name @
                        [CHR 0x27] @ '' not found in schema''))
                 (position (\<lambda>col. col_name col = pk_col_name) cols)) (\<lambda>idx.
     if idx \<ge> length vals then
       Inl (InvalidOperation (''row has '' @ decimal (length vals) @ '' values but primary key column '' @
              [CHR 0x27] @ pk_col_name @ [CHR 0x27] @ '' is at index '' @ decimal idx))
     else and_then (extract_pk_cols cols vals rest) (\<lambda>pk. Inr (vals ! idx # pk)))"

definition extract_pk :: "table_schema \<Rightarrow> row \<Rightarrow> table_value list result" where
  "extract_pk schema r = extract_pk_cols (columns schema) (values r) (primary_key schema)"

definition make_response :: "table_codecs \<Rightarrow> table_response \<Rightarrow> return_value result" where
  "make_response c resp = and_then (response_to_bytes c resp) (\<lambda>bs. Inr (Data bs))"

definition table_exists_error :: "string \<Rightarrow> table_response" where
  "table_exists_error t = Error (''table '' @ [CHR 0x27] @ t @ [CHR 0x27] @ '' already exists'')"

definition no_table_error :: "string \<Rightarrow> table_response" where
  "no_table_error t = Error (''table '' @ [CHR 0x27] @ t @ [CHR 0x27] @ '' does not exist'')"

definition row_length_error :: "nat \<Rightarrow> nat \<Rightarrow> table_response" where
  "row_length_error n k = Error (''row has '' @ decimal n @ '' values but schema has '' @ decimal k @ '' columns'')"

definition apply_create_table ::
  "table_codecs \<Rightarrow> table_schema \<Rightarrow> memory_write_tx \<Rightarrow> return_value result \<times> memory_write_tx" where
  "apply_create_table c schema txn =
     (let key = schema_key (schema_name schema) in
      case write_get txn key of
        Inl err \<Rightarrow> (Inl err, txn)
      | Inr (Some _) \<Rightarrow> (make_response c (table_exists_error (schema_name schema)), txn)
      | Inr None \<Rightarrow>
          (case encode (schema_codec c) schema of
             Inl err \<Rightarrow> (Inl err, txn)
           | Inr val \<Rightarrow>
               (case put key val txn of
                  (Inl err, txn') \<Rightarrow> (Inl err, txn')
                | (Inr _, txn') \<Rightarrow> (make_response c Ok, txn'))))"

fun delete_rows :: "(bytes \<times> bytes) list \<Rightarrow> memory_write_tx \<Rightarrow> unit result \<times> memory_write_tx" where
  "delete_rows [] txn = (Inr (), txn)"
| "delete_rows ((key, _) # rest) txn =
     (case delete key txn of
        (Inl err, txn') \<Rightarrow> (Inl err, txn')
      | (Inr _, txn') \<Rightarrow> delete_rows rest txn')"

definition apply_drop_table ::
  "table_codecs \<Rightarrow> string \<Rightarrow> memory_write_tx \<Rightarrow> return_value result \<times> memory_write_tx" where
  "apply_drop_table c t txn =
     (case write_get txn (schema_key t) of
        Inl err \<Rightarrow> (Inl err, txn)
      | Inr None \<Rightarrow> (make_response c (no_table_error t), txn)
      | Inr (Some _) \<Rightarrow>
          (case delete (schema_key t) txn of
             (Inl err, txn1) \<Rightarrow> (Inl err, txn1)
           | (Inr _, txn1) \<Rightarrow>
               (case write_prefix_scan txn1 (row_prefix t) of
                  Inl err \<Rightarrow> (Inl err, txn1)
                | Inr rows \<Rightarrow>
                    (case delete_rows rows txn1 of
                       (Inl err, txn2) \<Rightarrow> (Inl err, txn2)
                     | (Inr _, txn2) \<Rightarrow> (make_response c Ok, txn2)))))"

definition apply_put ::
  "table_codecs \<Rightarrow> string \<Rightarrow> row \<Rightarrow> memory_write_tx \<Rightarrow> return_value result \<times> memory_write_tx" where
  "apply_put c t r txn =
     (case load_schema c txn t of
        Inl err \<Rightarrow> (Inl err, txn)
      | Inr None \<Rightarrow> (make_response c (no_table_error t), txn)
      | Inr (Some schema) \<Rightarrow>
          (if length (values r) \<noteq> length (columns schema) then
             (make_response c (row_length_error (length (values r)) (length (columns schema))), txn)
           else
             (case extract_pk schema r of
                Inl err \<Rightarrow> (Inl err, txn)
              | Inr pk_values \<Rightarrow>
                  (case encode (row_codec c) r of
                     Inl err \<Rightarrow> (Inl err, txn)
                   | Inr val \<Rightarrow>
                       (case put (row_key c t pk_values) val txn of
                          (Inl err, txn') \<Rightarrow> (Inl err, txn')
                        | (Inr _, txn') \<Rightarrow> (make_response c Ok, txn'))))))"

definition apply_delete ::
  "table_codecs \<Rightarrow> string \<Rightarrow> table_value list \<Rightarrow> memory_write_tx \<Rightarrow> return_value result \<times> memory_write_tx" where
  "apply_delete c t key_values txn =
     (case load_schema c txn t of
        Inl err \<Rightarrow> (Inl err, txn)
      | Inr None \<Rightarrow> (make_response c (no_table_error t), txn)
      | Inr (Some _) \<Rightarrow>
          (case delete (row_key c t key_values) txn of
             (Inl err, txn') \<Rightarrow> (Inl err, txn')
           | (Inr _, txn') \<Rightarrow> (make_response c Ok, txn')))"

fun apply_command ::
  "table_codecs \<Rightarrow> table_command \<Rightarrow> memory_write_tx \<Rightarrow> return_value result \<times> memory_write_tx" where
  "apply_command c (CreateTable schema) txn = apply_create_table c schema txn"
| "apply_command c (DropTable t) txn = apply_drop_table c t txn"
| "apply_command c (Put t r) txn = apply_put c t r txn"
| "apply_command c (Delete t key) txn = apply_delete c t key txn"

definition table_apply :: "table_codecs \<Rightarrow> 'x applicator_fn" where
  "table_apply c en pos txn x =
     (case command_from_bytes c (payload en) of
        Inl err \<Rightarrow> (Inl err, txn, x)
      | Inr cmd \<Rightarrow> (case apply_command c cmd txn of (r, txn') \<Rightarrow> (r, txn', x)))"

section \<open>Specification\<close>

text \<open>What each command does to the content of the store. A response is sent with the content it
  leaves.\<close>

type_synonym store_map = "bytes \<rightharpoonup> bytes"

definition respond :: "table_codecs \<Rightarrow> table_response \<Rightarrow> store_map \<Rightarrow> (return_value \<times> store_map) result" where
  "respond c resp m = and_then (make_response c resp) (\<lambda>rv. Inr (rv, m))"

definition schema_of :: "table_codecs \<Rightarrow> store_map \<Rightarrow> string \<Rightarrow> table_schema option result" where
  "schema_of c m t =
     (case m (schema_key t) of
        None \<Rightarrow> Inr None
      | Some bs \<Rightarrow> and_then (decode (schema_codec c) bs) (\<lambda>schema. Inr (Some schema)))"

definition drop_rows :: "string \<Rightarrow> store_map \<Rightarrow> store_map" where
  "drop_rows t m = m |` {k. \<not> prefix (row_prefix t) k}"

fun command_sem :: "table_codecs \<Rightarrow> table_command \<Rightarrow> store_map \<Rightarrow> (return_value \<times> store_map) result" where
  "command_sem c (CreateTable schema) m =
     (if m (schema_key (schema_name schema)) \<noteq> None then respond c (table_exists_error (schema_name schema)) m
      else and_then (encode (schema_codec c) schema) (\<lambda>val.
           respond c Ok (m(schema_key (schema_name schema) \<mapsto> val))))"
| "command_sem c (DropTable t) m =
     (if m (schema_key t) = None then respond c (no_table_error t) m
      else respond c Ok (drop_rows t (m(schema_key t := None))))"
| "command_sem c (Put t r) m =
     and_then (schema_of c m t) (\<lambda>so. case so of
       None \<Rightarrow> respond c (no_table_error t) m
     | Some schema \<Rightarrow>
         if length (values r) \<noteq> length (columns schema)
         then respond c (row_length_error (length (values r)) (length (columns schema))) m
         else and_then (extract_pk schema r) (\<lambda>pk.
              and_then (encode (row_codec c) r) (\<lambda>val. respond c Ok (m(row_key c t pk \<mapsto> val)))))"
| "command_sem c (Delete t key) m =
     and_then (schema_of c m t) (\<lambda>so. case so of
       None \<Rightarrow> respond c (no_table_error t) m
     | Some _ \<Rightarrow> respond c Ok (m(row_key c t key := None)))"

definition table_sem :: "table_codecs \<Rightarrow> app_sem" where
  "table_sem c en pos m = and_then (command_from_bytes c (payload en)) (\<lambda>cmd. command_sem c cmd m)"

section \<open>Refinement\<close>

text \<open>\<open>refines out t res\<close>: the outcome of a transaction step is the one the specification gives.\<close>

definition refines :: "return_value result \<times> memory_write_tx \<Rightarrow> (return_value \<times> store_map) result \<Rightarrow> bool" where
  "refines out res \<longleftrightarrow>
     (case res of
        Inl err \<Rightarrow> fst out = Inl err
      | Inr (rv, m) \<Rightarrow> fst out = Inr rv \<and> tx_ok (snd out) \<and> tx_content (snd out) = m)"

lemma refines_respond:
  "tx_ok t \<Longrightarrow> tx_content t = m \<Longrightarrow> refines (make_response c resp, t) (respond c resp m)"
  by (cases "make_response c resp") (simp_all add: refines_def respond_def)

lemma refines_err [simp]: "refines (Inl err, t) (Inl err)"
  by (simp add: refines_def)

lemma write_get_content [simp]: "write_get t k = Inr (tx_content t k)"
  by (simp add: write_get_def tx_content_def)

lemma load_schema_content: "load_schema c t n = schema_of c (tx_content t) n"
  by (simp add: load_schema_def schema_of_def)

lemma put_content:
  "tx_ok t \<Longrightarrow> \<exists>t'. put k v t = (Inr (), t') \<and> tx_ok t' \<and> tx_content t' = (tx_content t)(k \<mapsto> v)"
  using tx_write_content[of t "WPut k v"] by (cases "put k v t") (simp add: put_def)

lemma delete_content:
  "tx_ok t \<Longrightarrow> \<exists>t'. delete k t = (Inr (), t') \<and> tx_ok t' \<and> tx_content t' = (tx_content t)(k := None)"
  using tx_write_content[of t "WDelete k"] by (cases "delete k t") (simp add: delete_def)

lemma delete_rows_content:
  "tx_ok t \<Longrightarrow> \<exists>t'. delete_rows xs t = (Inr (), t') \<and> tx_ok t' \<and>
     tx_content t' = tx_content t |` (- fst ` set xs)"
proof (induction xs arbitrary: t)
  case Nil
  then show ?case by (simp add: restrict_map_def fun_eq_iff)
next
  case (Cons x xs)
  obtain k v where x: "x = (k, v)" by (cases x)
  obtain t1 where t1: "delete k t = (Inr (), t1)" "tx_ok t1" "tx_content t1 = (tx_content t)(k := None)"
    using delete_content[OF Cons.prems] by blast
  obtain t2 where "delete_rows xs t1 = (Inr (), t2)" "tx_ok t2"
    "tx_content t2 = tx_content t1 |` (- fst ` set xs)"
    using Cons.IH[OF t1(2)] by blast
  then show ?case
    using x t1 by (auto simp: restrict_map_def fun_eq_iff)
qed

lemma scan_delete_content:
  assumes "tx_ok t"
  shows "\<exists>xs t'. write_prefix_scan t (row_prefix n) = Inr xs \<and> delete_rows xs t = (Inr (), t') \<and>
    tx_ok t' \<and> tx_content t' = drop_rows n (tx_content t)"
proof -
  obtain xs where xs: "write_prefix_scan t (row_prefix n) = Inr xs"
    "map_of xs = tx_content t |` {k. prefix (row_prefix n) k}"
    using scan_prefix_spec[OF assms] by blast
  obtain t' where t': "delete_rows xs t = (Inr (), t')" "tx_ok t'"
    "tx_content t' = tx_content t |` (- fst ` set xs)"
    using delete_rows_content[OF assms] by blast
  have "fst ` set xs = dom (tx_content t) \<inter> {k. prefix (row_prefix n) k}"
    using arg_cong[OF xs(2), of dom] by (simp add: dom_map_of_conv_image_fst)
  then have "tx_content t |` (- fst ` set xs) = drop_rows n (tx_content t)"
    by (auto simp: drop_rows_def restrict_map_def fun_eq_iff domIff)
  with xs(1) t' show ?thesis by auto
qed

lemma apply_command_refines:
  assumes "tx_ok t"
  shows "refines (apply_command c cmd t) (command_sem c cmd (tx_content t))"
proof (cases cmd)
  case (CreateTable schema)
  show ?thesis
  proof (cases "tx_content t (schema_key (schema_name schema))")
    case None
    show ?thesis
    proof (cases "encode (schema_codec c) schema")
      case (Inr val)
      with put_content[OF assms, of "schema_key (schema_name schema)" val] obtain t' where
        "put (schema_key (schema_name schema)) val t = (Inr (), t')" "tx_ok t'"
        "tx_content t' = (tx_content t)(schema_key (schema_name schema) \<mapsto> val)" by blast
      then show ?thesis
        using CreateTable None Inr by (simp add: apply_create_table_def refines_respond)
    qed (use CreateTable None in \<open>simp add: apply_create_table_def\<close>)
  qed (use CreateTable assms in \<open>simp add: apply_create_table_def refines_respond\<close>)
next
  case (DropTable n)
  show ?thesis
  proof (cases "tx_content t (schema_key n)")
    case None
    then show ?thesis using DropTable assms by (simp add: apply_drop_table_def refines_respond)
  next
    case (Some bs)
    obtain t1 where t1: "delete (schema_key n) t = (Inr (), t1)" "tx_ok t1"
      "tx_content t1 = (tx_content t)(schema_key n := None)"
      using delete_content[OF assms] by blast
    with scan_delete_content[OF t1(2), of n] show ?thesis
      using DropTable Some by (auto simp: apply_drop_table_def intro!: refines_respond)
  qed
next
  case (Put n r)
  show ?thesis
  proof (cases "schema_of c (tx_content t) n")
    case (Inr so)
    show ?thesis
    proof (cases so)
      case None
      then show ?thesis using Put Inr assms by (simp add: apply_put_def load_schema_content refines_respond)
    next
      case (Some schema)
      show ?thesis
      proof (cases "extract_pk schema r")
        case (Inl err)
        then show ?thesis
          using Put Inr Some assms by (simp add: apply_put_def load_schema_content refines_respond)
      next
        case pk: (Inr pk)
        show ?thesis
        proof (cases "encode (row_codec c) r")
          case (Inl err)
          then show ?thesis
            using Put Inr Some pk assms by (simp add: apply_put_def load_schema_content refines_respond)
        next
          case val: (Inr val)
          from put_content[OF assms, of "row_key c n pk" val] show ?thesis
            using Put Inr Some pk val assms
            by (auto simp: apply_put_def load_schema_content intro!: refines_respond)
        qed
      qed
    qed
  qed (use Put in \<open>simp add: apply_put_def load_schema_content\<close>)
next
  case (Delete n key)
  show ?thesis
  proof (cases "schema_of c (tx_content t) n")
    case (Inr so)
    from delete_content[OF assms, of "row_key c n key"] show ?thesis
      using Delete Inr assms
      by (cases so) (auto simp: apply_delete_def load_schema_content intro!: refines_respond)
  qed (use Delete in \<open>simp add: apply_delete_def load_schema_content\<close>)
qed

interpretation table: applicator "table_apply c" "table_sem c"
proof unfold_locales
  show "meets (table_apply c en pos t x) (table_sem c en pos (tx_content t))" if "tx_ok t" for t en pos x
  proof (cases "command_from_bytes c (payload en)")
    case (Inr cmd)
    with apply_command_refines[OF that, of c cmd] show ?thesis
      by (cases "apply_command c cmd t")
        (simp add: table_apply_def table_sem_def refines_def meets_def split: sum.splits prod.splits)
  qed (simp add: table_apply_def table_sem_def)
qed

end
