(* ===== verification/Table_Spec.thy ===== *)
theory Table_Spec
  imports Table_Applicator
begin

text \<open>
  What the table layer promises, without keys and bytes: a database is a map from table names to a
  schema and a map from primary keys to rows, and a command is answered and takes effect on it as
  \<open>db_apply\<close> says. \<open>db_rel\<close> relates it to the content of a store, and \<open>command_refines\<close> shows that the
  applicator implements it. Table names must not contain a slash: the key layout does not
  separate the rows of \<open>a\<close> from those of \<open>a/b\<close>.
\<close>

section \<open>The abstract database\<close>

record db_table =
  db_schema :: table_schema
  db_rows :: "table_value list \<rightharpoonup> row"

type_synonym database = "string \<rightharpoonup> db_table"

fun command_table :: "table_command \<Rightarrow> string" where
  "command_table (CreateTable schema) = schema_name schema"
| "command_table (DropTable t) = t"
| "command_table (Put t r) = t"
| "command_table (Delete t key) = t"

text \<open>The left result is a command that the applicator refuses: the row does not determine its
  primary key.\<close>

fun db_apply :: "table_command \<Rightarrow> database \<Rightarrow> (table_response \<times> database) result" where
  "db_apply (CreateTable schema) D =
     (if D (schema_name schema) \<noteq> None then Inr (table_exists_error (schema_name schema), D)
      else Inr (Ok, D(schema_name schema \<mapsto> \<lparr>db_schema = schema, db_rows = Map.empty\<rparr>)))"
| "db_apply (DropTable t) D =
     (if D t = None then Inr (no_table_error t, D) else Inr (Ok, D(t := None)))"
| "db_apply (Put t r) D =
     (case D t of
        None \<Rightarrow> Inr (no_table_error t, D)
      | Some T \<Rightarrow>
          if length (values r) \<noteq> length (columns (db_schema T))
          then Inr (row_length_error (length (values r)) (length (columns (db_schema T))), D)
          else and_then (extract_pk (db_schema T) r) (\<lambda>pk.
               Inr (Ok, D(t \<mapsto> T\<lparr>db_rows := (db_rows T)(pk \<mapsto> r)\<rparr>))))"
| "db_apply (Delete t key) D =
     (case D t of
        None \<Rightarrow> Inr (no_table_error t, D)
      | Some T \<Rightarrow> Inr (Ok, D(t \<mapsto> T\<lparr>db_rows := (db_rows T)(key := None)\<rparr>)))"

definition db_row :: "database \<Rightarrow> string \<Rightarrow> table_value list \<Rightarrow> row option" where
  "db_row D t key = (case D t of None \<Rightarrow> None | Some T \<Rightarrow> db_rows T key)"

section \<open>Representation\<close>

definition stored :: "'a codec \<Rightarrow> bytes option \<Rightarrow> 'a option \<Rightarrow> bool" where
  "stored c v x \<longleftrightarrow> (case x of None \<Rightarrow> v = None | Some y \<Rightarrow> \<exists>bs. v = Some bs \<and> decode c bs = Inr y)"

definition data_prefix :: bytes where
  "data_prefix = into_bytes ''data/''"

definition db_rel :: "table_codecs \<Rightarrow> store_map \<Rightarrow> database \<Rightarrow> bool" where
  "db_rel c m D \<longleftrightarrow>
     (\<forall>t. stored (schema_codec c) (m (schema_key t)) (map_option db_schema (D t))) \<and>
     (\<forall>t. D t \<noteq> None \<longrightarrow> plain_name t) \<and>
     (\<forall>t key. plain_name t \<longrightarrow> stored (row_codec c) (m (row_key c t key)) (db_row D t key)) \<and>
     (\<forall>k. prefix data_prefix k \<and> m k \<noteq> None \<longrightarrow> (\<exists>t key. plain_name t \<and> k = row_key c t key))"

lemma stored_simps [simp]:
  "stored c None x \<longleftrightarrow> x = None" "stored c v None \<longleftrightarrow> v = None"
  "stored c (Some bs) (Some y) \<longleftrightarrow> decode c bs = Inr y"
  by (cases x; simp add: stored_def) (simp_all add: stored_def)

lemma db_relD:
  assumes "db_rel c m D"
  shows "stored (schema_codec c) (m (schema_key t)) (map_option db_schema (D t))"
    "D t \<noteq> None \<Longrightarrow> plain_name t"
    "plain_name t \<Longrightarrow> stored (row_codec c) (m (row_key c t key)) (db_row D t key)"
    "prefix data_prefix k \<Longrightarrow> m k \<noteq> None \<Longrightarrow> \<exists>t key. plain_name t \<and> k = row_key c t key"
  using assms unfolding db_rel_def by blast+

lemma prefix_data_row [simp]: "prefix data_prefix (row_prefix t)" "prefix data_prefix (row_key c t key)"
  unfolding data_prefix_def row_prefix_def row_key_def prefix_into_bytes by simp_all

lemma not_data_schema [simp]: "\<not> prefix data_prefix (schema_key t)"
  unfolding data_prefix_def schema_key_def prefix_into_bytes by simp

lemma CURSOR_KEY_apart [simp]:
  "\<not> prefix data_prefix CURSOR_KEY" "schema_key t \<noteq> CURSOR_KEY" "row_key c t key \<noteq> CURSOR_KEY"
proof -
  show d: "\<not> prefix data_prefix CURSOR_KEY"
    unfolding data_prefix_def CURSOR_KEY_def prefix_into_bytes by simp
  show "schema_key t \<noteq> CURSOR_KEY"
    unfolding schema_key_def CURSOR_KEY_def into_bytes_inject by simp
  show "row_key c t key \<noteq> CURSOR_KEY"
    using d prefix_data_row(2)[of c t key] by metis
qed

lemma schema_of_rel:
  assumes "db_rel c m D"
  shows "schema_of c m t = Inr (map_option db_schema (D t))"
  using db_relD(1)[OF assms, of t] by (cases "D t") (auto simp: schema_of_def stored_def)

text \<open>The bookkeeping of the engine is invisible to the tables.\<close>

lemma db_rel_cursor: "db_rel c m D \<Longrightarrow> db_rel c (with_cursor p m) D"
  unfolding db_rel_def with_cursor_def by (auto simp: fun_upd_def)

lemma db_rel_empty: "db_rel c Map.empty Map.empty"
  by (simp add: db_rel_def db_row_def)

section \<open>The applicator implements the database\<close>

lemma db_row_upd:
  "db_row (D(t \<mapsto> T)) u key = (if u = t then db_rows T key else db_row D u key)"
  "db_row (D(t := None)) u key = (if u = t then None else db_row D u key)"
  by (simp_all add: db_row_def)

lemma create_rel:
  assumes "db_rel c m D" "D (schema_name s) = None" "plain_name (schema_name s)"
    "decode (schema_codec c) bs = Inr s"
  shows "db_rel c (m(schema_key (schema_name s) \<mapsto> bs)) (D(schema_name s \<mapsto> \<lparr>db_schema = s, db_rows = Map.empty\<rparr>))"
proof -
  have "stored (row_codec c) (m (row_key c t key))
      (db_row (D(schema_name s \<mapsto> \<lparr>db_schema = s, db_rows = Map.empty\<rparr>)) t key)" if "plain_name t" for t key
    using db_relD(3)[OF assms(1) that, of key] assms(2) by (auto simp: db_row_upd db_row_def)
  then show ?thesis
    using assms db_relD[OF assms(1)] unfolding db_rel_def by (auto simp: fun_upd_def)
qed

lemma drop_rows_sel:
  "drop_rows t m (schema_key u) = m (schema_key u)"
  "plain_name t \<Longrightarrow> plain_name u \<Longrightarrow> drop_rows t m (row_key c u key) = (if u = t then None else m (row_key c u key))"
  "drop_rows t m k \<noteq> None \<Longrightarrow> m k \<noteq> None"
  by (auto simp: drop_rows_def restrict_map_def row_prefix_plain split: if_splits)

lemma drop_rel:
  assumes "db_rel c m D" "plain_name t"
  shows "db_rel c (drop_rows t (m(schema_key t := None))) (D(t := None))"
proof -
  have 1: "stored (schema_codec c) (drop_rows t (m(schema_key t := None)) (schema_key u))
      (map_option db_schema ((D(t := None)) u))" for u
    using db_relD(1)[OF assms(1), of u] by (simp add: drop_rows_sel)
  have 2: "stored (row_codec c) (drop_rows t (m(schema_key t := None)) (row_key c u key))
      (db_row (D(t := None)) u key)" if "plain_name u" for u key
    using db_relD(3)[OF assms(1) that, of key] assms(2) that by (simp add: drop_rows_sel db_row_upd)
  have 3: "\<exists>u key. plain_name u \<and> k = row_key c u key"
    if "prefix data_prefix k" "drop_rows t (m(schema_key t := None)) k \<noteq> None" for k
    using db_relD(4)[OF assms(1) that(1)] drop_rows_sel(3)[OF that(2)] by (auto split: if_splits)
  show ?thesis
    unfolding db_rel_def using 1 2 3 db_relD(2)[OF assms(1)] by (simp split: if_splits)
qed

lemma row_rel:
  assumes "codecs_ok c" "db_rel c m D" "D t = Some T" "stored (row_codec c) v x"
  shows "db_rel c (m(row_key c t key := v)) (D(t \<mapsto> T\<lparr>db_rows := (db_rows T)(key := x)\<rparr>))"
proof -
  have t: "plain_name t" using db_relD(2)[OF assms(2)] assms(3) by simp
  let ?m = "m(row_key c t key := v)" and ?D = "D(t \<mapsto> T\<lparr>db_rows := (db_rows T)(key := x)\<rparr>)"
  have 1: "stored (schema_codec c) (?m (schema_key u)) (map_option db_schema (?D u))" for u
    using db_relD(1)[OF assms(2), of u] assms(3) by auto
  have 2: "stored (row_codec c) (?m (row_key c u k)) (db_row ?D u k)" if "plain_name u" for u k
  proof (cases "u = t \<and> k = key")
    case True
    then show ?thesis using assms(4) by (simp add: db_row_upd)
  next
    case False
    then have "row_key c u k \<noteq> row_key c t key"
      using row_key_inject[OF assms(1) that t] by blast
    then show ?thesis
      using False db_relD(3)[OF assms(2) that, of k] assms(3) by (auto simp: db_row_upd db_row_def)
  qed
  have 3: "\<exists>u key. plain_name u \<and> k = row_key c u key" if "prefix data_prefix k" "?m k \<noteq> None" for k
    using db_relD(4)[OF assms(2) that(1)] that(2) t by (auto split: if_splits)
  show ?thesis
    unfolding db_rel_def using 1 2 3 db_relD(2)[OF assms(2)] t by (simp split: if_splits)
qed

definition implements :: "table_codecs \<Rightarrow> (return_value \<times> store_map) result \<Rightarrow> (table_response \<times> database) result \<Rightarrow> bool" where
  "implements c res spec \<longleftrightarrow>
     (case spec of
        Inl err \<Rightarrow> res = Inl err
      | Inr (resp, D') \<Rightarrow> \<exists>bs m'. res = Inr (Data bs, m') \<and> response_from_bytes c bs = Inr resp \<and> db_rel c m' D')"

lemma respond_implements:
  assumes "codecs_ok c" "db_rel c m D"
  shows "implements c (respond c resp m) (Inr (resp, D))"
proof -
  have ok: "codec_ok (response_codec c)" using assms(1) by (simp add: codecs_ok_def)
  obtain bs where "encode (response_codec c) resp = Inr bs" using encode_total[OF ok, of resp] ..
  then show ?thesis
    using decode_encode[OF ok] assms(2)
    by (auto simp: implements_def respond_def make_response_def response_to_bytes_def response_from_bytes_def)
qed

lemma command_refines:
  assumes ok: "codecs_ok c" and rel: "db_rel c m D" and plain: "plain_name (command_table cmd)"
  shows "implements c (command_sem c cmd m) (db_apply cmd D)"
proof (cases cmd)
  case (CreateTable s)
  have "m (schema_key (schema_name s)) = None \<longleftrightarrow> D (schema_name s) = None"
    using db_relD(1)[OF rel, of "schema_name s"] by (cases "D (schema_name s)") (auto simp: stored_def)
  moreover have sok: "codec_ok (schema_codec c)" using ok by (simp add: codecs_ok_def)
  moreover obtain bs where bs: "encode (schema_codec c) s = Inr bs" using encode_total[OF sok, of s] ..
  ultimately show ?thesis
    using CreateTable plain respond_implements[OF ok] rel create_rel[OF rel _ _ decode_encode[OF sok bs]]
    by simp
next
  case (DropTable t)
  have "m (schema_key t) = None \<longleftrightarrow> D t = None"
    using db_relD(1)[OF rel, of t] by (cases "D t") (auto simp: stored_def)
  then show ?thesis
    using DropTable plain respond_implements[OF ok] rel drop_rel[OF rel] by simp
next
  case (Put t r)
  have rok: "codec_ok (row_codec c)" using ok by (simp add: codecs_ok_def)
  obtain bs where bs: "encode (row_codec c) r = Inr bs" using encode_total[OF rok, of r] ..
  show ?thesis
  proof (cases "D t")
    case None
    then show ?thesis using Put respond_implements[OF ok rel] by (simp add: schema_of_rel[OF rel])
  next
    case (Some T)
    show ?thesis
    proof (cases "extract_pk (db_schema T) r")
      case (Inl err)
      then show ?thesis
        using Put Some respond_implements[OF ok rel] by (simp add: schema_of_rel[OF rel] implements_def)
    next
      case (Inr pk)
      have "db_rel c (m(row_key c t pk \<mapsto> bs)) (D(t \<mapsto> T\<lparr>db_rows := (db_rows T)(pk \<mapsto> r)\<rparr>))"
        using row_rel[OF ok rel Some, of "Some bs" "Some r" pk] decode_encode[OF rok bs] by simp
      then show ?thesis
        using Put Some Inr bs respond_implements[OF ok] rel by (simp add: schema_of_rel[OF rel])
    qed
  qed
next
  case (Delete t key)
  show ?thesis
  proof (cases "D t")
    case None
    then show ?thesis using Delete respond_implements[OF ok rel] by (simp add: schema_of_rel[OF rel])
  next
    case (Some T)
    have "db_rel c (m(row_key c t key := None)) (D(t \<mapsto> T\<lparr>db_rows := (db_rows T)(key := None)\<rparr>))"
      using row_rel[OF ok rel Some, of None None key] by simp
    then show ?thesis
      using Delete Some respond_implements[OF ok] by (simp add: schema_of_rel[OF rel])
  qed
qed

end
