(* ===== verification/Delos_Table.thy ===== *)
theory Delos_Table
  imports Table_Spec
begin

text \<open>
  \<open>DelosTable\<close> (\<open>relos-table/src/table.rs\<close>), the client interface: writes are proposed to the engine as
  commands and the response is checked, reads synchronise the engine and then read the local
  store. The engine is a record of operations on a state \<open>'s\<close>, and \<open>store_of\<close> gives the local store
  inside it, which the table and the engine share.
\<close>

section \<open>Operations\<close>

definition dt_encode_primary_key :: "table_codecs \<Rightarrow> table_value list \<Rightarrow> string" where
  "dt_encode_primary_key c vs = join_with [CHR 0x00] (map (\<lambda>v. hex_encode c (value_bytes c v)) vs)"

definition dt_row_key :: "table_codecs \<Rightarrow> string \<Rightarrow> table_value list \<Rightarrow> bytes" where
  "dt_row_key c table_name pk_values =
     into_bytes (''data/'' @ table_name @ ''/'' @ dt_encode_primary_key c pk_values)"

fun check_response :: "table_response \<Rightarrow> unit result" where
  "check_response Ok = Inr ()"
| "check_response (Error msg) = Inl (InvalidOperation msg)"

definition propose_and_check ::
  "table_codecs \<Rightarrow> 's engine_ops \<Rightarrow> table_command \<Rightarrow> 's \<Rightarrow> (unit result \<times> 's) option" where
  "propose_and_check c engine cmd s =
     (case command_to_bytes c cmd of
        Inl err \<Rightarrow> Some (Inl err, s)
      | Inr pl \<Rightarrow>
          (case eng_propose engine (entry_new pl) s of
             None \<Rightarrow> None
           | Some (Inl err, s') \<Rightarrow> Some (Inl err, s')
           | Some (Inr (Data bs), s') \<Rightarrow> Some (and_then (response_from_bytes c bs) check_response, s')
           | Some (Inr Success, s') \<Rightarrow> Some (Inr (), s')))"

definition dt_create_table ::
  "table_codecs \<Rightarrow> 's engine_ops \<Rightarrow> table_schema \<Rightarrow> 's \<Rightarrow> (unit result \<times> 's) option" where
  "dt_create_table c engine schema = propose_and_check c engine (CreateTable schema)"

definition dt_drop_table ::
  "table_codecs \<Rightarrow> 's engine_ops \<Rightarrow> string \<Rightarrow> 's \<Rightarrow> (unit result \<times> 's) option" where
  "dt_drop_table c engine t = propose_and_check c engine (DropTable t)"

definition dt_put ::
  "table_codecs \<Rightarrow> 's engine_ops \<Rightarrow> string \<Rightarrow> row \<Rightarrow> 's \<Rightarrow> (unit result \<times> 's) option" where
  "dt_put c engine t r = propose_and_check c engine (Put t r)"

definition dt_delete ::
  "table_codecs \<Rightarrow> 's engine_ops \<Rightarrow> string \<Rightarrow> table_value list \<Rightarrow> 's \<Rightarrow> (unit result \<times> 's) option" where
  "dt_delete c engine t key = propose_and_check c engine (Delete t key)"

definition read_row :: "table_codecs \<Rightarrow> memory_store \<Rightarrow> string \<Rightarrow> table_value list \<Rightarrow> row option result" where
  "read_row c store t key =
     and_then (begin_read_txn store) (\<lambda>txn.
     and_then (read_get txn (dt_row_key c t key)) (\<lambda>v.
     case v of
       None \<Rightarrow> Inr None
     | Some bs \<Rightarrow> and_then (decode (row_codec c) bs) (\<lambda>r. Inr (Some r))))"

definition dt_get ::
  "table_codecs \<Rightarrow> 's engine_ops \<Rightarrow> ('s \<Rightarrow> memory_store) \<Rightarrow> string \<Rightarrow> table_value list \<Rightarrow> 's \<Rightarrow>
   (row option result \<times> 's) option" where
  "dt_get c engine store_of t key s =
     (case eng_sync engine s of
        None \<Rightarrow> None
      | Some (Inl err, s') \<Rightarrow> Some (Inl err, s')
      | Some (Inr _, s') \<Rightarrow> Some (read_row c (store_of s') t key, s'))"

definition read_rows :: "table_codecs \<Rightarrow> memory_store \<Rightarrow> string \<Rightarrow> row list result" where
  "read_rows c store t =
     and_then (begin_read_txn store) (\<lambda>txn.
     and_then (read_prefix_scan txn (into_bytes (''data/'' @ t @ ''/''))) (\<lambda>entries.
     collect (map (\<lambda>(key, val). decode (row_codec c) val) entries)))"

definition dt_scan ::
  "table_codecs \<Rightarrow> 's engine_ops \<Rightarrow> ('s \<Rightarrow> memory_store) \<Rightarrow> string \<Rightarrow> 's \<Rightarrow> (row list result \<times> 's) option" where
  "dt_scan c engine store_of t s =
     (case eng_sync engine s of
        None \<Rightarrow> None
      | Some (Inl err, s') \<Rightarrow> Some (Inl err, s')
      | Some (Inr _, s') \<Rightarrow> Some (read_rows c (store_of s') t, s'))"

section \<open>Reading a store that represents a database\<close>

lemma dt_row_key_eq [simp]: "dt_row_key c t key = row_key c t key"
  by (simp add: dt_row_key_def row_key_def dt_encode_primary_key_def encode_primary_key_def)

lemma read_row_rel:
  assumes "store_ok s" "db_rel c (content s) D" "plain_name t"
  shows "read_row c s t key = Inr (db_row D t key)"
  using db_relD(3)[OF assms(2,3), of key] assms(1)
  by (cases "db_row D t key")
    (auto simp: read_row_def begin_read_txn_def store_ok_def read_get_def content_def stored_def)

text \<open>The rows of a table are the entries under its prefix, one per key.\<close>

lemma row_key_cancel: "codecs_ok c \<Longrightarrow> row_key c t k = row_key c t k' \<longleftrightarrow> k = k'"
  by (auto simp: row_key_split dest: encode_primary_key_inject)

lemma rows_under_prefix:
  assumes "db_rel c (content s) D" "plain_name t" "bt_ok (data s)"
    "e \<in> set (filter (\<lambda>e. prefix (row_prefix t) (fst e)) (data s))"
  shows "\<exists>key r. fst e = row_key c t key \<and> decode (row_codec c) (snd e) = Inr r \<and> db_row D t key = Some r"
proof -
  have e: "content s (fst e) = Some (snd e)" "prefix (row_prefix t) (fst e)"
    using assms(4) bt.in_entries_iff[OF assms(3), of "fst e" "snd e"] by (auto simp: content_def)
  moreover have "prefix data_prefix (fst e)"
    using e(2) prefix_data_row(1)[of t] prefix_order.trans by blast
  ultimately obtain u key where u: "plain_name u" "fst e = row_key c u key"
    using db_relD(4)[OF assms(1), of "fst e"] by auto
  with e(2) row_prefix_plain[OF assms(2)] have "u = t" by simp
  with u e(1) db_relD(3)[OF assms(1,2), of key] show ?thesis
    by (auto simp: stored_def split: option.splits)
qed

lemma read_rows_rel:
  assumes "codecs_ok c" "store_ok s" "db_rel c (content s) D" "plain_name t"
  shows "\<exists>keys. read_rows c s t = Inr (map (\<lambda>k. the (db_row D t k)) keys) \<and> distinct keys \<and>
           set keys = {k. db_row D t k \<noteq> None}"
proof -
  define es where "es = filter (\<lambda>e. prefix (row_prefix t) (fst e)) (data s)"
  have ok: "bt_ok (data s)" using assms(2) by (simp add: store_ok_def)
  have "\<forall>e \<in> set es. \<exists>key. fst e = row_key c t key \<and>
      decode (row_codec c) (snd e) = Inr (the (db_row D t key)) \<and> db_row D t key \<noteq> None"
    using rows_under_prefix[OF assms(3,4) ok] unfolding es_def by fastforce
  then obtain kf where kf: "fst e = row_key c t (kf e)" "db_row D t (kf e) \<noteq> None"
    "decode (row_codec c) (snd e) = Inr (the (db_row D t (kf e)))" if "e \<in> set es" for e
    by metis
  have "read_rows c s t = collect (map (\<lambda>(key, val). decode (row_codec c) val) es)"
    using assms(2) scan_prefix_filter[OF ok]
    by (simp add: read_rows_def begin_read_txn_def store_ok_def read_prefix_scan_def es_def row_prefix_def)
  also have "map (\<lambda>(key, val). decode (row_codec c) val) es = map (\<lambda>e. Inr (the (db_row D t (kf e)))) es"
    using kf(3) by (intro map_cong) (auto split: prod.splits)
  finally have "read_rows c s t = Inr (map (\<lambda>k. the (db_row D t k)) (map kf es))"
    by (simp add: comp_def)
  moreover have "distinct (map kf es)"
  proof -
    have "distinct (map fst es)"
      using bt.entries_distinct[OF bt_ok_filter[OF ok]] unfolding es_def by simp
    moreover have "map fst es = map (row_key c t) (map kf es)"
      using kf(1) by simp
    ultimately show ?thesis by (metis distinct_map)
  qed
  moreover have "k \<in> set (map kf es)" if k: "db_row D t k = Some r" for k r
  proof -
    obtain bs where "content s (row_key c t k) = Some bs"
      using db_relD(3)[OF assms(3,4), of k] k by (auto simp: stored_def)
    then have "(row_key c t k, bs) \<in> set es"
      using bt.in_entries_iff[OF ok] by (simp add: content_def es_def)
    with kf(1)[of "(row_key c t k, bs)"] row_key_cancel[OF assms(1)] show ?thesis by force
  qed
  ultimately show ?thesis using kf(2) by (intro exI[of _ "map kf es"]) auto
qed

end
