(* ===== verification/View_Tracking.thy ===== *)
theory View_Tracking
  imports Base_Engine
begin

text \<open>
  The view-tracking layer (\<open>relos-engine/src/view_tracking.rs\<close>). Its engine puts a header with the
  server's identifier and its entry of the view map into every proposal; its applicator records, for
  each entry that carries the header, the position of that entry as the view of the server that
  proposed it. The map is shared between the two. The applicator only tries the lock of the map and
  skips the update when another task holds it: \<open>busy pos\<close> says whether that happens at \<open>pos\<close>.
\<close>

section \<open>State\<close>

definition VIEW_TRACKING_HEADER :: string where
  "VIEW_TRACKING_HEADER = ''view_tracking''"

record view_tracking_metadata =
  vt_server_id :: ServerId
  vt_cursor :: LogPos

type_synonym view_map = "(ServerId, LogPos) btree"

record view_state =
  views :: view_map

section \<open>Engine\<close>

definition trim_prefix :: "view_map \<Rightarrow> LogPos option" where
  "trim_prefix vs = (case map snd vs of [] \<Rightarrow> None | p # ps \<Rightarrow> Some (fold min ps p))"

definition view_propose ::
  "view_tracking_metadata codec \<Rightarrow> ('s \<Rightarrow> view_map) \<Rightarrow> ServerId \<Rightarrow> 's engine_ops \<Rightarrow> entry \<Rightarrow> 's \<Rightarrow>
   (return_value result \<times> 's) option" where
  "view_propose vc views_of server_id inner en s =
     (let cursor = (case bt_get (views_of s) server_id of None \<Rightarrow> 0 | Some p \<Rightarrow> p);
          metadata = \<lparr>vt_server_id = server_id, vt_cursor = cursor\<rparr>
      in case encode vc metadata of
           Inl err \<Rightarrow> Some (Inl err, s)
         | Inr header_bytes \<Rightarrow>
             eng_propose inner (with_header en VIEW_TRACKING_HEADER header_bytes) s)"

definition view_sync :: "'s engine_ops \<Rightarrow> 's \<Rightarrow> (LogPos result \<times> 's) option" where
  "view_sync inner s = eng_sync inner s"

definition view_ops ::
  "view_tracking_metadata codec \<Rightarrow> ('s \<Rightarrow> view_map) \<Rightarrow> ServerId \<Rightarrow> 's engine_ops \<Rightarrow> 's engine_ops" where
  "view_ops vc views_of server_id inner =
     \<lparr>eng_propose = view_propose vc views_of server_id inner, eng_sync = view_sync inner\<rparr>"

section \<open>Applicator\<close>

definition record_view :: "bool \<Rightarrow> ServerId \<Rightarrow> LogPos \<Rightarrow> 'z view_state_scheme \<Rightarrow> 'z view_state_scheme" where
  "record_view busy server_id pos x =
     (if busy then x else x\<lparr>views := bt_insert server_id pos (views x)\<rparr>)"

definition view_apply ::
  "view_tracking_metadata codec \<Rightarrow> (LogPos \<Rightarrow> bool) \<Rightarrow> 'z view_state_scheme applicator_fn \<Rightarrow>
   'z view_state_scheme applicator_fn" where
  "view_apply vc busy inner en pos txn x =
     (case get_header en VIEW_TRACKING_HEADER of
        None \<Rightarrow> inner en pos txn x
      | Some header_bytes \<Rightarrow>
          (case decode vc header_bytes of
             Inl err \<Rightarrow> (Inl err, txn, x)
           | Inr metadata \<Rightarrow>
               inner en pos txn (record_view (busy pos) (vt_server_id metadata) pos x)))"

section \<open>The contract of an applicator\<close>

text \<open>The layer never changes what an entry does to the store: it only refuses an entry whose
  header does not decode.\<close>

definition view_sem :: "view_tracking_metadata codec \<Rightarrow> app_sem \<Rightarrow> app_sem" where
  "view_sem vc sem en pos m =
     (case get_header en VIEW_TRACKING_HEADER of
        None \<Rightarrow> sem en pos m
      | Some header_bytes \<Rightarrow> and_then (decode vc header_bytes) (\<lambda>_. sem en pos m))"

lemma view_applicator:
  assumes "applicator app sem"
  shows "applicator (view_apply vc busy app) (view_sem vc sem)"
  by unfold_locales (auto simp: view_apply_def view_sem_def intro: applicator.app_meets[OF assms]
    split: option.splits sum.splits)

end
