(* ===== verification/Batching.thy ===== *)
theory Batching
  imports Base_Engine
begin

text \<open>
  The batching layer (\<open>relos-engine/src/batching.rs\<close>). The engine's background task collects the
  payloads of proposals and proposes them downstream as one entry; every caller of the batch gets the
  one result. The applicator takes such an entry apart and applies its payloads in order.

  The task is a state machine over what it receives: a proposal, a synchronisation, the batch
  timeout, or the closing of its channel. A caller's reply channel is a number.
\<close>

section \<open>Constants and data\<close>

definition DEFAULT_MAX_BATCH_SIZE :: nat where
  "DEFAULT_MAX_BATCH_SIZE = 100"

definition BATCHING_HEADER :: string where
  "BATCHING_HEADER = ''batching''"

record batch_metadata =
  batch_count :: u64

record batch_codecs =
  meta_codec :: "batch_metadata codec"
  payloads_codec :: "bytes list codec"

record pending_propose =
  pp_payload :: bytes
  pp_result_tx :: nat

datatype batch_request = BPropose pending_propose | BSync nat

datatype batch_reply = BProposed nat "return_value result" | BSynced nat "LogPos result"

section \<open>Engine\<close>

definition reply_all :: "pending_propose list \<Rightarrow> return_value result \<Rightarrow> batch_reply list" where
  "reply_all batch r = map (\<lambda>p. BProposed (pp_result_tx p) r) batch"

definition flush_batch ::
  "batch_codecs \<Rightarrow> 's engine_ops \<Rightarrow> pending_propose list \<Rightarrow> 's \<Rightarrow> (batch_reply list \<times> 's) option" where
  "flush_batch c downstream pending s =
     (if pending = [] then Some ([], s)
      else
        (case encode (payloads_codec c) (map pp_payload pending) of
           Inl err \<Rightarrow> Some (reply_all pending (Inl err), s)
         | Inr batched_payload \<Rightarrow>
             (case encode (meta_codec c) \<lparr>batch_count = of_nat (length pending)\<rparr> of
                Inl err \<Rightarrow> Some (reply_all pending (Inl err), s)
              | Inr header_bytes \<Rightarrow>
                  (case eng_propose downstream
                          (with_header (entry_new batched_payload) BATCHING_HEADER header_bytes) s of
                     None \<Rightarrow> None
                   | Some (r, s') \<Rightarrow> Some (reply_all pending r, s')))))"

text \<open>One round of \<open>flush_loop\<close>. The timeout is only armed while proposals are pending.\<close>

datatype batch_input = Received batch_request | TimedOut | Closed

fun flush_step ::
  "batch_codecs \<Rightarrow> 's engine_ops \<Rightarrow> nat \<Rightarrow> batch_input \<Rightarrow> pending_propose list \<times> 's \<Rightarrow>
   (batch_reply list \<times> pending_propose list \<times> 's) option" where
  "flush_step c d max_batch (Received (BPropose p)) (pending, s) =
     (let pending' = pending @ [p] in
      if length pending' \<ge> max_batch
      then map_option (\<lambda>(reps, s'). (reps, [], s')) (flush_batch c d pending' s)
      else Some ([], pending', s))"
| "flush_step c d max_batch (Received (BSync tx)) (pending, s) =
     (case flush_batch c d pending s of
        None \<Rightarrow> None
      | Some (reps, s') \<Rightarrow>
          (case eng_sync d s' of
             None \<Rightarrow> None
           | Some (r, s'') \<Rightarrow> Some (reps @ [BSynced tx r], [], s'')))"
| "flush_step c d max_batch TimedOut (pending, s) =
     map_option (\<lambda>(reps, s'). (reps, [], s')) (flush_batch c d pending s)"
| "flush_step c d max_batch Closed (pending, s) =
     map_option (\<lambda>(reps, s'). (reps, [], s')) (flush_batch c d pending s)"

fun flush_loop ::
  "batch_codecs \<Rightarrow> 's engine_ops \<Rightarrow> nat \<Rightarrow> batch_input list \<Rightarrow> pending_propose list \<times> 's \<Rightarrow>
   (batch_reply list \<times> pending_propose list \<times> 's) option" where
  "flush_loop c d max_batch [] ps = Some ([], ps)"
| "flush_loop c d max_batch (i # is) ps =
     (case flush_step c d max_batch i ps of
        None \<Rightarrow> None
      | Some (reps, ps') \<Rightarrow>
          if i = Closed then Some (reps, ps')
          else map_option (\<lambda>(reps', ps''). (reps @ reps', ps'')) (flush_loop c d max_batch is ps'))"

text \<open>\<open>impl Engine for BatchingEngine\<close>, for a caller that is alone: its proposal is received, keeps only
  its payload, and is flushed by its own arrival or by the timeout.\<close>

definition batching_propose ::
  "batch_codecs \<Rightarrow> nat \<Rightarrow> 's engine_ops \<Rightarrow> entry \<Rightarrow> 's \<Rightarrow> (return_value result \<times> 's) option" where
  "batching_propose c max_batch d en s =
     (case flush_loop c d max_batch
             [Received (BPropose \<lparr>pp_payload = payload en, pp_result_tx = 0\<rparr>), TimedOut] ([], s) of
        None \<Rightarrow> None
      | Some (reps, _, s') \<Rightarrow>
          (case reps of
             [BProposed _ r] \<Rightarrow> Some (r, s')
           | _ \<Rightarrow> Some (Inl (Internal ''batching flush loop dropped result''), s')))"

definition batching_sync ::
  "batch_codecs \<Rightarrow> nat \<Rightarrow> 's engine_ops \<Rightarrow> 's \<Rightarrow> (LogPos result \<times> 's) option" where
  "batching_sync c max_batch d s =
     (case flush_loop c d max_batch [Received (BSync 0)] ([], s) of
        None \<Rightarrow> None
      | Some (reps, _, s') \<Rightarrow>
          (case reps of
             [BSynced _ r] \<Rightarrow> Some (r, s')
           | _ \<Rightarrow> Some (Inl (Internal ''batching flush loop dropped result''), s')))"

definition batching_ops :: "batch_codecs \<Rightarrow> nat option \<Rightarrow> 's engine_ops \<Rightarrow> 's engine_ops" where
  "batching_ops c max_batch_size d =
     (let max_batch = (case max_batch_size of None \<Rightarrow> DEFAULT_MAX_BATCH_SIZE | Some n \<Rightarrow> n)
      in \<lparr>eng_propose = batching_propose c max_batch d, eng_sync = batching_sync c max_batch d\<rparr>)"

section \<open>Applicator\<close>

fun apply_payloads ::
  "'x applicator_fn \<Rightarrow> LogPos \<Rightarrow> bytes list \<Rightarrow> return_value \<Rightarrow> memory_write_tx \<Rightarrow> 'x \<Rightarrow>
   return_value result \<times> memory_write_tx \<times> 'x" where
  "apply_payloads inner pos [] last_rv txn x = (Inr last_rv, txn, x)"
| "apply_payloads inner pos (p # ps) last_rv txn x =
     (case inner (entry_new p) pos txn x of
        (Inl err, txn', x') \<Rightarrow> (Inl err, txn', x')
      | (Inr rv, txn', x') \<Rightarrow> apply_payloads inner pos ps rv txn' x')"

definition count_mismatch :: "u64 \<Rightarrow> nat \<Rightarrow> relos_error" where
  "count_mismatch n k = Internal (''batch metadata count '' @ decimal (unat n) @
     '' != actual payload count '' @ decimal k)"

definition batching_apply :: "batch_codecs \<Rightarrow> 'x applicator_fn \<Rightarrow> 'x applicator_fn" where
  "batching_apply c inner en pos txn x =
     (case get_header en BATCHING_HEADER of
        None \<Rightarrow> inner en pos txn x
      | Some header_bytes \<Rightarrow>
          (case decode (meta_codec c) header_bytes of
             Inl err \<Rightarrow> (Inl err, txn, x)
           | Inr metadata \<Rightarrow>
               (case decode (payloads_codec c) (payload en) of
                  Inl err \<Rightarrow> (Inl err, txn, x)
                | Inr payloads \<Rightarrow>
                    if length payloads \<noteq> unat (batch_count metadata)
                    then (Inl (count_mismatch (batch_count metadata) (length payloads)), txn, x)
                    else apply_payloads inner pos payloads Success txn x)))"

section \<open>The contract of an applicator\<close>

text \<open>A batch means its payloads, one after the other, at the position of the batch.\<close>

fun sem_payloads ::
  "app_sem \<Rightarrow> LogPos \<Rightarrow> bytes list \<Rightarrow> return_value \<Rightarrow> (bytes \<rightharpoonup> bytes) \<Rightarrow>
   (return_value \<times> (bytes \<rightharpoonup> bytes)) result" where
  "sem_payloads sem pos [] rv m = Inr (rv, m)"
| "sem_payloads sem pos (p # ps) rv m =
     and_then (sem (entry_new p) pos m) (\<lambda>(rv', m'). sem_payloads sem pos ps rv' m')"

definition batching_sem :: "batch_codecs \<Rightarrow> app_sem \<Rightarrow> app_sem" where
  "batching_sem c sem en pos m =
     (case get_header en BATCHING_HEADER of
        None \<Rightarrow> sem en pos m
      | Some header_bytes \<Rightarrow>
          and_then (decode (meta_codec c) header_bytes) (\<lambda>metadata.
          and_then (decode (payloads_codec c) (payload en)) (\<lambda>payloads.
          if length payloads \<noteq> unat (batch_count metadata)
          then Inl (count_mismatch (batch_count metadata) (length payloads))
          else sem_payloads sem pos payloads Success m)))"

lemma apply_payloads_meets:
  assumes "applicator app sem" "tx_ok t"
  shows "meets (apply_payloads app pos ps rv t x) (sem_payloads sem pos ps rv (tx_content t))"
  using assms(2)
proof (induction ps arbitrary: t rv x)
  case (Cons p ps)
  obtain r t' x' where out: "app (entry_new p) pos t x = (r, t', x')"
    by (cases "app (entry_new p) pos t x")
  have m: "meets (r, t', x') (sem (entry_new p) pos (tx_content t))"
    using applicator.app_meets[OF assms(1) Cons.prems, of "entry_new p" pos x] out by simp
  show ?case
  proof (cases "sem (entry_new p) pos (tx_content t)")
    case (Inl err)
    then show ?thesis using m out by simp
  next
    case (Inr res)
    obtain rv' m' where "res = (rv', m')" by (cases res)
    then show ?thesis using Inr m out Cons.IH[of t' rv' x'] by auto
  qed
qed simp

lemma batching_applicator:
  assumes "applicator app sem"
  shows "applicator (batching_apply c app) (batching_sem c sem)"
  by unfold_locales (auto simp: batching_apply_def batching_sem_def
    intro: applicator.app_meets[OF assms] apply_payloads_meets[OF assms] split: option.splits sum.splits)

section \<open>What the flush loop guarantees\<close>

fun reply_tx :: "batch_reply \<Rightarrow> nat" where
  "reply_tx (BProposed tx r) = tx"
| "reply_tx (BSynced tx r) = tx"

fun input_tx :: "batch_input \<Rightarrow> nat list" where
  "input_tx (Received (BPropose p)) = [pp_result_tx p]"
| "input_tx (Received (BSync tx)) = [tx]"
| "input_tx _ = []"

lemma reply_all_tx [simp]: "map reply_tx (reply_all batch r) = map pp_result_tx batch"
  by (simp add: reply_all_def comp_def)

lemma flush_batch_replies:
  "flush_batch c d pending s = Some (reps, s') \<Longrightarrow> map reply_tx reps = map pp_result_tx pending"
  by (auto simp: flush_batch_def split: if_splits sum.splits option.splits)

lemma flush_step_replies:
  assumes "flush_step c d max_batch i (pending, s) = Some (reps, pending', s')"
  shows "map reply_tx reps @ map pp_result_tx pending' = map pp_result_tx pending @ input_tx i"
proof (cases i)
  case (Received r)
  then show ?thesis
    using assms by (cases r) (auto simp: Let_def dest!: flush_batch_replies split: if_splits option.splits)
qed (use assms in \<open>auto dest!: flush_batch_replies\<close>)

lemma flush_loop_replies:
  assumes "flush_loop c d max_batch is (pending, s) = Some (reps, pending', s')" "Closed \<notin> set is"
  shows "map reply_tx reps @ map pp_result_tx pending' = map pp_result_tx pending @ concat (map input_tx is)"
  using assms
proof (induction "is" arbitrary: pending s reps)
  case (Cons i "is")
  obtain r1 p1 s1 where step: "flush_step c d max_batch i (pending, s) = Some (r1, p1, s1)"
    using Cons.prems by (auto split: option.splits)
  then obtain r2 where r2: "flush_loop c d max_batch is (p1, s1) = Some (r2, pending', s')" "reps = r1 @ r2"
    using Cons.prems by auto
  have "map reply_tx reps @ map pp_result_tx pending' = map reply_tx r1 @ map pp_result_tx p1 @ concat (map input_tx is)"
    using Cons.IH[OF r2(1)] Cons.prems r2(2) by simp
  also have "\<dots> = map pp_result_tx pending @ concat (map input_tx (i # is))"
    using flush_step_replies[OF step] by (metis append.assoc concat.simps(2) list.simps(9))
  finally show ?case .
qed simp

lemma flush_step_pending:
  assumes "flush_step c d max_batch i (pending, s) = Some (reps, pending', s')" "length pending < max_batch"
  shows "length pending' < max_batch"
proof (cases i)
  case (Received r)
  then show ?thesis
    using assms by (cases r) (auto simp: Let_def split: if_splits option.splits)
qed (use assms in auto)

lemma flush_loop_pending:
  assumes "flush_loop c d max_batch is (pending, s) = Some (reps, pending', s')" "length pending < max_batch"
    "Closed \<notin> set is"
  shows "length pending' < max_batch"
  using assms
proof (induction "is" arbitrary: pending s reps)
  case (Cons i "is")
  obtain r1 p1 s1 where step: "flush_step c d max_batch i (pending, s) = Some (r1, p1, s1)"
    using Cons.prems by (auto split: option.splits)
  then obtain r2 where "flush_loop c d max_batch is (p1, s1) = Some (r2, pending', s')"
    using Cons.prems by auto
  with Cons.IH flush_step_pending[OF step Cons.prems(2)] Cons.prems(3) show ?case by auto
qed simp

end
