(* ===== verification/Observer.thy ===== *)
theory Observer
  imports Base_Engine
begin

text \<open>
  The observer layer (\<open>relos-engine/src/observer.rs\<close>): a pass-through that reports how long each
  operation took. A \<open>dyn MetricsReporter\<close> is a record of three functions on a metrics state; \<open>upd\<close>
  applies such a function to the metrics inside the state the layer runs on, and \<open>elapsed\<close> is the
  duration the clock gives for the call, in microseconds. \<open>LoggingMetrics\<close> writes one line per call.
\<close>

section \<open>Metrics\<close>

record 'm metrics_reporter =
  record_propose_latency :: "nat \<Rightarrow> 'm \<Rightarrow> 'm"
  record_sync_latency :: "nat \<Rightarrow> 'm \<Rightarrow> 'm"
  record_apply_latency :: "nat \<Rightarrow> 'm \<Rightarrow> 'm"

datatype latency_line = ProposeLatency nat | SyncLatency nat | ApplyLatency nat

definition logging_metrics :: "latency_line list metrics_reporter" where
  "logging_metrics = \<lparr>record_propose_latency = (\<lambda>d ls. ls @ [ProposeLatency d]),
     record_sync_latency = (\<lambda>d ls. ls @ [SyncLatency d]),
     record_apply_latency = (\<lambda>d ls. ls @ [ApplyLatency d])\<rparr>"

section \<open>Engine and applicator\<close>

definition observer_propose ::
  "'m metrics_reporter \<Rightarrow> (('m \<Rightarrow> 'm) \<Rightarrow> 's \<Rightarrow> 's) \<Rightarrow> nat \<Rightarrow> 's engine_ops \<Rightarrow> entry \<Rightarrow> 's \<Rightarrow>
   (return_value result \<times> 's) option" where
  "observer_propose metrics upd elapsed inner en s =
     (case eng_propose inner en s of
        None \<Rightarrow> None
      | Some (r, s') \<Rightarrow> Some (r, upd (record_propose_latency metrics elapsed) s'))"

definition observer_sync ::
  "'m metrics_reporter \<Rightarrow> (('m \<Rightarrow> 'm) \<Rightarrow> 's \<Rightarrow> 's) \<Rightarrow> nat \<Rightarrow> 's engine_ops \<Rightarrow> 's \<Rightarrow>
   (LogPos result \<times> 's) option" where
  "observer_sync metrics upd elapsed inner s =
     (case eng_sync inner s of
        None \<Rightarrow> None
      | Some (r, s') \<Rightarrow> Some (r, upd (record_sync_latency metrics elapsed) s'))"

definition observer_ops ::
  "'m metrics_reporter \<Rightarrow> (('m \<Rightarrow> 'm) \<Rightarrow> 's \<Rightarrow> 's) \<Rightarrow> nat \<Rightarrow> 's engine_ops \<Rightarrow> 's engine_ops" where
  "observer_ops metrics upd elapsed inner =
     \<lparr>eng_propose = observer_propose metrics upd elapsed inner,
      eng_sync = observer_sync metrics upd elapsed inner\<rparr>"

definition observer_apply ::
  "'m metrics_reporter \<Rightarrow> (('m \<Rightarrow> 'm) \<Rightarrow> 'x \<Rightarrow> 'x) \<Rightarrow> nat \<Rightarrow> 'x applicator_fn \<Rightarrow> 'x applicator_fn" where
  "observer_apply metrics upd elapsed inner en pos txn x =
     (case inner en pos txn x of
        (r, txn', x') \<Rightarrow> (r, txn', upd (record_apply_latency metrics elapsed) x'))"

section \<open>The contract of an applicator\<close>

lemma observer_applicator:
  assumes "applicator app sem"
  shows "applicator (observer_apply metrics upd elapsed app) sem"
proof unfold_locales
  fix t en pos x
  assume "tx_ok t"
  then have "meets (app en pos t x) (sem en pos (tx_content t))"
    by (rule applicator.app_meets[OF assms])
  then show "meets (observer_apply metrics upd elapsed app en pos t x) (sem en pos (tx_content t))"
    by (cases "app en pos t x") (simp add: observer_apply_def meets_def split: sum.splits prod.splits)
qed

end
