(* ===== verification/Engine_Stack.thy ===== *)
theory Engine_Stack
  imports View_Tracking Batching Observer
begin

text \<open>
  The stack builder (\<open>relos-engine/src/stack.rs\<close>). A middleware wraps the engine below it and the
  applicator above it. All layers of a stack share one applicator state; \<open>stack_state\<close> holds what the
  layers of this repository keep there, the view map and the latency lines.
\<close>

section \<open>Builder\<close>

record ('s, 'x) middle_engine =
  wrap_engine :: "'s engine_ops \<Rightarrow> 's engine_ops"
  wrap_applicator :: "'x applicator_fn \<Rightarrow> 'x applicator_fn"

record ('s, 'x) engine_stack_builder =
  middlewares :: "('s, 'x) middle_engine list"

definition stack_new :: "('s, 'x) engine_stack_builder" where
  "stack_new = \<lparr>middlewares = []\<rparr>"

definition stack_push ::
  "('s, 'x) middle_engine \<Rightarrow> ('s, 'x) engine_stack_builder \<Rightarrow> ('s, 'x) engine_stack_builder" where
  "stack_push middleware b = b\<lparr>middlewares := middlewares b @ [middleware]\<rparr>"

definition stack_applicator :: "('s, 'x) engine_stack_builder \<Rightarrow> 'x applicator_fn \<Rightarrow> 'x applicator_fn" where
  "stack_applicator b app = fold wrap_applicator (rev (middlewares b)) app"

definition stack_engine :: "('s, 'x) engine_stack_builder \<Rightarrow> 's engine_ops \<Rightarrow> 's engine_ops" where
  "stack_engine b base = fold wrap_engine (middlewares b) base"

definition stack_build ::
  "(('l, 'x) base_engine, 'x) engine_stack_builder \<Rightarrow> 'l loglet_ops \<Rightarrow> 'l \<Rightarrow> memory_store \<Rightarrow> 'x applicator_fn \<Rightarrow> 'x \<Rightarrow>
   (('l, 'x) base_engine engine_ops \<times> ('l, 'x) base_engine) result" where
  "stack_build b ops log store app x =
     (let app' = stack_applicator b app in
      and_then (engine_new log store x) (\<lambda>be. Inr (stack_engine b (base_ops ops app'), be)))"

section \<open>The layers as middlewares\<close>

record stack_state = view_state +
  latencies :: "latency_line list"

definition stack_state_new :: stack_state where
  "stack_state_new = \<lparr>views = bt_empty, latencies = []\<rparr>"

abbreviation in_engine :: "(stack_state \<Rightarrow> stack_state) \<Rightarrow> ('l, stack_state) base_engine \<Rightarrow> ('l, stack_state) base_engine" where
  "in_engine f be \<equiv> be\<lparr>be_app := f (be_app be)\<rparr>"

definition view_middleware ::
  "view_tracking_metadata codec \<Rightarrow> (LogPos \<Rightarrow> bool) \<Rightarrow> ServerId \<Rightarrow> (('l, stack_state) base_engine, stack_state) middle_engine" where
  "view_middleware vc busy server_id =
     \<lparr>wrap_engine = view_ops vc (\<lambda>be. views (be_app be)) server_id, wrap_applicator = view_apply vc busy\<rparr>"

definition batching_middleware ::
  "batch_codecs \<Rightarrow> nat option \<Rightarrow> (('l, stack_state) base_engine, stack_state) middle_engine" where
  "batching_middleware bc max_batch_size =
     \<lparr>wrap_engine = batching_ops bc max_batch_size, wrap_applicator = batching_apply bc\<rparr>"

definition observer_middleware ::
  "nat \<Rightarrow> (('l, stack_state) base_engine, stack_state) middle_engine" where
  "observer_middleware elapsed =
     \<lparr>wrap_engine = observer_ops logging_metrics (\<lambda>f. in_engine (latencies_update f)) elapsed,
      wrap_applicator = observer_apply logging_metrics latencies_update elapsed\<rparr>"

section \<open>The contract of a stack\<close>

text \<open>A middleware keeps the contract of an applicator if what it wraps around an applicator has a
  meaning whenever that applicator has; then so does any stack of them.\<close>

definition keeps_contract :: "('s, 'x) middle_engine \<Rightarrow> bool" where
  "keeps_contract w \<longleftrightarrow> (\<forall>app sem. applicator app sem \<longrightarrow> (\<exists>sem'. applicator (wrap_applicator w app) sem'))"

lemma stack_applicator_push:
  "stack_applicator (stack_push w b) app = stack_applicator b (wrap_applicator w app)"
  by (simp add: stack_applicator_def stack_push_def)

lemma stack_engine_push: "stack_engine (stack_push w b) base = wrap_engine w (stack_engine b base)"
  by (simp add: stack_engine_def stack_push_def)

lemma stack_new_wraps [simp]: "stack_applicator stack_new app = app" "stack_engine stack_new base = base"
  by (simp_all add: stack_applicator_def stack_engine_def stack_new_def)

lemma fold_keeps_contract:
  assumes "\<forall>w \<in> set ws. keeps_contract w" "applicator app sem"
  shows "\<exists>sem'. applicator (fold wrap_applicator ws app) sem'"
  using assms by (induction ws arbitrary: app sem) (auto simp: keeps_contract_def)

lemma stack_keeps_contract:
  assumes "\<forall>w \<in> set (middlewares b). keeps_contract w" "applicator app sem"
  shows "\<exists>sem'. applicator (stack_applicator b app) sem'"
  unfolding stack_applicator_def using assms by (intro fold_keeps_contract) auto

lemma layers_keep_contract:
  "keeps_contract (view_middleware vc busy sid)" "keeps_contract (batching_middleware bc mb)"
  "keeps_contract (observer_middleware el)"
  unfolding keeps_contract_def view_middleware_def batching_middleware_def observer_middleware_def
  by (auto intro: view_applicator batching_applicator observer_applicator)

end
