(* ===== verification/Sample_Codec.thy ===== *)
theory Sample_Codec
  imports Delos_Table Engine_Stack
begin

text \<open>
  The serialisation crates are parameters of the development. This theory gives one executable
  instance of them, which shows that what the theorems assume of them can hold, and on which their
  witnesses are evaluated. It is not the wire format of \<open>bincode\<close>: every encoder is self-delimiting,
  a list marks each of its elements and its end.
\<close>

section \<open>Self-delimiting encoders\<close>

type_synonym 'a enc = "'a \<Rightarrow> bytes"
type_synonym 'a dec = "bytes \<Rightarrow> ('a \<times> bytes) option"

definition delimited :: "'a enc \<Rightarrow> 'a dec \<Rightarrow> bool" where
  "delimited e d \<longleftrightarrow> (\<forall>x r. d (e x @ r) = Some (x, r))"

lemma delimitedD: "delimited e d \<Longrightarrow> d (e x @ r) = Some (x, r)"
  by (simp add: delimited_def)

definition run_enc :: "'a enc \<Rightarrow> 'a \<Rightarrow> string + bytes" where
  "run_enc e x = Inr (e x)"

definition run_dec :: "'a dec \<Rightarrow> bytes \<Rightarrow> string + 'a" where
  "run_dec d bs = (case d bs of Some (x, []) \<Rightarrow> Inr x | _ \<Rightarrow> Inl ''invalid bytes'')"

definition codec_from :: "'a enc \<Rightarrow> 'a dec \<Rightarrow> 'a codec" where
  "codec_from e d = \<lparr>serialize = run_enc e, deserialize = run_dec d\<rparr>"

lemma codec_from_ok: "delimited e d \<Longrightarrow> codec_ok (codec_from e d)"
  unfolding codec_ok_def codec_from_def run_enc_def run_dec_def using delimitedD[of e d _ "[]"] by simp

lemma delimited_inj: "delimited e d \<Longrightarrow> inj e"
  by (metis (no_types, lifting) delimitedD injI option.inject prod.inject)

subsection \<open>Building blocks\<close>

fun dec_byte :: "byte dec" where
  "dec_byte [] = None"
| "dec_byte (b # bs) = Some (b, bs)"

definition enc_bool :: "bool enc" where
  "enc_bool b = [if b then 1 else 0]"

fun dec_bool :: "bool dec" where
  "dec_bool [] = None"
| "dec_bool (b # bs) = Some (b \<noteq> 0, bs)"

definition enc_u64 :: "u64 enc" where
  "enc_u64 w = to_le_bytes w"

definition dec_u64 :: "u64 dec" where
  "dec_u64 bs = (if length bs < 8 then None else Some (from_le_bytes (take 8 bs), drop 8 bs))"

fun enc_list :: "'a enc \<Rightarrow> 'a list enc" where
  "enc_list e [] = [0]"
| "enc_list e (x # xs) = 1 # e x @ enc_list e xs"

text \<open>Fuel is the number of bytes left: every element takes at least one.\<close>

fun dec_list_fuel :: "nat \<Rightarrow> 'a dec \<Rightarrow> 'a list dec" where
  "dec_list_fuel 0 d bs = None"
| "dec_list_fuel (Suc n) d [] = None"
| "dec_list_fuel (Suc n) d (b # bs) =
     (if b = 0 then Some ([], bs)
      else (case d bs of
              None \<Rightarrow> None
            | Some (x, r) \<Rightarrow> (case dec_list_fuel n d r of None \<Rightarrow> None | Some (xs, r') \<Rightarrow> Some (x # xs, r'))))"

definition dec_list :: "'a dec \<Rightarrow> 'a list dec" where
  "dec_list d bs = dec_list_fuel (length bs) d bs"

definition dec_char :: "char dec" where
  "dec_char bs = map_option (\<lambda>(b, r). (char_of (unat b), r)) (dec_byte bs)"

definition enc_string :: "string enc" where
  "enc_string = enc_list (\<lambda>ch. [of_char ch])"

definition dec_string :: "string dec" where
  "dec_string = dec_list dec_char"

lemma delimited_byte: "delimited (\<lambda>b. [b]) dec_byte"
  by (simp add: delimited_def)

lemma delimited_bool: "delimited enc_bool dec_bool"
  by (simp add: delimited_def enc_bool_def)

lemma delimited_u64: "delimited enc_u64 dec_u64"
  by (simp add: delimited_def enc_u64_def dec_u64_def)

lemma enc_list_length: "length xs < length (enc_list e xs @ r)"
  by (induction xs) auto

lemma dec_list_fuel:
  assumes "delimited e d" "length xs < n"
  shows "dec_list_fuel n d (enc_list e xs @ r) = Some (xs, r)"
  using assms(2)
proof (induction xs arbitrary: n)
  case Nil
  then show ?case by (cases n) auto
next
  case (Cons x xs)
  then obtain k where "n = Suc k" "length xs < k" by (cases n) auto
  then show ?case using Cons.IH[of k] delimitedD[OF assms(1), of x] by simp
qed

lemma delimited_list: "delimited e d \<Longrightarrow> delimited (enc_list e) (dec_list d)"
  unfolding delimited_def[of "enc_list e"] dec_list_def
  using dec_list_fuel[of e d _ "length (enc_list e _ @ _)"] enc_list_length by metis

lemma delimited_char: "delimited (\<lambda>ch. [of_char ch]) dec_char"
proof -
  have "char_of (unat (of_char ch :: byte)) = ch" for ch
  proof -
    have "unat (of_nat (of_char ch) :: byte) = of_char ch" by (simp add: unat_of_nat)
    then show ?thesis by (simp add: of_nat_of_char)
  qed
  then show ?thesis by (simp add: delimited_def dec_char_def)
qed

lemma delimited_string: "delimited enc_string dec_string"
  unfolding enc_string_def dec_string_def by (rule delimited_list[OF delimited_char])

subsection \<open>Table data\<close>

fun enc_column_type :: "column_type enc" where
  "enc_column_type TInt64 = [0]" | "enc_column_type TUtf8 = [1]" | "enc_column_type TBytes = [2]"
| "enc_column_type TBool = [3]" | "enc_column_type TFloat64 = [4]"

definition dec_column_type :: "column_type dec" where
  "dec_column_type bs = map_option (\<lambda>(b, r).
     (if b = 0 then TInt64 else if b = 1 then TUtf8 else if b = 2 then TBytes else if b = 3 then TBool
      else TFloat64, r)) (dec_byte bs)"

definition enc_column_def :: "column_def enc" where
  "enc_column_def col = enc_string (col_name col) @ enc_column_type (col_type col) @ enc_bool (nullable col)"

definition dec_column_def :: "column_def dec" where
  "dec_column_def bs =
     Option.bind (dec_string bs) (\<lambda>(n, r1). Option.bind (dec_column_type r1) (\<lambda>(ty, r2).
     Option.bind (dec_bool r2) (\<lambda>(nl, r3). Some (\<lparr>col_name = n, col_type = ty, nullable = nl\<rparr>, r3))))"

definition enc_schema :: "table_schema enc" where
  "enc_schema s = enc_string (schema_name s) @ enc_list enc_column_def (columns s) @
     enc_list enc_string (primary_key s)"

definition dec_schema :: "table_schema dec" where
  "dec_schema bs =
     Option.bind (dec_string bs) (\<lambda>(n, r1). Option.bind (dec_list dec_column_def r1) (\<lambda>(cols, r2).
     Option.bind (dec_list dec_string r2) (\<lambda>(pk, r3).
     Some (\<lparr>schema_name = n, columns = cols, primary_key = pk\<rparr>, r3))))"

fun enc_value :: "table_value enc" where
  "enc_value Null = [0]"
| "enc_value (Int64 w) = 1 # enc_u64 w"
| "enc_value (Utf8 s) = 2 # enc_string s"
| "enc_value (Bytes bs) = 3 # enc_list (\<lambda>b. [b]) bs"
| "enc_value (Bool b) = 4 # enc_bool b"
| "enc_value (Float64 w) = 5 # enc_u64 w"

fun dec_value :: "table_value dec" where
  "dec_value [] = None"
| "dec_value (b # bs) =
     (if b = 0 then Some (Null, bs)
      else if b = 1 then map_option (map_prod Int64 id) (dec_u64 bs)
      else if b = 2 then map_option (map_prod Utf8 id) (dec_string bs)
      else if b = 3 then map_option (map_prod Bytes id) (dec_list dec_byte bs)
      else if b = 4 then map_option (map_prod Bool id) (dec_bool bs)
      else map_option (map_prod Float64 id) (dec_u64 bs))"

definition enc_row :: "row enc" where
  "enc_row r = enc_list enc_value (values r)"

definition dec_row :: "row dec" where
  "dec_row bs = map_option (\<lambda>(vs, r). (\<lparr>values = vs\<rparr>, r)) (dec_list dec_value bs)"

fun enc_command :: "table_command enc" where
  "enc_command (CreateTable s) = 0 # enc_schema s"
| "enc_command (DropTable t) = 1 # enc_string t"
| "enc_command (Put t r) = 2 # enc_string t @ enc_row r"
| "enc_command (Delete t key) = 3 # enc_string t @ enc_list enc_value key"

fun dec_command :: "table_command dec" where
  "dec_command [] = None"
| "dec_command (b # bs) =
     (if b = 0 then map_option (map_prod CreateTable id) (dec_schema bs)
      else Option.bind (dec_string bs) (\<lambda>(t, r).
        if b = 1 then Some (DropTable t, r)
        else if b = 2 then map_option (map_prod (Put t) id) (dec_row r)
        else map_option (map_prod (Delete t) id) (dec_list dec_value r)))"

fun enc_response :: "table_response enc" where
  "enc_response Ok = [0]"
| "enc_response (Error msg) = 1 # enc_string msg"

fun dec_response :: "table_response dec" where
  "dec_response [] = None"
| "dec_response (b # bs) = (if b = 0 then Some (Ok, bs) else map_option (map_prod Error id) (dec_string bs))"

lemma delimited_column_def: "delimited enc_column_def dec_column_def"
proof -
  have "dec_column_type (enc_column_type ty @ r) = Some (ty, r)" for ty r
    by (cases ty) (simp_all add: dec_column_type_def)
  then show ?thesis
    by (simp add: delimited_def enc_column_def_def dec_column_def_def delimitedD[OF delimited_string]
      delimitedD[OF delimited_bool])
qed

lemma delimited_schema: "delimited enc_schema dec_schema"
  by (simp add: delimited_def[of enc_schema] enc_schema_def dec_schema_def delimitedD[OF delimited_string]
    delimitedD[OF delimited_list[OF delimited_column_def]] delimitedD[OF delimited_list[OF delimited_string]])

lemma delimited_value: "delimited enc_value dec_value"
proof -
  have "dec_value (enc_value v @ r) = Some (v, r)" for v r
    by (cases v) (simp_all add: delimitedD[OF delimited_string] delimitedD[OF delimited_u64]
      delimitedD[OF delimited_bool] delimitedD[OF delimited_list[OF delimited_byte], simplified])
  then show ?thesis by (simp add: delimited_def)
qed

lemma delimited_row: "delimited enc_row dec_row"
  by (simp add: delimited_def[of enc_row] enc_row_def dec_row_def delimitedD[OF delimited_list[OF delimited_value]])

lemma delimited_command: "delimited enc_command dec_command"
proof -
  have "dec_command (enc_command cmd @ r) = Some (cmd, r)" for cmd r
    by (cases cmd) (simp_all add: delimitedD[OF delimited_string] delimitedD[OF delimited_schema]
      delimitedD[OF delimited_row] delimitedD[OF delimited_list[OF delimited_value]])
  then show ?thesis by (simp add: delimited_def)
qed

lemma delimited_response: "delimited enc_response dec_response"
proof -
  have "dec_response (enc_response x @ r) = Some (x, r)" for x r
    by (cases x) (simp_all add: delimitedD[OF delimited_string])
  then show ?thesis by (simp add: delimited_def)
qed

subsection \<open>Hexadecimal\<close>

definition hex_digit :: "nat \<Rightarrow> char" where
  "hex_digit n = ''0123456789abcdef'' ! n"

definition sample_hex :: "bytes \<Rightarrow> string" where
  "sample_hex bs = concat (map (\<lambda>b. [hex_digit (unat b div 16), hex_digit (unat b mod 16)]) bs)"

lemma distinct_hex: "distinct ''0123456789abcdef''"
  by simp

lemma hex_digit_inject: "i < 16 \<Longrightarrow> j < 16 \<Longrightarrow> hex_digit i = hex_digit j \<longleftrightarrow> i = j"
  unfolding hex_digit_def using nth_eq_iff_index_eq[OF distinct_hex, of i j] by simp

lemma hex_digit_in: "i < 16 \<Longrightarrow> hex_digit i \<in> hex_digits"
  unfolding hex_digit_def hex_digits_def by (rule nth_mem) simp

lemma byte_nibbles: "unat (b :: byte) div 16 < 16" "unat (b :: byte) mod 16 < 16"
proof -
  have "unat b < 2 ^ LENGTH(8)" by (rule unsigned_less)
  then show "unat b div 16 < 16" by simp
qed simp

lemma sample_hex_inject: "sample_hex xs = sample_hex ys \<Longrightarrow> xs = ys"
proof (induction xs arbitrary: ys)
  case Nil
  then show ?case by (cases ys) (simp_all add: sample_hex_def)
next
  case (Cons x xs)
  then obtain y ys' where ys: "ys = y # ys'" by (cases ys) (simp_all add: sample_hex_def)
  with Cons.prems have "unat x div 16 = unat y div 16" "unat x mod 16 = unat y mod 16" "sample_hex xs = sample_hex ys'"
    by (simp_all add: sample_hex_def hex_digit_inject byte_nibbles)
  moreover from this have "x = y" by (metis div_mult_mod_eq word_unat_eq_iff)
  ultimately show ?case using Cons.IH ys by simp
qed

lemma sample_hex_shape: "length (sample_hex bs) = 2 * length bs" "set (sample_hex bs) \<subseteq> hex_digits"
  by (induction bs) (auto simp: sample_hex_def hex_digit_in byte_nibbles)

section \<open>The instance\<close>

definition sample_codecs :: table_codecs where
  "sample_codecs = \<lparr>schema_codec = codec_from enc_schema dec_schema, row_codec = codec_from enc_row dec_row,
     command_codec = codec_from enc_command dec_command,
     response_codec = codec_from enc_response dec_response, value_bytes = enc_value, hex_encode = sample_hex\<rparr>"

lemma sample_codecs_ok: "codecs_ok sample_codecs"
proof -
  have "enc_value v \<noteq> []" for v by (cases v) simp_all
  moreover have "inj sample_hex" by (rule injI) (rule sample_hex_inject)
  ultimately show ?thesis
    unfolding codecs_ok_def sample_codecs_def
    using codec_from_ok[OF delimited_schema] codec_from_ok[OF delimited_row]
      codec_from_ok[OF delimited_command] codec_from_ok[OF delimited_response]
      delimited_inj[OF delimited_value] sample_hex_shape by simp
qed

definition enc_metadata :: "view_tracking_metadata enc" where
  "enc_metadata md = enc_u64 (vt_server_id md) @ enc_u64 (vt_cursor md)"

definition dec_metadata :: "view_tracking_metadata dec" where
  "dec_metadata bs = Option.bind (dec_u64 bs) (\<lambda>(i, r1). Option.bind (dec_u64 r1) (\<lambda>(cur, r2).
     Some (\<lparr>vt_server_id = i, vt_cursor = cur\<rparr>, r2)))"

definition sample_view_codec :: "view_tracking_metadata codec" where
  "sample_view_codec = codec_from enc_metadata dec_metadata"

lemma sample_view_codec_ok: "codec_ok sample_view_codec"
  unfolding sample_view_codec_def
  by (rule codec_from_ok) (simp add: delimited_def enc_metadata_def dec_metadata_def delimitedD[OF delimited_u64])

definition enc_batch_metadata :: "batch_metadata enc" where
  "enc_batch_metadata md = enc_u64 (batch_count md)"

definition dec_batch_metadata :: "batch_metadata dec" where
  "dec_batch_metadata bs = map_option (\<lambda>(n, r). (\<lparr>batch_count = n\<rparr>, r)) (dec_u64 bs)"

definition sample_batch_codecs :: batch_codecs where
  "sample_batch_codecs =
     \<lparr>meta_codec = codec_from enc_batch_metadata dec_batch_metadata,
      payloads_codec = codec_from (enc_list (enc_list (\<lambda>b. [b]))) (dec_list (dec_list dec_byte))\<rparr>"

lemma sample_batch_codecs_ok:
  "codec_ok (meta_codec sample_batch_codecs)" "codec_ok (payloads_codec sample_batch_codecs)"
proof -
  show "codec_ok (meta_codec sample_batch_codecs)"
    unfolding sample_batch_codecs_def batch_codecs.simps
    by (rule codec_from_ok)
      (simp add: delimited_def enc_batch_metadata_def dec_batch_metadata_def delimitedD[OF delimited_u64])
  show "codec_ok (payloads_codec sample_batch_codecs)"
    unfolding sample_batch_codecs_def batch_codecs.simps
    by (rule codec_from_ok) (intro delimited_list delimited_byte)
qed

end
