(* ===== verification/Memory_Loglet.thy ===== *)
theory Memory_Loglet
  imports Loglet
begin

text \<open>
  \<open>MemoryLoglet\<close> (\<open>relos-log/src/memory_loglet.rs\<close>): a vector of optional entries, a seal flag and
  a trim position behind one lock, so each operation is one atomic step. The tail is computed in
  \<open>u64\<close> from the length of the vector.
\<close>

section \<open>State and operations\<close>

record memory_loglet =
  ml_entries :: "entry option list"
  ml_sealed :: bool
  ml_trim_pos :: LogPos

definition memory_loglet_new :: memory_loglet where
  "memory_loglet_new = \<lparr>ml_entries = [], ml_sealed = False, ml_trim_pos = LOG_POS_BEGIN\<rparr>"

definition ml_tail :: "memory_loglet \<Rightarrow> LogPos" where
  "ml_tail l = of_nat (length (ml_entries l)) + LOG_POS_BEGIN"

definition ml_append :: "entry \<Rightarrow> memory_loglet \<Rightarrow> LogPos result \<times> memory_loglet" where
  "ml_append e l =
     (let tail = ml_tail l in
      if ml_sealed l then (Inl (Sealed tail), l)
      else (Inr tail, l\<lparr>ml_entries := ml_entries l @ [Some e]\<rparr>))"

definition ml_check_tail :: "memory_loglet \<Rightarrow> LogPos result" where
  "ml_check_tail l = Inr (ml_tail l)"

text \<open>The index read by \<open>read\<close>, once the two range checks have passed.\<close>

definition ml_index :: "LogPos \<Rightarrow> nat" where
  "ml_index pos = unat (pos - LOG_POS_BEGIN)"

definition ml_read :: "LogPos \<Rightarrow> memory_loglet \<Rightarrow> entry option result" where
  "ml_read pos l =
     (if pos < ml_trim_pos l then Inl (Trimmed pos)
      else if pos \<ge> ml_tail l then Inr None
      else Inr (ml_entries l ! ml_index pos))"

definition ml_trim :: "LogPos \<Rightarrow> memory_loglet \<Rightarrow> unit result \<times> memory_loglet" where
  "ml_trim pos l =
     (if pos > ml_trim_pos l then
        let tail = ml_tail l;
            end_pos = (if pos < tail then pos else tail)
        in (Inr (), l\<lparr>ml_trim_pos := pos,
              ml_entries := fold (\<lambda>p xs. xs[p - 1 := None]) [unat LOG_POS_BEGIN..<unat end_pos] (ml_entries l)\<rparr>)
      else (Inr (), l))"

definition ml_seal :: "memory_loglet \<Rightarrow> LogPos result \<times> memory_loglet" where
  "ml_seal l = (Inr (ml_tail l), l\<lparr>ml_sealed := True\<rparr>)"

definition memory_ops :: "memory_loglet loglet_ops" where
  "memory_ops = \<lparr>lg_append = (\<lambda>e l. Some (ml_append e l)), lg_check_tail = ml_check_tail,
     lg_read = ml_read, lg_trim = ml_trim, lg_seal = ml_seal\<rparr>"

section \<open>The log it represents\<close>

definition ml_rel :: "memory_loglet \<Rightarrow> alog \<Rightarrow> bool" where
  "ml_rel l a \<longleftrightarrow> length (ml_entries l) = length (al_entries a) \<and> ml_sealed l = al_sealed a \<and>
     unat (ml_trim_pos l) = al_trim a \<and> 1 \<le> al_trim a \<and> al_tail a < 2 ^ 64 \<and>
     (\<forall>i < length (al_entries a). al_trim a \<le> Suc i \<longrightarrow> ml_entries l ! i = Some (al_entries a ! i))"

lemma memory_ops_sel [simp]:
  "lg_append memory_ops e l = Some (ml_append e l)" "lg_check_tail memory_ops = ml_check_tail"
  "lg_read memory_ops = ml_read" "lg_trim memory_ops = ml_trim" "lg_seal memory_ops = ml_seal"
  by (simp_all add: memory_ops_def)

lemma ml_tail_rel: "ml_rel l a \<Longrightarrow> ml_tail l = of_nat (al_tail a)"
  by (simp add: ml_rel_def ml_tail_def al_tail_def LOG_POS_BEGIN_def add.commute)

lemma ml_tail_unat: "ml_rel l a \<Longrightarrow> unat (ml_tail l) = al_tail a"
  by (simp add: ml_tail_rel unat_of_nat_pos) (simp add: ml_rel_def unat_of_nat_pos)

lemma ml_rel_new: "ml_rel memory_loglet_new alog_new"
  by (simp add: ml_rel_def memory_loglet_new_def alog_new_def al_tail_def LOG_POS_BEGIN_def)

lemma ml_index_unat: "1 \<le> unat pos \<Longrightarrow> ml_index pos = unat pos - 1"
  by (simp add: ml_index_def LOG_POS_BEGIN_def unat_sub word_le_nat_alt)

text \<open>What the clearing loop of \<open>trim\<close> computes.\<close>

lemma length_fold_clear [simp]: "length (fold (\<lambda>p xs. xs[p - Suc 0 := None]) ps xs) = length xs"
  by (induction ps arbitrary: xs) auto

lemma nth_fold_clear:
  "i < length xs \<Longrightarrow>
   fold (\<lambda>p xs. xs[p - Suc 0 := None]) ps xs ! i =
     (if \<exists>p \<in> set ps. p - Suc 0 = i then None else xs ! i)"
  by (induction ps arbitrary: xs) auto

lemma ml_trim_entries:
  assumes "ml_rel l a" "ml_trim_pos l < pos" "i < length (al_entries a)" "unat pos \<le> Suc i"
  shows "ml_entries (snd (ml_trim pos l)) ! i = ml_entries l ! i"
proof -
  have "unat (if pos < ml_tail l then pos else ml_tail l) \<le> Suc i"
    using assms(4) by (auto simp: word_less_nat_alt)
  moreover have "i < length (ml_entries l)"
    using assms(1,3) by (simp add: ml_rel_def)
  ultimately show ?thesis
    using assms(2) by (auto simp: ml_trim_def Let_def nth_fold_clear LOG_POS_BEGIN_def)
qed

lemma ml_trim_rel:
  assumes "ml_rel l a"
  shows "fst (ml_trim pos l) = Inr () \<and>
    ml_rel (snd (ml_trim pos l)) (a\<lparr>al_trim := max (al_trim a) (unat pos)\<rparr>)"
proof (cases "ml_trim_pos l < pos")
  case True
  then have "al_trim a < unat pos"
    using assms by (simp add: ml_rel_def word_less_nat_alt)
  then show ?thesis
    using assms True ml_trim_entries[OF assms True]
    by (auto simp: ml_rel_def ml_trim_def Let_def al_tail_def)
next
  case False
  then have "unat pos \<le> al_trim a"
    using assms by (simp add: ml_rel_def word_less_nat_alt)
  then show ?thesis
    using assms False by (simp add: ml_trim_def max_absorb1)
qed

lemma ml_append_rel:
  assumes "ml_rel l a" "\<not> al_sealed a" "Suc (al_tail a) < 2 ^ 64"
  shows "fst (ml_append e l) = Inr (of_nat (al_tail a)) \<and> ml_rel (snd (ml_append e l)) (al_push e a)"
  using assms ml_tail_rel[OF assms(1)]
  by (auto simp: ml_append_def ml_rel_def nth_append Let_def al_tail_def)

interpretation memory: loglet memory_ops ml_rel
proof unfold_locales
  fix l a and e :: entry and p :: LogPos
  assume rel: "ml_rel l a"
  note u = ml_tail_unat[OF rel]
  have t: "unat (ml_trim_pos l) = al_trim a" using rel by (simp add: ml_rel_def)
  show "1 \<le> al_trim a \<and> al_tail a < 2 ^ 64" using rel by (simp add: ml_rel_def)
  show "lg_check_tail memory_ops l = Inr (of_nat (al_tail a))"
    by (simp add: ml_check_tail_def ml_tail_rel[OF rel])
  show "\<exists>q. lg_read memory_ops p l = Inl (Trimmed q)" if "unat p < al_trim a"
    using that t by (simp add: ml_read_def word_less_nat_alt)
  show "lg_read memory_ops p l = Inr None" if "al_trim a \<le> unat p" "al_tail a \<le> unat p"
    using that t u by (simp add: ml_read_def word_less_nat_alt word_le_nat_alt)
  show "lg_read memory_ops p l = Inr (Some (al_at a (unat p)))"
    if "al_trim a \<le> unat p" "unat p < al_tail a"
    using that t u rel
    by (auto simp: ml_read_def word_less_nat_alt word_le_nat_alt ml_rel_def ml_index_unat al_at_def al_tail_def)
  show "\<exists>l'. lg_trim memory_ops p l = (Inr (), l') \<and> ml_rel l' (a\<lparr>al_trim := max (al_trim a) (unat p)\<rparr>)"
    using ml_trim_rel[OF rel, of p] by (cases "ml_trim p l") auto
  show "\<exists>l'. lg_append memory_ops e l = Some (Inr (of_nat (al_tail a)), l') \<and> ml_rel l' (al_push e a)"
    if "\<not> al_sealed a" "Suc (al_tail a) < 2 ^ 64"
    using ml_append_rel[OF rel that, of e] by (cases "ml_append e l") auto
  show "\<exists>l'. lg_seal memory_ops l = (Inr (of_nat (al_tail a)), l') \<and> ml_rel l' (a\<lparr>al_sealed := True\<rparr>)"
    using rel ml_tail_rel[OF rel] by (auto simp: ml_seal_def ml_rel_def al_tail_def)
  show "\<exists>t l'. lg_append memory_ops e l = Some (Inl (Sealed t), l') \<and> ml_rel l' a" if "al_sealed a"
    using rel that by (auto simp: ml_append_def ml_rel_def Let_def)
qed

text \<open>\<open>trim\<close> is not bounded by the tail, which is why the contract asks for a position up to it: after a trim
  beyond the tail the next append is acknowledged and its entry cannot be read.\<close>

lemma trim_beyond_tail:
  assumes "ml_trim_pos l < p" "ml_tail l < p" "\<not> ml_sealed l"
  shows "\<exists>l'. ml_append e (snd (ml_trim p l)) = (Inr (ml_tail l), l') \<and> ml_read (ml_tail l) l' = Inl (Trimmed (ml_tail l))"
  using assms by (simp add: ml_trim_def ml_append_def ml_read_def ml_tail_def Let_def)

end
