(* ===== verification/Chain.thy ===== *)
theory Chain
  imports Core
begin

text \<open>
  \<open>LogChain\<close> (\<open>relos-log/src/chain.rs\<close>): the ordered segments that map ranges of global positions
  to loglets. A well-formed chain starts at the first position, each segment starts where the one
  before it ends, and only the last one is open; then every position belongs to exactly one
  segment.
\<close>

section \<open>Segments and chains\<close>

record chain_segment =
  loglet_id :: string
  start_pos :: LogPos
  end_pos :: "LogPos option"

record log_chain =
  segments :: "chain_segment list"

definition chain_new :: "string \<Rightarrow> log_chain" where
  "chain_new initial_loglet_id =
     \<lparr>segments = [\<lparr>loglet_id = initial_loglet_id, start_pos = LOG_POS_BEGIN, end_pos = None\<rparr>]\<rparr>"

definition active_segment :: "log_chain \<Rightarrow> chain_segment option" where
  "active_segment c =
     (case rev (segments c) of
        [] \<Rightarrow> None
      | s # _ \<Rightarrow> (if end_pos s = None then Some s else None))"

definition in_segment :: "LogPos \<Rightarrow> chain_segment \<Rightarrow> bool" where
  "in_segment pos s \<longleftrightarrow>
     pos \<ge> start_pos s \<and> (case end_pos s of Some e \<Rightarrow> pos < e | None \<Rightarrow> True)"

definition find_segment :: "log_chain \<Rightarrow> LogPos \<Rightarrow> chain_segment option" where
  "find_segment c pos = find (in_segment pos) (segments c)"

text \<open>\<open>extend\<close> closes the last segment if it is open, then appends a new open one.\<close>

definition close_last :: "LogPos \<Rightarrow> chain_segment list \<Rightarrow> chain_segment list" where
  "close_last p ss =
     (case rev ss of
        [] \<Rightarrow> []
      | s # r \<Rightarrow> (if end_pos s = None then rev r @ [s\<lparr>end_pos := Some p\<rparr>] else ss))"

definition chain_extend :: "LogPos \<Rightarrow> string \<Rightarrow> log_chain \<Rightarrow> log_chain" where
  "chain_extend seal_pos new_loglet_id c =
     c\<lparr>segments := close_last seal_pos (segments c) @
         [\<lparr>loglet_id = new_loglet_id, start_pos = seal_pos, end_pos = None\<rparr>]\<rparr>"

fun contiguous :: "LogPos \<Rightarrow> chain_segment list \<Rightarrow> bool" where
  "contiguous p [] = False"
| "contiguous p [s] = (start_pos s = p \<and> end_pos s = None)"
| "contiguous p (s # t # ss) =
     (start_pos s = p \<and>
      (case end_pos s of None \<Rightarrow> False | Some e \<Rightarrow> p \<le> e \<and> contiguous e (t # ss)))"

definition chain_ok :: "log_chain \<Rightarrow> bool" where
  "chain_ok c \<longleftrightarrow> contiguous LOG_POS_BEGIN (segments c)"

section \<open>Facts\<close>

lemma active_segment_snoc:
  "active_segment \<lparr>segments = ss @ [s]\<rparr> = (if end_pos s = None then Some s else None)"
  by (simp add: active_segment_def)

lemma close_last_snoc:
  "close_last p (ss @ [s]) = ss @ [if end_pos s = None then s\<lparr>end_pos := Some p\<rparr> else s]"
  by (simp add: close_last_def)

lemma close_last_Cons: "ss \<noteq> [] \<Longrightarrow> close_last p (s # ss) = s # close_last p ss"
  using close_last_snoc[of p "s # butlast ss" "last ss"] close_last_snoc[of p "butlast ss" "last ss"]
  by simp

lemma close_last_empty_iff: "close_last p ss = [] \<longleftrightarrow> ss = []"
  by (cases ss rule: rev_cases) (simp_all add: close_last_snoc, simp add: close_last_def)

lemma contiguous_nonempty: "contiguous p ss \<Longrightarrow> ss \<noteq> []"
  by (cases ss) auto

lemma contiguous_last: "contiguous p ss \<Longrightarrow> end_pos (last ss) = None"
  by (induction p ss rule: contiguous.induct) (auto split: option.splits)

lemma contiguous_start: "contiguous p ss \<Longrightarrow> s \<in> set ss \<Longrightarrow> p \<le> start_pos s"
  by (induction p ss rule: contiguous.induct) (auto split: option.splits)

lemma contiguous_active:
  assumes "contiguous p ss"
  shows "active_segment \<lparr>segments = ss\<rparr> = Some (last ss)"
  using active_segment_snoc[of "butlast ss" "last ss"] contiguous_last[OF assms]
    contiguous_nonempty[OF assms] by simp

lemma contiguous_extend:
  assumes "contiguous p ss" "start_pos (last ss) \<le> q"
  shows "contiguous p (close_last q ss @ [\<lparr>loglet_id = i, start_pos = q, end_pos = None\<rparr>])"
  using assms
proof (induction p ss rule: contiguous.induct)
  case (2 p s)
  then show ?case using close_last_snoc[of q "[]" s] by simp
next
  case (3 p s t ss)
  then obtain e where e: "end_pos s = Some e" "p \<le> e" "contiguous e (t # ss)"
    by (auto split: option.splits)
  have c: "close_last q (s # t # ss) = s # close_last q (t # ss)"
    by (simp add: close_last_Cons)
  obtain h r where "close_last q (t # ss) = h # r"
    using close_last_empty_iff[of q "t # ss"] by (cases "close_last q (t # ss)") auto
  with 3 e c show ?case by simp
qed simp

text \<open>Positions below the first start belong to no segment; the others to exactly one.\<close>

lemma contiguous_find:
  assumes "contiguous p ss" "p \<le> q"
  shows "\<exists>us s vs. ss = us @ s # vs \<and> in_segment q s \<and> (\<forall>u \<in> set us \<union> set vs. \<not> in_segment q u)"
  using assms
proof (induction p ss rule: contiguous.induct)
  case (2 p s)
  then have "[s] = [] @ s # []" "in_segment q s"
    by (auto simp: in_segment_def)
  then show ?case by fastforce
next
  case (3 p s t ss)
  then obtain e where e: "start_pos s = p" "end_pos s = Some e" "p \<le> e" "contiguous e (t # ss)"
    by (auto split: option.splits)
  show ?case
  proof (cases "q < e")
    case True
    have "\<not> in_segment q u" if "u \<in> set (t # ss)" for u
      using contiguous_start[OF e(4) that] True by (auto simp: in_segment_def)
    moreover have "in_segment q s"
      using True e 3 by (simp add: in_segment_def)
    ultimately show ?thesis
      by (intro exI[of _ "[]"] exI[of _ s] exI[of _ "t # ss"]) auto
  next
    case False
    then have "\<not> in_segment q s" using e by (simp add: in_segment_def)
    moreover obtain us r vs where "t # ss = us @ r # vs" "in_segment q r"
      "\<forall>u \<in> set us \<union> set vs. \<not> in_segment q u"
      using "3.IH"[OF e(2) e(4)] False by (auto simp: not_less)
    ultimately show ?thesis
      by (intro exI[of _ "s # us"] exI[of _ r] exI[of _ vs]) auto
  qed
qed simp

lemma find_segment_unique:
  assumes "ss = us @ s # vs" "in_segment q s" "\<forall>u \<in> set us \<union> set vs. \<not> in_segment q u"
  shows "find (in_segment q) ss = Some s"
  using assms by (induction us arbitrary: ss) auto

section \<open>Properties\<close>

text \<open>C26. A chain grown by any sequence of reconfigurations, each sealing at or after the start of
  the segment that was active, stays well formed, and the segment it appended is the active one.\<close>

theorem extend_keeps_chain_ok:
  assumes "chain_ok c" and "active_segment c = Some s" and "start_pos s \<le> p"
  shows "chain_ok (chain_extend p i c) \<and>
         active_segment (chain_extend p i c) = Some \<lparr>loglet_id = i, start_pos = p, end_pos = None\<rparr>"
proof -
  obtain ss where c: "c = \<lparr>segments = ss\<rparr>" by (cases c)
  with assms contiguous_active[of LOG_POS_BEGIN ss] have "s = last ss"
    by (simp add: chain_ok_def)
  with assms c show ?thesis
    using contiguous_extend[of LOG_POS_BEGIN ss p i] by (simp add: chain_ok_def chain_extend_def active_segment_def)
qed

theorem extend_keeps_chain_ok_witness:
  "chain_ok (chain_extend 5 ''loglet-1'' (chain_new ''loglet-0'')) \<and>
   map end_pos (segments (chain_extend 5 ''loglet-1'' (chain_new ''loglet-0''))) = [Some 5, None]"
  using extend_keeps_chain_ok[of "chain_new ''loglet-0''"
      "\<lparr>loglet_id = ''loglet-0'', start_pos = LOG_POS_BEGIN, end_pos = None\<rparr>" 5 "''loglet-1''"]
  by (simp add: chain_ok_def chain_new_def active_segment_def LOG_POS_BEGIN_def chain_extend_def close_last_def)

text \<open>In a well-formed chain every position from the first one on lies in exactly one segment,
  and \<open>find_segment\<close> returns that one; position 0 lies in none.\<close>

theorem find_segment_partition:
  assumes "chain_ok c"
  shows "(LOG_POS_BEGIN \<le> pos \<longrightarrow> (\<exists>us s vs. segments c = us @ s # vs \<and> find_segment c pos = Some s \<and>
            in_segment pos s \<and> (\<forall>u \<in> set us \<union> set vs. \<not> in_segment pos u))) \<and>
         (pos < LOG_POS_BEGIN \<longrightarrow> find_segment c pos = None)"
proof (intro conjI impI)
  assume "LOG_POS_BEGIN \<le> pos"
  from contiguous_find[OF assms[unfolded chain_ok_def] this] obtain us s vs where
    *: "segments c = us @ s # vs" "in_segment pos s" "\<forall>u \<in> set us \<union> set vs. \<not> in_segment pos u"
    by blast
  with find_segment_unique[OF *] show "\<exists>us s vs. segments c = us @ s # vs \<and>
      find_segment c pos = Some s \<and> in_segment pos s \<and> (\<forall>u \<in> set us \<union> set vs. \<not> in_segment pos u)"
    by (auto simp: find_segment_def)
next
  assume "pos < LOG_POS_BEGIN"
  then have "\<not> in_segment pos s" if "s \<in> set (segments c)" for s
    using contiguous_start[OF _ that] assms by (force simp: chain_ok_def in_segment_def)
  then show "find_segment c pos = None"
    by (auto simp: find_segment_def find_None_iff)
qed

theorem find_segment_partition_witness:
  "find_segment (chain_extend 5 ''loglet-1'' (chain_new ''loglet-0'')) 4 \<noteq> None \<and>
   find_segment (chain_extend 5 ''loglet-1'' (chain_new ''loglet-0'')) 0 = None"
proof -
  have ok: "chain_ok (chain_extend 5 ''loglet-1'' (chain_new ''loglet-0''))"
    by (simp add: chain_ok_def chain_new_def LOG_POS_BEGIN_def chain_extend_def close_last_def)
  show ?thesis
    using find_segment_partition[OF ok, of 4] find_segment_partition[OF ok, of 0]
    by (auto simp: LOG_POS_BEGIN_def)
qed

end
