(* ===== verification/Meta_Store.thy ===== *)
theory Meta_Store
  imports Chain
begin

text \<open>
  \<open>MetaStore\<close> (\<open>relos-log/src/metastore.rs\<close>): a register that holds the current chain and a version
  number, written by compare-and-swap on the version. The trait is the locale \<open>meta_register\<close>, the
  in-memory implementation its interpretation.
\<close>

section \<open>State and operations\<close>

record memory_meta_store =
  ms_chain :: log_chain
  ms_version :: u64

definition meta_new :: "log_chain \<Rightarrow> memory_meta_store" where
  "meta_new initial_chain = \<lparr>ms_chain = initial_chain, ms_version = 0\<rparr>"

definition meta_read :: "memory_meta_store \<Rightarrow> (log_chain \<times> u64) result" where
  "meta_read m = Inr (ms_chain m, ms_version m)"

definition meta_write ::
  "log_chain \<Rightarrow> u64 \<Rightarrow> memory_meta_store \<Rightarrow> bool result \<times> memory_meta_store" where
  "meta_write c expected_version m =
     (if ms_version m \<noteq> expected_version then (Inr False, m)
      else (Inr True, m\<lparr>ms_chain := c, ms_version := ms_version m + 1\<rparr>))"

text \<open>A sequence of writes by competing clients, with the outcome of each.\<close>

fun write_all :: "('c \<Rightarrow> u64 \<Rightarrow> 'm \<Rightarrow> bool result \<times> 'm) \<Rightarrow> ('c \<times> u64) list \<Rightarrow> 'm \<Rightarrow> bool result list \<times> 'm" where
  "write_all w [] m = ([], m)"
| "write_all w (x # xs) m =
     (case w (fst x) (snd x) m of (r, m') \<Rightarrow>
        (case write_all w xs m' of (rs, m'') \<Rightarrow> (r # rs, m'')))"

section \<open>The interface\<close>

locale meta_register =
  fixes rd :: "'m \<Rightarrow> ('c \<times> u64) result"
    and wr :: "'c \<Rightarrow> u64 \<Rightarrow> 'm \<Rightarrow> bool result \<times> 'm"
  assumes rd_total: "\<exists>c v. rd m = Inr (c, v)"
    and wr_match: "rd m = Inr (c, v) \<Longrightarrow> \<exists>m'. wr c' v m = (Inr True, m') \<and> rd m' = Inr (c', v + 1)"
    and wr_stale: "rd m = Inr (c, v) \<Longrightarrow> v' \<noteq> v \<Longrightarrow> wr c' v' m = (Inr False, m)"
begin

lemma stale_writes:
  "rd m = Inr (c, v) \<Longrightarrow> \<forall>x \<in> set xs. snd x \<noteq> v \<Longrightarrow>
   write_all wr xs m = (replicate (length xs) (Inr False), m)"
  by (induction xs) (auto simp: wr_stale)

text \<open>Compare-and-swap elects one winner: of any number of writes that expect the current
  version, the first succeeds, every other fails, and the winner's chain is what remains.\<close>

lemma one_winner:
  assumes "rd m = Inr (c, v)" "\<forall>x \<in> set ((c', v) # xs). snd x = v"
  shows "\<exists>m'. write_all wr ((c', v) # xs) m = (Inr True # replicate (length xs) (Inr False), m') \<and>
           rd m' = Inr (c', v + 1)"
proof -
  from wr_match[OF assms(1)] obtain m' where
    m': "wr c' v m = (Inr True, m')" "rd m' = Inr (c', v + 1)" by blast
  have "\<forall>x \<in> set xs. snd x \<noteq> v + 1"
    using assms(2) by auto
  with stale_writes[OF m'(2)] m' show ?thesis by simp
qed

end

interpretation meta: meta_register meta_read meta_write
  by unfold_locales (auto simp: meta_read_def meta_write_def)

section \<open>Properties\<close>

text \<open>C27. Of any number of competing reconfigurations that read the same version, exactly the first
  write succeeds; the others leave the register alone, and it then holds the winner's chain under
  the next version.\<close>

theorem cas_one_winner:
  assumes "meta_read m = Inr (c, v)" and "\<forall>x \<in> set xs. snd x = v"
  shows "\<exists>m'. write_all meta_write ((c', v) # xs) m =
                (Inr True # replicate (length xs) (Inr False), m') \<and>
              meta_read m' = Inr (c', v + 1)"
  using meta.one_winner[OF assms(1), of c' xs] assms(2) by simp

theorem cas_one_winner_witness:
  "\<exists>m'. write_all meta_write [(chain_new ''a'', 0), (chain_new ''b'', 0), (chain_new ''c'', 0)]
          (meta_new (chain_new ''x'')) = ([Inr True, Inr False, Inr False], m') \<and>
        meta_read m' = Inr (chain_new ''a'', 1)"
  using cas_one_winner[of "meta_new (chain_new ''x'')" "chain_new ''x''" 0
      "[(chain_new ''b'', 0), (chain_new ''c'', 0)]" "chain_new ''a''"]
  by (simp add: meta_new_def meta_read_def)

end
