(* ===== verification/Virtual_Log.thy ===== *)
theory Virtual_Log
  imports Loglet Meta_Store
begin

text \<open>
  \<open>VirtualLog\<close> (\<open>relos-log/src/virtual_log.rs\<close>) chains loglets into one log. Its state is the chain
  and version it last saw, the loglets it has instantiated (by identifier), and the shared
  MetaStore. The loglet operations (\<open>dyn Loglet\<close>) and the factory (\<open>dyn LogletFactory\<close>) are
  arguments. \<open>append\<close> retries after each reconfiguration, so it is a partial function whose result
  \<open>None\<close> means that it does not return.

  The operations are modelled as one task runs them; \<open>chained_log\<close> proves that a virtual log over
  loglets that meet their contract is again such a log, whatever the number of segments.
\<close>

section \<open>State\<close>

record 'l virtual_log =
  vl_meta :: memory_meta_store
  vl_chain :: log_chain
  vl_version :: u64
  vl_loglets :: "string \<rightharpoonup> 'l"

type_synonym 'l factory = "string \<Rightarrow> 'l result"

section \<open>Operations\<close>

definition local_to_global :: "LogPos \<Rightarrow> LogPos \<Rightarrow> LogPos" where
  "local_to_global segment_start local_pos = segment_start + local_pos - 1"

definition global_to_local :: "LogPos \<Rightarrow> LogPos \<Rightarrow> LogPos" where
  "global_to_local segment_start global_pos = global_pos - segment_start + 1"

definition loglet_name :: "nat \<Rightarrow> string" where
  "loglet_name n = ''loglet-'' @ decimal n"

definition generate_loglet_id :: "log_chain \<Rightarrow> string" where
  "generate_loglet_id c = loglet_name (length (segments c))"

fun create_all :: "'l factory \<Rightarrow> chain_segment list \<Rightarrow> (string \<rightharpoonup> 'l) \<Rightarrow> (string \<rightharpoonup> 'l) result" where
  "create_all create [] ls = Inr ls"
| "create_all create (s # ss) ls =
     and_then (create (loglet_id s)) (\<lambda>l. create_all create ss (ls(loglet_id s \<mapsto> l)))"

definition vl_new :: "'l factory \<Rightarrow> memory_meta_store \<Rightarrow> 'l virtual_log result" where
  "vl_new create m =
     and_then (meta_read m) (\<lambda>(chain, version).
     and_then (create_all create (segments chain) Map.empty) (\<lambda>ls.
     Inr \<lparr>vl_meta = m, vl_chain = chain, vl_version = version, vl_loglets = ls\<rparr>))"

text \<open>The active loglet is returned with its identifier, under which the updated state is stored:
  the source holds a reference to it.\<close>

definition get_active_loglet :: "'l virtual_log \<Rightarrow> (string \<times> 'l \<times> LogPos) result" where
  "get_active_loglet v =
     and_then (ok_or (Internal ''no active segment in chain'') (active_segment (vl_chain v))) (\<lambda>s.
     and_then (ok_or (Internal (''active loglet '' @ loglet_id s @ '' not found''))
                 (vl_loglets v (loglet_id s))) (\<lambda>l.
     Inr (loglet_id s, l, start_pos s)))"

definition put_loglet :: "string \<Rightarrow> 'l \<Rightarrow> 'l virtual_log \<Rightarrow> 'l virtual_log" where
  "put_loglet i l v = v\<lparr>vl_loglets := (vl_loglets v)(i \<mapsto> l)\<rparr>"

text \<open>The loglets inserted before a failing \<open>create\<close> stay inserted.\<close>

fun sync_loglets :: "'l factory \<Rightarrow> chain_segment list \<Rightarrow> (string \<rightharpoonup> 'l) \<Rightarrow> unit result \<times> (string \<rightharpoonup> 'l)" where
  "sync_loglets create [] ls = (Inr (), ls)"
| "sync_loglets create (s # ss) ls =
     (if ls (loglet_id s) = None then
        (case create (loglet_id s) of
           Inl err \<Rightarrow> (Inl err, ls)
         | Inr l \<Rightarrow> sync_loglets create ss (ls(loglet_id s \<mapsto> l)))
      else sync_loglets create ss ls)"

definition sync_chain :: "'l factory \<Rightarrow> 'l virtual_log \<Rightarrow> unit result \<times> 'l virtual_log" where
  "sync_chain create v =
     (case meta_read (vl_meta v) of
        Inl err \<Rightarrow> (Inl err, v)
      | Inr (new_chain, new_version) \<Rightarrow>
          (case sync_loglets create (segments new_chain) (vl_loglets v) of
             (Inl err, ls) \<Rightarrow> (Inl err, v\<lparr>vl_loglets := ls\<rparr>)
           | (Inr _, ls) \<Rightarrow>
               (Inr (), v\<lparr>vl_loglets := ls, vl_chain := new_chain, vl_version := new_version\<rparr>)))"

definition reconfigure ::
  "'l loglet_ops \<Rightarrow> 'l factory \<Rightarrow> 'l virtual_log \<Rightarrow> unit result \<times> 'l virtual_log" where
  "reconfigure ops create v =
     (case get_active_loglet v of
        Inl err \<Rightarrow> (Inl err, v)
      | Inr (i, l, start) \<Rightarrow>
          (case lg_seal ops l of
             (Inl err, l') \<Rightarrow> (Inl err, put_loglet i l' v)
           | (Inr local_tail, l') \<Rightarrow>
               (let v1 = put_loglet i l' v;
                    global_seal_pos = local_to_global start local_tail;
                    version = vl_version v1;
                    new_loglet_id = generate_loglet_id (vl_chain v1);
                    new_chain = chain_extend global_seal_pos new_loglet_id (vl_chain v1)
                in case meta_write new_chain version (vl_meta v1) of
                     (Inl err, m') \<Rightarrow> (Inl err, v1\<lparr>vl_meta := m'\<rparr>)
                   | (Inr success, m') \<Rightarrow>
                       (let v2 = v1\<lparr>vl_meta := m'\<rparr> in
                        if success then
                          (case create new_loglet_id of
                             Inl err \<Rightarrow> (Inl err, v2)
                           | Inr new_loglet \<Rightarrow>
                               (Inr (), (put_loglet new_loglet_id new_loglet v2)
                                  \<lparr>vl_chain := new_chain, vl_version := version + 1\<rparr>))
                        else sync_chain create v2))))"

partial_function (option) vl_append ::
  "'l loglet_ops \<Rightarrow> 'l factory \<Rightarrow> entry \<Rightarrow> 'l virtual_log \<Rightarrow> (LogPos result \<times> 'l virtual_log) option" where
  "vl_append ops create e v =
     (case get_active_loglet v of
        Inl err \<Rightarrow> Some (Inl err, v)
      | Inr (i, l, start) \<Rightarrow>
          (case lg_append ops e l of
             None \<Rightarrow> None
           | Some (Inr local_pos, l') \<Rightarrow>
               Some (Inr (local_to_global start local_pos), put_loglet i l' v)
           | Some (Inl err, l') \<Rightarrow>
               (if is_Sealed err then
                  (case reconfigure ops create (put_loglet i l' v) of
                     (Inl err', v') \<Rightarrow> Some (Inl err', v')
                   | (Inr _, v') \<Rightarrow> vl_append ops create e v')
                else Some (Inl err, put_loglet i l' v))))"

declare vl_append.simps [code]

definition vl_check_tail :: "'l loglet_ops \<Rightarrow> 'l virtual_log \<Rightarrow> LogPos result" where
  "vl_check_tail ops v =
     and_then (get_active_loglet v) (\<lambda>(i, l, start).
     and_then (lg_check_tail ops l) (\<lambda>local_tail.
     Inr (local_to_global start local_tail)))"

definition vl_read :: "'l loglet_ops \<Rightarrow> LogPos \<Rightarrow> 'l virtual_log \<Rightarrow> entry option result" where
  "vl_read ops global_pos v =
     and_then (ok_or (Internal (''no segment found for position '' @ decimal (unat global_pos)))
                 (find_segment (vl_chain v) global_pos)) (\<lambda>s.
     and_then (ok_or (Internal (''loglet '' @ loglet_id s @ '' not found''))
                 (vl_loglets v (loglet_id s))) (\<lambda>l.
     lg_read ops (global_to_local (start_pos s) global_pos) l))"

fun trim_segments ::
  "'l loglet_ops \<Rightarrow> LogPos \<Rightarrow> chain_segment list \<Rightarrow> (string \<rightharpoonup> 'l) \<Rightarrow> unit result \<times> (string \<rightharpoonup> 'l)" where
  "trim_segments ops global_pos [] ls = (Inr (), ls)"
| "trim_segments ops global_pos (s # ss) ls =
     (let seg_end = (case end_pos s of None \<Rightarrow> - 1 | Some e \<Rightarrow> e) in
      if global_pos > start_pos s then
        (let trim_global = min global_pos seg_end;
             local_trim = global_to_local (start_pos s) trim_global
         in case ls (loglet_id s) of
              None \<Rightarrow> trim_segments ops global_pos ss ls
            | Some l \<Rightarrow>
                (case lg_trim ops local_trim l of
                   (Inl err, l') \<Rightarrow> (Inl err, ls(loglet_id s \<mapsto> l'))
                 | (Inr _, l') \<Rightarrow> trim_segments ops global_pos ss (ls(loglet_id s \<mapsto> l'))))
      else trim_segments ops global_pos ss ls)"

definition vl_trim :: "'l loglet_ops \<Rightarrow> LogPos \<Rightarrow> 'l virtual_log \<Rightarrow> unit result \<times> 'l virtual_log" where
  "vl_trim ops global_pos v =
     (case trim_segments ops global_pos (segments (vl_chain v)) (vl_loglets v) of
        (r, ls) \<Rightarrow> (r, v\<lparr>vl_loglets := ls\<rparr>))"

definition vl_seal :: "'l loglet_ops \<Rightarrow> 'l virtual_log \<Rightarrow> LogPos result \<times> 'l virtual_log" where
  "vl_seal ops v =
     (case get_active_loglet v of
        Inl err \<Rightarrow> (Inl err, v)
      | Inr (i, l, start) \<Rightarrow>
          (case lg_seal ops l of
             (Inl err, l') \<Rightarrow> (Inl err, put_loglet i l' v)
           | (Inr local_tail, l') \<Rightarrow> (Inr (local_to_global start local_tail), put_loglet i l' v)))"

text \<open>\<open>impl Loglet for VirtualLog\<close>.\<close>

definition vl_ops :: "'l loglet_ops \<Rightarrow> 'l factory \<Rightarrow> 'l virtual_log loglet_ops" where
  "vl_ops ops create = \<lparr>lg_append = vl_append ops create, lg_check_tail = vl_check_tail ops,
     lg_read = vl_read ops, lg_trim = vl_trim ops, lg_seal = vl_seal ops\<rparr>"

section \<open>The log a virtual log represents\<close>

text \<open>The segments are paired with the abstract logs of their loglets. \<open>local_trim T s n\<close> is where
  a segment of \<open>n\<close> entries that starts at \<open>s\<close> is trimmed when the whole log is trimmed at \<open>T\<close>.\<close>

definition seg_len :: "chain_segment \<times> alog \<Rightarrow> nat" where
  "seg_len x = length (al_entries (snd x))"

definition seg_id :: "chain_segment \<times> alog \<Rightarrow> string" where
  "seg_id x = loglet_id (fst x)"

definition seg_total :: "(chain_segment \<times> alog) list \<Rightarrow> nat" where
  "seg_total xs = sum_list (map seg_len xs)"

definition local_trim :: "nat \<Rightarrow> nat \<Rightarrow> nat \<Rightarrow> nat" where
  "local_trim T s n = (if T \<le> s then 1 else min T (s + n) - s + 1)"

definition seg_ok :: "('l \<Rightarrow> alog \<Rightarrow> bool) \<Rightarrow> (string \<rightharpoonup> 'l) \<Rightarrow> nat \<Rightarrow> nat \<Rightarrow> chain_segment \<times> alog \<Rightarrow> bool" where
  "seg_ok rel ls T s x \<longleftrightarrow> (\<exists>l. ls (seg_id x) = Some l \<and> rel l (snd x)) \<and>
     start_pos (fst x) = of_nat s \<and> al_trim (snd x) = local_trim T s (seg_len x)"

fun closed_segs ::
  "('l \<Rightarrow> alog \<Rightarrow> bool) \<Rightarrow> (string \<rightharpoonup> 'l) \<Rightarrow> nat \<Rightarrow> nat \<Rightarrow> (chain_segment \<times> alog) list \<Rightarrow> bool" where
  "closed_segs rel ls T s [] = True"
| "closed_segs rel ls T s (x # xs) =
     (seg_ok rel ls T s x \<and> al_sealed (snd x) \<and> end_pos (fst x) = Some (of_nat (s + seg_len x)) \<and>
      closed_segs rel ls T (s + seg_len x) xs)"

definition ids_ok :: "(chain_segment \<times> alog) list \<Rightarrow> bool" where
  "ids_ok xs \<longleftrightarrow> distinct (map seg_id xs) \<and> (\<forall>k \<ge> length xs. loglet_name k \<notin> set (map seg_id xs))"

definition vl_parts :: "('l \<Rightarrow> alog \<Rightarrow> bool) \<Rightarrow> 'l virtual_log \<Rightarrow> alog \<Rightarrow>
    (chain_segment \<times> alog) list \<Rightarrow> chain_segment \<times> alog \<Rightarrow> bool" where
  "vl_parts rel v A xs x \<longleftrightarrow>
     segments (vl_chain v) = map fst (xs @ [x]) \<and>
     closed_segs rel (vl_loglets v) (al_trim A) 1 xs \<and>
     seg_ok rel (vl_loglets v) (al_trim A) (1 + seg_total xs) x \<and> end_pos (fst x) = None \<and>
     al_entries A = concat (map (al_entries \<circ> snd) (xs @ [x])) \<and> ids_ok (xs @ [x])"

definition vl_rel :: "('l \<Rightarrow> alog \<Rightarrow> bool) \<Rightarrow> 'l virtual_log \<Rightarrow> alog \<Rightarrow> bool" where
  "vl_rel rel v A \<longleftrightarrow> (\<exists>xs x. vl_parts rel v A xs x) \<and> \<not> al_sealed A \<and>
     1 \<le> al_trim A \<and> al_trim A \<le> al_tail A \<and> al_tail A < 2 ^ 64 \<and>
     vl_meta v = \<lparr>ms_chain = vl_chain v, ms_version = vl_version v\<rparr>"

lemma vl_relI:
  assumes "vl_parts rel v A xs x" "\<not> al_sealed A" "1 \<le> al_trim A" "al_trim A \<le> al_tail A"
    "al_tail A < 2 ^ 64" "vl_meta v = \<lparr>ms_chain = vl_chain v, ms_version = vl_version v\<rparr>"
  shows "vl_rel rel v A"
  using assms unfolding vl_rel_def by blast

lemma vl_relD:
  assumes "vl_rel rel v A"
  shows "\<not> al_sealed A" "1 \<le> al_trim A" "al_trim A \<le> al_tail A" "al_tail A < 2 ^ 64"
    "vl_meta v = \<lparr>ms_chain = vl_chain v, ms_version = vl_version v\<rparr>"
  using assms by (simp_all add: vl_rel_def)

lemma put_loglet_sel [simp]:
  "vl_meta (put_loglet i l v) = vl_meta v" "vl_chain (put_loglet i l v) = vl_chain v"
  "vl_version (put_loglet i l v) = vl_version v"
  "vl_loglets (put_loglet i l v) = (vl_loglets v)(i \<mapsto> l)"
  by (simp_all add: put_loglet_def)

subsection \<open>Positions\<close>

lemma seg_total_simps [simp]:
  "seg_total [] = 0" "seg_total (x # xs) = seg_len x + seg_total xs" "seg_total (xs @ ys) = seg_total xs + seg_total ys"
  by (simp_all add: seg_total_def)

lemma length_concat_segs: "length (concat (map (al_entries \<circ> snd) xs)) = seg_total xs"
  by (induction xs) (simp_all add: seg_len_def)

lemma local_to_global_of_nat:
  "1 \<le> s \<Longrightarrow> local_to_global (of_nat s) (of_nat p) = of_nat (s + p - 1)"
  by (simp add: local_to_global_def of_nat_diff)

lemma unat_global_to_local:
  assumes "1 \<le> s" "s \<le> unat q"
  shows "unat (global_to_local (of_nat s) q) = unat q - s + 1"
proof -
  have "global_to_local (of_nat s) q = of_nat (unat q - s + 1)"
    using assms by (simp add: global_to_local_def of_nat_diff)
  moreover have "unat q - s + 1 < 2 ^ 64"
    using assms unat_u64_less[of q] by simp
  ultimately show ?thesis by (simp only: unat_of_nat_pos)
qed

lemma loglet_name_inject [simp]: "loglet_name m = loglet_name n \<longleftrightarrow> m = n"
  by (simp add: loglet_name_def)

subsection \<open>Segments\<close>

lemma closed_segs_append:
  "closed_segs rel ls T s (xs @ ys) \<longleftrightarrow> closed_segs rel ls T s xs \<and> closed_segs rel ls T (s + seg_total xs) ys"
  by (induction xs arbitrary: s) (auto simp: add.assoc)

lemma seg_ok_frame:
  "ls' (seg_id x) = ls (seg_id x) \<Longrightarrow> seg_ok rel ls' T s x = seg_ok rel ls T s x"
  by (simp add: seg_ok_def)

lemma closed_segs_frame:
  "\<forall>x \<in> set xs. ls' (seg_id x) = ls (seg_id x) \<Longrightarrow> closed_segs rel ls' T s xs = closed_segs rel ls T s xs"
  by (induction xs arbitrary: s) (simp_all add: seg_ok_def)

lemma closed_segs_upd:
  "i \<notin> set (map seg_id xs) \<Longrightarrow> closed_segs rel (ls(i \<mapsto> l)) T s xs = closed_segs rel ls T s xs"
  by (rule closed_segs_frame) auto

lemma in_closed_seg:
  assumes "start_pos (fst x) = of_nat s" "end_pos (fst x) = Some (of_nat e)" "s < 2 ^ 64" "e < 2 ^ 64"
  shows "in_segment q (fst x) \<longleftrightarrow> s \<le> unat q \<and> unat q < e"
  using assms by (simp add: in_segment_def word_le_nat_alt word_less_nat_alt unat_of_nat_pos)

lemma find_closed:
  assumes "closed_segs rel ls T s xs" "s \<le> unat q" "s + seg_total xs < 2 ^ 64"
  shows "(\<exists>us x vs. xs = us @ x # vs \<and> find (in_segment q) (map fst xs @ r) = Some (fst x) \<and>
            s + seg_total us \<le> unat q \<and> unat q < s + seg_total us + seg_len x \<and>
            seg_ok rel ls T (s + seg_total us) x) \<or>
         s + seg_total xs \<le> unat q \<and> find (in_segment q) (map fst xs @ r) = find (in_segment q) r"
  using assms
proof (induction xs arbitrary: s)
  case Nil
  then show ?case by simp
next
  case (Cons x xs)
  then have ok: "seg_ok rel ls T s x" and cl: "closed_segs rel ls T (s + seg_len x) xs"
    by simp_all
  have i: "in_segment q (fst x) \<longleftrightarrow> s \<le> unat q \<and> unat q < s + seg_len x"
    using Cons.prems by (intro in_closed_seg) (simp_all add: seg_ok_def)
  show ?case
  proof (cases "unat q < s + seg_len x")
    case True
    with i ok Cons.prems show ?thesis
      by (intro disjI1 exI[of _ "[]"] exI[of _ x] exI[of _ xs]) simp
  next
    case False
    then have n: "\<not> in_segment q (fst x)" and le: "s + seg_len x \<le> unat q"
      using i by auto
    have b: "s + seg_len x + seg_total xs < 2 ^ 64" using Cons.prems by simp
    from Cons.IH[OF cl le b] show ?thesis
    proof (elim disjE exE conjE)
      fix us y vs
      assume "xs = us @ y # vs" "find (in_segment q) (map fst xs @ r) = Some (fst y)"
        "s + seg_len x + seg_total us \<le> unat q" "unat q < s + seg_len x + seg_total us + seg_len y"
        "seg_ok rel ls T (s + seg_len x + seg_total us) y"
      with n show ?thesis
        by (intro disjI1 exI[of _ "x # us"] exI[of _ y] exI[of _ vs]) (simp add: add.assoc)
    qed (use n in simp)
  qed
qed

lemma nth_concat_segs:
  "i < seg_len x \<Longrightarrow>
   concat (map (al_entries \<circ> snd) (us @ x # vs)) ! (seg_total us + i) = al_entries (snd x) ! i"
  by (simp add: nth_append length_concat_segs[unfolded comp_def] comp_def seg_len_def)

lemma local_trim_max:
  "local_trim (max T g) s n = (if s < g then max (local_trim T s n) (min g (s + n) - s + 1) else local_trim T s n)"
  by (auto simp: local_trim_def max_def min_def)

lemma local_trim_le: "local_trim T s n \<le> Suc n"
  by (auto simp: local_trim_def min_def)

lemma local_trim_at:
  "s \<le> q \<Longrightarrow> q < s + n \<Longrightarrow> local_trim T s n \<le> q - s + 1 \<longleftrightarrow> T \<le> q"
  by (auto simp: local_trim_def min_def)

lemma local_trim_open:
  "1 \<le> s \<Longrightarrow> T \<le> s + n \<Longrightarrow> s + n \<le> q \<Longrightarrow> local_trim T s n \<le> q - s + 1"
  by (auto simp: local_trim_def min_def)

lemma local_trim_grow: "T \<le> s + n \<Longrightarrow> local_trim T s (Suc n) = local_trim T s n"
  by (auto simp: local_trim_def min_def)

section \<open>A virtual log over loglets that meet their contract\<close>

locale chained_log = loglet ops rel for ops :: "'l loglet_ops" and rel :: "'l \<Rightarrow> alog \<Rightarrow> bool" +
  fixes create :: "'l factory"
  assumes create_fresh: "\<exists>l. create i = Inr l \<and> rel l alog_new"
begin

lemma parts_active:
  assumes "vl_parts rel v A xs x"
  shows "\<exists>l. get_active_loglet v = Inr (seg_id x, l, of_nat (1 + seg_total xs)) \<and> rel l (snd x)"
proof -
  obtain l where "vl_loglets v (seg_id x) = Some l" "rel l (snd x)"
    using assms by (auto simp: vl_parts_def seg_ok_def)
  moreover have "active_segment (vl_chain v) = Some (fst x)"
    using assms by (cases "vl_chain v") (simp add: vl_parts_def active_segment_def)
  ultimately show ?thesis
    using assms by (simp add: get_active_loglet_def vl_parts_def seg_ok_def seg_id_def)
qed

lemma parts_tail:
  "vl_parts rel v A xs x \<Longrightarrow> al_tail A = 1 + seg_total xs + seg_len x"
  by (simp add: vl_parts_def al_tail_def length_concat_segs[unfolded comp_def] comp_def seg_len_def)

lemma parts_global:
  "vl_parts rel v A xs x \<Longrightarrow>
   local_to_global (of_nat (1 + seg_total xs)) (of_nat (al_tail (snd x))) = of_nat (al_tail A)"
  by (subst local_to_global_of_nat) (simp_all add: parts_tail, simp add: al_tail_def seg_len_def)

text \<open>Replacing the state of the active loglet touches no other segment.\<close>

lemma parts_put:
  assumes "vl_parts rel v A xs x" "rel l a" "al_trim a = local_trim (al_trim A) (1 + seg_total xs) (length (al_entries a))"
    "al_trim A' = al_trim A" "al_entries A' = concat (map (al_entries \<circ> snd) xs) @ al_entries a"
  shows "vl_parts rel (put_loglet (seg_id x) l v) A' xs (fst x, a)"
proof -
  have "seg_id x \<notin> set (map seg_id xs)"
    using assms(1) by (auto simp: vl_parts_def ids_ok_def)
  then show ?thesis
    using assms by (auto simp: vl_parts_def put_loglet_def closed_segs_upd seg_ok_def seg_len_def seg_id_def ids_ok_def)
qed

lemma append_active_open:
  assumes "vl_rel rel v A" "vl_parts rel v A xs x" "\<not> al_sealed (snd x)" "Suc (al_tail A) < 2 ^ 64"
  shows "\<exists>v'. vl_append ops create e v = Some (Inr (of_nat (al_tail A)), v') \<and> vl_rel rel v' (al_push e A)"
proof -
  obtain l where l: "get_active_loglet v = Inr (seg_id x, l, of_nat (1 + seg_total xs))" "rel l (snd x)"
    using parts_active[OF assms(2)] by blast
  have "Suc (al_tail (snd x)) < 2 ^ 64"
    using assms(4) parts_tail[OF assms(2)] by (simp add: al_tail_def seg_len_def)
  then obtain l' where l': "lg_append ops e l = Some (Inr (of_nat (al_tail (snd x))), l')"
      "rel l' (al_push e (snd x))"
    using append_open[OF l(2) assms(3), of e] by blast
  have "al_trim A \<le> 1 + seg_total xs + seg_len x"
    using assms(1) parts_tail[OF assms(2)] by (simp add: vl_rel_def)
  then have "al_trim (al_push e (snd x)) =
      local_trim (al_trim A) (1 + seg_total xs) (length (al_entries (al_push e (snd x))))"
    using assms(2) by (simp add: vl_parts_def seg_ok_def local_trim_grow seg_len_def)
  then have "vl_parts rel (put_loglet (seg_id x) l' v) (al_push e A) xs (fst x, al_push e (snd x))"
    using assms(2) l'(2) by (intro parts_put) (simp_all add: vl_parts_def)
  then have "vl_rel rel (put_loglet (seg_id x) l' v) (al_push e A)"
    by (rule vl_relI) (use vl_relD[OF assms(1)] assms(4) in simp_all)
  then show ?thesis
    using l(1) l'(1) parts_global[OF assms(2)] by (subst vl_append.simps) simp
qed

text \<open>Changing loglets without changing the logs they stand for.\<close>

lemma parts_keep:
  assumes "vl_parts rel v A xs x" "\<forall>z \<in> set (xs @ [x]). \<exists>l. vl_loglets v' (seg_id z) = Some l \<and> rel l (snd z)"
    "vl_chain v' = vl_chain v"
  shows "vl_parts rel v' A xs x"
proof -
  have "closed_segs rel (vl_loglets v') T s ys"
    if "closed_segs rel (vl_loglets v) T s ys" "set ys \<subseteq> set xs" for T s ys
    using that assms(2) by (induction ys arbitrary: s) (auto simp: seg_ok_def)
  then show ?thesis using assms by (auto simp: vl_parts_def seg_ok_def)
qed

lemma parts_loglets:
  assumes "vl_parts rel v A xs x" "z \<in> set (xs @ [x])"
  shows "\<exists>l. vl_loglets v (seg_id z) = Some l \<and> rel l (snd z)"
proof -
  have "\<exists>l. vl_loglets v (seg_id z) = Some l \<and> rel l (snd z)"
    if "closed_segs rel (vl_loglets v) T s ys" "z \<in> set ys" for T s ys
    using that by (induction ys arbitrary: s) (auto simp: seg_ok_def)
  then show ?thesis using assms by (auto simp: vl_parts_def seg_ok_def)
qed

lemma parts_insert:
  assumes "vl_parts rel v A xs x" "n \<notin> set (map seg_id (xs @ [x]))"
  shows "vl_parts rel (put_loglet n l v) A xs x"
proof (rule parts_keep[OF assms(1)])
  show "\<forall>z \<in> set (xs @ [x]). \<exists>l'. vl_loglets (put_loglet n l v) (seg_id z) = Some l' \<and> rel l' (snd z)"
  proof
    fix z assume z: "z \<in> set (xs @ [x])"
    then have "seg_id z \<noteq> n" using assms(2) by force
    with parts_loglets[OF assms(1) z] show "\<exists>l'. vl_loglets (put_loglet n l v) (seg_id z) = Some l' \<and> rel l' (snd z)"
      by simp
  qed
qed simp

text \<open>Installing the next chain, once the new loglet is in the map.\<close>

lemma parts_extend:
  assumes "vl_parts rel v A xs x" "al_trim A \<le> al_tail A" "al_sealed (snd x)" "n = generate_loglet_id (vl_chain v)"
    "vl_loglets v n = Some l" "rel l alog_new"
  defines "x' \<equiv> ((fst x)\<lparr>end_pos := Some (of_nat (al_tail A))\<rparr>, snd x)"
    and "z \<equiv> (\<lparr>loglet_id = n, start_pos = of_nat (al_tail A), end_pos = None\<rparr>, alog_new)"
  shows "vl_parts rel (v\<lparr>vl_chain := chain_extend (of_nat (al_tail A)) n (vl_chain v)\<rparr>) A (xs @ [x']) z"
proof -
  let ?v = "v\<lparr>vl_chain := chain_extend (of_nat (al_tail A)) n (vl_chain v)\<rparr>"
  have n: "n = loglet_name (length (xs @ [x]))"
    using assms(1,4) by (simp add: vl_parts_def generate_loglet_id_def)
  have ids: "seg_id x' = seg_id x" "seg_id z = n" "seg_len x' = seg_len x"
    by (simp_all add: x'_def z_def seg_id_def seg_len_def)
  have t: "al_tail A = 1 + (seg_total xs + seg_len x)" using parts_tail[OF assms(1)] by simp
  have "closed_segs rel (vl_loglets ?v) (al_trim A) 1 (xs @ [x'])"
    using assms(1,3) ids t by (auto simp: vl_parts_def closed_segs_append seg_ok_def x'_def seg_len_def)
  moreover have "seg_ok rel (vl_loglets ?v) (al_trim A) (1 + seg_total (xs @ [x'])) z"
    using assms(2,5,6) ids t by (simp add: seg_ok_def z_def local_trim_def alog_new_def)
  moreover have "segments (vl_chain ?v) = map fst ((xs @ [x']) @ [z])"
    using assms(1) by (simp add: vl_parts_def chain_extend_def close_last_def x'_def z_def)
  moreover have "ids_ok ((xs @ [x']) @ [z])"
    using assms(1) ids n by (auto simp: vl_parts_def ids_ok_def)
  ultimately show ?thesis
    using assms(1) by (simp add: vl_parts_def x'_def z_def alog_new_def)
qed

text \<open>Reconfiguration keeps the log and leaves an open segment at its end.\<close>

lemma reconfigure_spec:
  assumes "vl_rel rel v A"
  shows "\<exists>v' xs x. reconfigure ops create v = (Inr (), v') \<and> vl_rel rel v' A \<and>
           vl_parts rel v' A xs x \<and> \<not> al_sealed (snd x)"
proof -
  obtain xs x where p: "vl_parts rel v A xs x" using assms by (auto simp: vl_rel_def)
  obtain l where l: "get_active_loglet v = Inr (seg_id x, l, of_nat (1 + seg_total xs))" "rel l (snd x)"
    using parts_active[OF p] by blast
  obtain l' where l': "lg_seal ops l = (Inr (of_nat (al_tail (snd x))), l')" "rel l' ((snd x)\<lparr>al_sealed := True\<rparr>)"
    using seal[OF l(2)] by blast
  define n where "n = generate_loglet_id (vl_chain v)"
  obtain nl where nl: "create n = Inr nl" "rel nl alog_new" using create_fresh by blast
  let ?x = "(fst x, (snd x)\<lparr>al_sealed := True\<rparr>)"
  define v1 where "v1 = put_loglet n nl (put_loglet (seg_id x) l' v)"
  define v' where "v' = v1\<lparr>vl_meta := \<lparr>ms_chain = chain_extend (of_nat (al_tail A)) n (vl_chain v), ms_version = vl_version v + 1\<rparr>,
      vl_chain := chain_extend (of_nat (al_tail A)) n (vl_chain v), vl_version := vl_version v + 1\<rparr>"
  have r: "reconfigure ops create v = (Inr (), v')"
    using l(1) l'(1) nl(1) assms parts_global[OF p]
    by (simp add: reconfigure_def Let_def meta_write_def vl_rel_def v'_def v1_def n_def put_loglet_def)
  have "n = loglet_name (length (xs @ [x]))" using p by (simp add: n_def vl_parts_def generate_loglet_id_def)
  then have n: "n \<notin> set (map seg_id (xs @ [x]))" using p by (simp add: vl_parts_def ids_ok_def)
  have "vl_parts rel (put_loglet (seg_id x) l' v) A xs ?x"
    using p l'(2) by (intro parts_put) (simp_all add: vl_parts_def seg_ok_def seg_len_def)
  then have "vl_parts rel v1 A xs ?x"
    unfolding v1_def by (rule parts_insert) (use n in \<open>simp add: seg_id_def\<close>)
  from parts_extend[OF this _ _ _ _ nl(2), of n] assms obtain ys z where
    "vl_parts rel (v1\<lparr>vl_chain := chain_extend (of_nat (al_tail A)) n (vl_chain v)\<rparr>) A ys z" "\<not> al_sealed (snd z)"
    by (auto simp: v1_def n_def vl_rel_def alog_new_def)
  then have q: "vl_parts rel v' A ys z" "\<not> al_sealed (snd z)" by (simp_all add: vl_parts_def v'_def)
  then have "vl_rel rel v' A"
    by (intro vl_relI) (use vl_relD[OF assms] in \<open>simp_all add: v'_def\<close>)
  with r q show ?thesis by blast
qed

lemma vl_append_spec:
  assumes "vl_rel rel v A" "Suc (al_tail A) < 2 ^ 64"
  shows "\<exists>v'. vl_append ops create e v = Some (Inr (of_nat (al_tail A)), v') \<and> vl_rel rel v' (al_push e A)"
proof -
  obtain xs x where p: "vl_parts rel v A xs x" using assms by (auto simp: vl_rel_def)
  show ?thesis
  proof (cases "al_sealed (snd x)")
    case False
    with append_active_open[OF assms(1) p] assms(2) show ?thesis by blast
  next
    case True
    obtain l where l: "get_active_loglet v = Inr (seg_id x, l, of_nat (1 + seg_total xs))" "rel l (snd x)"
      using parts_active[OF p] by blast
    obtain t l' where l': "lg_append ops e l = Some (Inl (Sealed t), l')" "rel l' (snd x)"
      using append_sealed[OF l(2) True] by blast
    have "vl_parts rel (put_loglet (seg_id x) l' v) A xs (fst x, snd x)"
      using p l'(2) by (intro parts_put) (simp_all add: vl_parts_def seg_ok_def seg_len_def)
    then have "vl_rel rel (put_loglet (seg_id x) l' v) A"
      by (rule vl_relI) (use vl_relD[OF assms(1)] in simp_all)
    from reconfigure_spec[OF this] obtain v' ys y where
      v': "reconfigure ops create (put_loglet (seg_id x) l' v) = (Inr (), v')" "vl_rel rel v' A"
        "vl_parts rel v' A ys y" "\<not> al_sealed (snd y)" by blast
    have "vl_append ops create e v = vl_append ops create e v'"
      using l(1) l'(1) v'(1) by (simp add: vl_append.simps[of ops create e v])
    with append_active_open[OF v'(2-4) assms(2)] show ?thesis by simp
  qed
qed

text \<open>A read goes to the loglet of the segment that holds the position; what it finds there is
  what the whole log holds.\<close>

lemma read_segment:
  assumes "vl_parts rel v A xs x" "al_tail A < 2 ^ 64" "1 \<le> unat q"
  shows "\<exists>us y vs. xs @ [x] = us @ y # vs \<and> find_segment (vl_chain v) q = Some (fst y) \<and>
           seg_ok rel (vl_loglets v) (al_trim A) (1 + seg_total us) y \<and> 1 + seg_total us \<le> unat q \<and>
           (unat q < 1 + seg_total us + seg_len y \<or> vs = [] \<and> al_tail A \<le> unat q)"
proof -
  have b: "1 + seg_total xs < 2 ^ 64" using assms parts_tail[OF assms(1)] by simp
  have c: "closed_segs rel (vl_loglets v) (al_trim A) 1 xs" and
    f: "find_segment (vl_chain v) q = find (in_segment q) (map fst xs @ [fst x])"
    using assms(1) by (simp_all add: vl_parts_def find_segment_def)
  from find_closed[OF c assms(3) b, of "[fst x]"] show ?thesis
  proof (elim disjE exE conjE)
    fix us y vs
    assume "xs = us @ y # vs" "find (in_segment q) (map fst xs @ [fst x]) = Some (fst y)"
      "1 + seg_total us \<le> unat q" "unat q < 1 + seg_total us + seg_len y"
      "seg_ok rel (vl_loglets v) (al_trim A) (1 + seg_total us) y"
    with f show ?thesis
      by (intro exI[of _ us] exI[of _ y] exI[of _ "vs @ [x]"]) simp
  next
    assume q: "1 + seg_total xs \<le> unat q"
      and "find (in_segment q) (map fst xs @ [fst x]) = find (in_segment q) [fst x]"
    moreover have "in_segment q (fst x)"
      using assms(1) q b
      by (simp add: vl_parts_def seg_ok_def in_segment_def word_le_nat_alt unat_of_nat_pos
        del: of_nat_Suc of_nat_add)
    ultimately show ?thesis
      using f assms(1) parts_tail[OF assms(1)]
      by (intro exI[of _ xs] exI[of _ x] exI[of _ "[]"]) (auto simp: vl_parts_def)
  qed
qed

lemma vl_read_spec:
  assumes "vl_rel rel v A" "1 \<le> unat q"
  shows "(unat q < al_trim A \<longrightarrow> (\<exists>p. vl_read ops q v = Inl (Trimmed p))) \<and>
         (al_trim A \<le> unat q \<and> unat q < al_tail A \<longrightarrow> vl_read ops q v = Inr (Some (al_at A (unat q)))) \<and>
         (al_trim A \<le> unat q \<and> al_tail A \<le> unat q \<longrightarrow> vl_read ops q v = Inr None)"
proof -
  note D = vl_relD[OF assms(1)]
  obtain xs x where p: "vl_parts rel v A xs x" using assms by (auto simp: vl_rel_def)
  obtain us y vs where y: "xs @ [x] = us @ y # vs" "find_segment (vl_chain v) q = Some (fst y)"
      "seg_ok rel (vl_loglets v) (al_trim A) (1 + seg_total us) y" "1 + seg_total us \<le> unat q"
      "unat q < 1 + seg_total us + seg_len y \<or> vs = [] \<and> al_tail A \<le> unat q"
    using read_segment[OF p D(4) assms(2)] by blast
  obtain l where l: "vl_loglets v (seg_id y) = Some l" "rel l (snd y)"
      "start_pos (fst y) = of_nat (1 + seg_total us)"
      "al_trim (snd y) = local_trim (al_trim A) (1 + seg_total us) (seg_len y)"
    using y(3) by (auto simp: seg_ok_def)
  define lp where "lp = global_to_local (start_pos (fst y)) q"
  have r: "vl_read ops q v = lg_read ops lp l"
    using y(2) l(1) by (simp add: vl_read_def lp_def seg_id_def)
  have u: "unat lp = unat q - (1 + seg_total us) + 1"
    using y(4) unfolding lp_def l(3) by (intro unat_global_to_local) simp
  show ?thesis
  proof (cases "unat q < 1 + seg_total us + seg_len y")
    case True
    have "al_tail A = 1 + seg_total (xs @ [x])"
      using parts_tail[OF p] by simp
    then have t: "unat q < al_tail A" using True by (simp only: y(1)) simp
    have "al_at A (unat q) = al_at (snd y) (unat lp)"
      using p True y(4) nth_concat_segs[of "unat q - (1 + seg_total us)" y us vs]
      unfolding vl_parts_def y(1) al_at_def u by simp
    moreover have "al_trim (snd y) \<le> unat lp \<longleftrightarrow> al_trim A \<le> unat q"
      using True y(4) unfolding l(4) u by (intro local_trim_at) simp_all
    moreover have "unat lp < al_tail (snd y)" "1 \<le> unat lp"
      using True y(4) u by (auto simp: al_tail_def seg_len_def)
    ultimately show ?thesis
      using t r read_trimmed[OF l(2), of lp] read_entry[OF l(2), of lp] by auto
  next
    case False
    then have v: "vs = []" "al_tail A \<le> unat q" using y(5) by auto
    with y(1) parts_tail[OF p] have yx: "y = x" "us = xs" by simp_all
    have "local_trim (al_trim A) (1 + seg_total xs) (seg_len x) \<le> unat q - (1 + seg_total xs) + 1"
      using v(2) D(3) parts_tail[OF p] by (intro local_trim_open) simp_all
    then have "al_trim (snd y) \<le> unat lp"
      using l(4) u yx by simp
    moreover have "al_tail (snd y) \<le> unat lp"
      using v(2) parts_tail[OF p] yx u by (simp add: al_tail_def seg_len_def)
    ultimately show ?thesis
      using v(2) D(3) r read_beyond[OF l(2), of lp] by auto
  qed
qed

lemma vl_check_tail_spec:
  assumes "vl_rel rel v A"
  shows "vl_check_tail ops v = Inr (of_nat (al_tail A))"
proof -
  obtain xs x where p: "vl_parts rel v A xs x" using assms by (auto simp: vl_rel_def)
  obtain l where l: "get_active_loglet v = Inr (seg_id x, l, of_nat (1 + seg_total xs))" "rel l (snd x)"
    using parts_active[OF p] by blast
  then show ?thesis
    using check_tail[OF l(2)] parts_global[OF p] by (simp add: vl_check_tail_def)
qed

text \<open>Trimming one segment, then all closed ones, then the open one.\<close>

lemma trim_one:
  assumes "seg_ok rel ls T s x" "1 \<le> s" "s + seg_len x < 2 ^ 64"
    "end_pos (fst x) = Some (of_nat (s + seg_len x)) \<or> end_pos (fst x) = None \<and> unat g \<le> s + seg_len x"
  shows "\<exists>ls' a. (\<forall>ss. trim_segments ops g (fst x # ss) ls = trim_segments ops g ss ls') \<and>
           seg_ok rel ls' (max T (unat g)) s (fst x, a) \<and> al_entries a = al_entries (snd x) \<and>
           al_sealed a = al_sealed (snd x) \<and> (\<forall>i. i \<noteq> seg_id x \<longrightarrow> ls' i = ls i)"
proof -
  obtain l where l: "ls (seg_id x) = Some l" "rel l (snd x)" "start_pos (fst x) = of_nat s"
      "al_trim (snd x) = local_trim T s (seg_len x)"
    using assms(1) by (auto simp: seg_ok_def)
  have gt: "g > start_pos (fst x) \<longleftrightarrow> s < unat g"
    using l(3) assms(3) by (simp add: word_less_nat_alt unat_of_nat_pos)
  show ?thesis
  proof (cases "s < unat g")
    case False
    with gt l assms(1) show ?thesis
      by (intro exI[of _ ls] exI[of _ "snd x"]) (simp add: seg_ok_def local_trim_max)
  next
    case True
    define m where "m = min g (case end_pos (fst x) of None \<Rightarrow> - 1 | Some e \<Rightarrow> e)"
    define lp where "lp = global_to_local (start_pos (fst x)) m"
    have m: "unat m = min (unat g) (s + seg_len x)"
      using assms(3,4)
    proof (elim disjE conjE)
      assume "end_pos (fst x) = Some (of_nat (s + seg_len x))"
      then show ?thesis
        using assms(3) by (auto simp: m_def min_def word_le_nat_alt unat_of_nat_pos simp del: of_nat_add)
    qed (simp add: m_def)
    then have u: "unat lp = min (unat g) (s + seg_len x) - s + 1"
      using True assms(2) unat_global_to_local[of s m] by (simp add: lp_def l(3))
    then have "unat lp \<le> al_tail (snd x)"
      by (auto simp: al_tail_def seg_len_def min_def)
    from trim[OF l(2) this] obtain l' where
      l': "lg_trim ops lp l = (Inr (), l')" "rel l' ((snd x)\<lparr>al_trim := max (al_trim (snd x)) (unat lp)\<rparr>)"
      by blast
    define a where "a = (snd x)\<lparr>al_trim := max (al_trim (snd x)) (unat lp)\<rparr>"
    have "trim_segments ops g (fst x # ss) ls = trim_segments ops g ss (ls(seg_id x \<mapsto> l'))" for ss
      using gt True l(1) l'(1) by (simp add: Let_def m_def[symmetric] lp_def[symmetric] seg_id_def)
    moreover have "seg_ok rel (ls(seg_id x \<mapsto> l')) (max T (unat g)) s (fst x, a)"
      using l l' True u by (simp add: seg_ok_def seg_id_def seg_len_def a_def local_trim_max)
    ultimately show ?thesis
      by (intro exI[of _ "ls(seg_id x \<mapsto> l')"] exI[of _ a]) (simp add: a_def)
  qed
qed

lemma trim_closed:
  assumes "closed_segs rel ls T s xs" "1 \<le> s" "s + seg_total xs < 2 ^ 64" "distinct (map seg_id xs)"
  shows "\<exists>ls' ys. (\<forall>r. trim_segments ops g (map fst xs @ r) ls = trim_segments ops g r ls') \<and>
           closed_segs rel ls' (max T (unat g)) s ys \<and> map fst ys = map fst xs \<and>
           map (al_entries \<circ> snd) ys = map (al_entries \<circ> snd) xs \<and>
           (\<forall>i. i \<notin> set (map seg_id xs) \<longrightarrow> ls' i = ls i)"
  using assms
proof (induction xs arbitrary: s ls)
  case Nil
  show ?case by (intro exI[of _ ls] exI[of _ "[]"]) simp
next
  case (Cons x xs)
  from trim_one[of ls T s x g] Cons.prems obtain ls1 a where
    1: "\<forall>ss. trim_segments ops g (fst x # ss) ls = trim_segments ops g ss ls1"
      "seg_ok rel ls1 (max T (unat g)) s (fst x, a)" "al_entries a = al_entries (snd x)"
      "al_sealed a = al_sealed (snd x)" "\<forall>i. i \<noteq> seg_id x \<longrightarrow> ls1 i = ls i"
    by (auto simp: of_nat_add simp del: trim_segments.simps)
  have cl: "closed_segs rel ls1 T (s + seg_len x) xs"
  proof -
    have "seg_id x \<notin> seg_id ` set xs" using Cons.prems(4) by simp
    then have "\<forall>y \<in> set xs. ls1 (seg_id y) = ls (seg_id y)"
      using 1(5) by (metis imageI)
    from closed_segs_frame[OF this, of rel T "s + seg_len x"] show ?thesis
      using Cons.prems(1) by simp
  qed
  have "1 \<le> s + seg_len x" "s + seg_len x + seg_total xs < 2 ^ 64" "distinct (map seg_id xs)"
    using Cons.prems by simp_all
  from Cons.IH[OF cl this] obtain ls2 ys where
    2: "\<forall>r. trim_segments ops g (map fst xs @ r) ls1 = trim_segments ops g r ls2"
      "closed_segs rel ls2 (max T (unat g)) (s + seg_len x) ys" "map fst ys = map fst xs"
      "map (al_entries \<circ> snd) ys = map (al_entries \<circ> snd) xs"
      "\<forall>i. i \<notin> set (map seg_id xs) \<longrightarrow> ls2 i = ls1 i"
    by blast
  have "ls2 (seg_id (fst x, a)) = ls1 (seg_id (fst x, a))"
    using 2(5) Cons.prems by (simp add: seg_id_def)
  then have "seg_ok rel ls2 (max T (unat g)) s (fst x, a)"
    using 1(2) seg_ok_frame by blast
  moreover have "seg_len (fst x, a) = seg_len x" using 1(3) by (simp add: seg_len_def)
  ultimately have "closed_segs rel ls2 (max T (unat g)) s ((fst x, a) # ys)"
    using 2(2) 1(4) Cons.prems by simp
  then show ?case
    using 1 2 by (intro exI[of _ ls2] exI[of _ "(fst x, a) # ys"]) (simp add: comp_def del: closed_segs.simps trim_segments.simps)
qed

lemma vl_trim_spec:
  assumes "vl_rel rel v A" "unat g \<le> al_tail A"
  shows "\<exists>v'. vl_trim ops g v = (Inr (), v') \<and>
           vl_rel rel v' (A\<lparr>al_trim := max (al_trim A) (unat g)\<rparr>)"
proof -
  note D = vl_relD[OF assms(1)]
  obtain xs x where p: "vl_parts rel v A xs x" using assms by (auto simp: vl_rel_def)
  have T: "al_tail A = 1 + seg_total xs + seg_len x" by (rule parts_tail[OF p])
  have c: "closed_segs rel (vl_loglets v) (al_trim A) 1 xs" "1 + seg_total xs < 2 ^ 64"
    "distinct (map seg_id xs)" "seg_id x \<notin> set (map seg_id xs)"
    "seg_ok rel (vl_loglets v) (al_trim A) (1 + seg_total xs) x" "end_pos (fst x) = None"
    using p D(4) T by (auto simp: vl_parts_def ids_ok_def)
  obtain ls1 ys where
    1: "\<forall>r. trim_segments ops g (map fst xs @ r) (vl_loglets v) = trim_segments ops g r ls1"
      "closed_segs rel ls1 (max (al_trim A) (unat g)) 1 ys" "map fst ys = map fst xs"
      "map (al_entries \<circ> snd) ys = map (al_entries \<circ> snd) xs"
      "\<forall>i. i \<notin> set (map seg_id xs) \<longrightarrow> ls1 i = vl_loglets v i"
    using trim_closed[OF c(1) _ c(2,3), of g] by auto
  have ids: "map seg_id ys = map seg_id xs" and tot: "seg_total ys = seg_total xs"
    using 1(3,4) length_concat_segs[of ys] length_concat_segs[of xs]
    by (metis map_map seg_id_def comp_def map_cong, simp)
  have "seg_ok rel ls1 (al_trim A) (1 + seg_total xs) x"
    using c(4,5) 1(5) seg_ok_frame by metis
  then obtain ls2 a where
    2: "\<forall>ss. trim_segments ops g (fst x # ss) ls1 = trim_segments ops g ss ls2"
      "seg_ok rel ls2 (max (al_trim A) (unat g)) (1 + seg_total xs) (fst x, a)"
      "al_entries a = al_entries (snd x)" "\<forall>i. i \<noteq> seg_id x \<longrightarrow> ls2 i = ls1 i"
    using trim_one[of ls1 "al_trim A" "1 + seg_total xs" x g] c(6) assms(2) T D(4)
    by (auto simp del: trim_segments.simps)
  have "\<forall>y \<in> set ys. ls2 (seg_id y) = ls1 (seg_id y)"
    using 2(4) c(4) ids by (metis imageI list.set_map)
  from closed_segs_frame[OF this] have cl: "closed_segs rel ls2 (max (al_trim A) (unat g)) 1 ys"
    using 1(2) by simp
  have tr: "vl_trim ops g v = (Inr (), v\<lparr>vl_loglets := ls2\<rparr>)"
    using p 1(1) 2(1) by (simp add: vl_trim_def vl_parts_def)
  have len: "length ys = length xs" using 1(3) by (metis length_map)
  have "vl_parts rel (v\<lparr>vl_loglets := ls2\<rparr>) (A\<lparr>al_trim := max (al_trim A) (unat g)\<rparr>) ys (fst x, a)"
    using p cl 2(2,3) 1(3,4) ids tot len
    by (simp add: vl_parts_def ids_ok_def seg_id_def comp_def)
  then show ?thesis
    using tr by (intro exI[of _ "v\<lparr>vl_loglets := ls2\<rparr>"] conjI vl_relI)
      (use D assms(2) in simp_all)
qed

lemma vl_seal_spec:
  assumes "vl_rel rel v A"
  shows "\<exists>v'. vl_seal ops v = (Inr (of_nat (al_tail A)), v') \<and> vl_rel rel v' A"
proof -
  obtain xs x where p: "vl_parts rel v A xs x" using assms by (auto simp: vl_rel_def)
  obtain l where l: "get_active_loglet v = Inr (seg_id x, l, of_nat (1 + seg_total xs))" "rel l (snd x)"
    using parts_active[OF p] by blast
  obtain l' where l': "lg_seal ops l = (Inr (of_nat (al_tail (snd x))), l')"
      "rel l' ((snd x)\<lparr>al_sealed := True\<rparr>)"
    using seal[OF l(2)] by blast
  have "vl_parts rel (put_loglet (seg_id x) l' v) A xs (fst x, (snd x)\<lparr>al_sealed := True\<rparr>)"
    using p l'(2) by (intro parts_put) (simp_all add: vl_parts_def seg_ok_def seg_len_def)
  then have "vl_rel rel (put_loglet (seg_id x) l' v) A"
    by (rule vl_relI) (use vl_relD[OF assms] in simp_all)
  then show ?thesis
    using l(1) l'(1) parts_global[OF p] by (simp add: vl_seal_def)
qed

lemma vl_new_spec:
  assumes "\<forall>k \<ge> 1. i \<noteq> loglet_name k"
  shows "\<exists>v. vl_new create (meta_new (chain_new i)) = Inr v \<and> vl_rel rel v alog_new"
proof -
  obtain l where l: "create i = Inr l" "rel l alog_new" using create_fresh by blast
  define v where "v = \<lparr>vl_meta = meta_new (chain_new i), vl_chain = chain_new i, vl_version = 0,
    vl_loglets = [i \<mapsto> l]\<rparr>"
  have "vl_parts rel v alog_new [] (\<lparr>loglet_id = i, start_pos = LOG_POS_BEGIN, end_pos = None\<rparr>, alog_new)"
    using l(2) assms
    by (auto simp: vl_parts_def v_def chain_new_def seg_ok_def seg_id_def seg_len_def local_trim_def
      alog_new_def ids_ok_def LOG_POS_BEGIN_def)
  then have "vl_rel rel v alog_new"
    by (rule vl_relI) (simp_all add: alog_new_def al_tail_def v_def meta_new_def)
  then show ?thesis
    using l(1) by (simp add: vl_new_def meta_new_def meta_read_def chain_new_def v_def)
qed

end

sublocale chained_log \<subseteq> chained: shared_log "vl_ops ops create" "vl_rel rel"
proof unfold_locales
  fix v A and e :: entry and p :: LogPos
  assume rel: "vl_rel rel v A"
  note D = vl_relD[OF rel]
  show "\<not> al_sealed A" using D by simp
  show "\<exists>v'. lg_seal (vl_ops ops create) v = (Inr (of_nat (al_tail A)), v') \<and> vl_rel rel v' A"
    using vl_seal_spec[OF rel] by (simp add: vl_ops_def)
  show "1 \<le> al_trim A \<and> al_tail A < 2 ^ 64" using D by simp
  show "\<exists>v'. lg_append (vl_ops ops create) e v = Some (Inr (of_nat (al_tail A)), v') \<and> vl_rel rel v' (al_push e A)"
    if "Suc (al_tail A) < 2 ^ 64"
    using vl_append_spec[OF rel that] by (simp add: vl_ops_def)
  show "lg_check_tail (vl_ops ops create) v = Inr (of_nat (al_tail A))"
    using vl_check_tail_spec[OF rel] by (simp add: vl_ops_def)
  show "\<exists>q. lg_read (vl_ops ops create) p v = Inl (Trimmed q)" if "1 \<le> unat p" "unat p < al_trim A"
    using vl_read_spec[OF rel that(1)] that by (simp add: vl_ops_def)
  show "lg_read (vl_ops ops create) p v = Inr (Some (al_at A (unat p)))"
    if "al_trim A \<le> unat p" "unat p < al_tail A"
    using vl_read_spec[OF rel, of p] that D by (simp add: vl_ops_def)
  show "lg_read (vl_ops ops create) p v = Inr None" if "al_trim A \<le> unat p" "al_tail A \<le> unat p"
    using vl_read_spec[OF rel, of p] that D by (simp add: vl_ops_def)
  show "\<exists>v'. lg_trim (vl_ops ops create) p v = (Inr (), v') \<and>
      vl_rel rel v' (A\<lparr>al_trim := max (al_trim A) (unat p)\<rparr>)" if "unat p \<le> al_tail A"
    using vl_trim_spec[OF rel that] by (simp add: vl_ops_def)
qed

end
