(* ===== verification/Log_History.thy ===== *)
theory Log_History
  imports Virtual_Log
begin

text \<open>
  Histories of a virtual log: any sequence of appends, with seals of the active loglet anywhere in
  between. \<open>history_spec\<close> says what every such history amounts to, for loglets of any kind that
  meet their contract.
\<close>

section \<open>Histories\<close>

text \<open>What clients do to a log: append entries and, at any point, seal it.\<close>

datatype log_event = Append entry | Seal

fun log_run :: "'l loglet_ops \<Rightarrow> log_event list \<Rightarrow> 'l \<Rightarrow> (LogPos list result \<times> 'l) option" where
  "log_run ops [] l = Some (Inr [], l)"
| "log_run ops (Append e # es) l =
     (case lg_append ops e l of
        None \<Rightarrow> None
      | Some (Inl err, l') \<Rightarrow> Some (Inl err, l')
      | Some (Inr p, l') \<Rightarrow>
          (case log_run ops es l' of
             None \<Rightarrow> None
           | Some (Inl err, l'') \<Rightarrow> Some (Inl err, l'')
           | Some (Inr ps, l'') \<Rightarrow> Some (Inr (p # ps), l'')))"
| "log_run ops (Seal # es) l =
     (case lg_seal ops l of
        (Inl err, l') \<Rightarrow> Some (Inl err, l')
      | (Inr _, l') \<Rightarrow> log_run ops es l')"

fun appended :: "log_event list \<Rightarrow> entry list" where
  "appended [] = []"
| "appended (Append e # es) = e # appended es"
| "appended (Seal # es) = appended es"

lemma vl_ops_sel [simp]:
  "lg_append (vl_ops ops create) = vl_append ops create" "lg_check_tail (vl_ops ops create) = vl_check_tail ops"
  "lg_read (vl_ops ops create) = vl_read ops" "lg_trim (vl_ops ops create) = vl_trim ops"
  "lg_seal (vl_ops ops create) = vl_seal ops"
  by (simp_all add: vl_ops_def)

context chained_log
begin

lemma run_spec:
  assumes "vl_rel rel v A" "al_tail A + length (appended es) < 2 ^ 64"
  shows "\<exists>v'. log_run (vl_ops ops create) es v =
           Some (Inr (map of_nat [al_tail A..<al_tail A + length (appended es)]), v') \<and>
         vl_rel rel v' (A\<lparr>al_entries := al_entries A @ appended es\<rparr>)"
  using assms
proof (induction es arbitrary: v A rule: appended.induct)
  case 1
  then show ?case by simp
next
  case (2 e es)
  from vl_append_spec[OF "2.prems"(1), of e] "2.prems"(2) obtain v1 where
    v1: "vl_append ops create e v = Some (Inr (of_nat (al_tail A)), v1)"
      "vl_rel rel v1 (al_push e A)" by auto
  from "2.IH"[OF v1(2)] "2.prems"(2) obtain v2 where
    v2: "log_run (vl_ops ops create) es v1 =
           Some (Inr (map of_nat [Suc (al_tail A)..<Suc (al_tail A) + length (appended es)]), v2)"
      "vl_rel rel v2 (A\<lparr>al_entries := al_entries A @ e # appended es\<rparr>)"
    by (auto simp: al_push_entries simp del: upt_Suc)
  have "[al_tail A..<al_tail A + length (appended (Append e # es))] =
        al_tail A # [Suc (al_tail A)..<Suc (al_tail A) + length (appended es)]"
    by (simp add: upt_conv_Cons del: upt_Suc)
  with v1(1) v2 show ?case by (simp del: upt_Suc)
next
  case (3 es)
  from vl_seal_spec[OF "3.prems"(1)] obtain v1 where
    "vl_seal ops v = (Inr (of_nat (al_tail A)), v1)" "vl_rel rel v1 A" by blast
  with "3.IH"[of v1 A] "3.prems" show ?case by simp
qed

lemma history_spec:
  assumes "\<forall>k \<ge> 1. i \<noteq> loglet_name k" "length (appended es) + 1 < 2 ^ 64"
  shows "\<exists>v v'. vl_new create (meta_new (chain_new i)) = Inr v \<and>
           log_run (vl_ops ops create) es v = Some (Inr (map of_nat [1..<Suc (length (appended es))]), v') \<and>
           vl_check_tail ops v' = Inr (of_nat (Suc (length (appended es)))) \<and>
           (\<forall>k < length (appended es). vl_read ops (of_nat (Suc k)) v' = Inr (Some (appended es ! k)))"
proof -
  obtain v where v: "vl_new create (meta_new (chain_new i)) = Inr v" "vl_rel rel v alog_new"
    using vl_new_spec[OF assms(1)] by blast
  have "al_tail alog_new = 1" "al_entries alog_new = []" "al_trim alog_new = 1"
    by (simp_all add: al_tail_def alog_new_def)
  with run_spec[OF v(2), of es] assms(2) obtain v' where
    v': "log_run (vl_ops ops create) es v = Some (Inr (map of_nat [1..<Suc (length (appended es))]), v')"
      "vl_rel rel v' (alog_new\<lparr>al_entries := appended es\<rparr>)"
    by auto
  define A where "A = alog_new\<lparr>al_entries := appended es\<rparr>"
  have A: "al_tail A = Suc (length (appended es))" "al_trim A = 1"
    by (simp_all add: A_def al_tail_def alog_new_def)
  have rel: "vl_rel rel v' A" using v'(2) by (simp add: A_def)
  have "vl_read ops (of_nat (Suc k)) v' = Inr (Some (appended es ! k))"
    if "k < length (appended es)" for k
  proof -
    have "unat (of_nat (Suc k) :: u64) = Suc k"
      using that assms(2) by (intro unat_of_nat_pos) simp
    then show ?thesis
      using vl_read_spec[OF rel, of "of_nat (Suc k)"] A that by (simp add: al_at_def A_def)
  qed
  moreover have "vl_check_tail ops v' = Inr (of_nat (Suc (length (appended es))))"
    using vl_check_tail_spec[OF rel] A by simp
  ultimately show ?thesis using v(1) v'(1) by blast
qed

end

lemma loglet_name_not_memory: "loglet_name k \<noteq> ''memory-0''"
  by (simp add: loglet_name_def)

end
