(* ===== verification/Virtual_Log_Steps.thy ===== *)
theory Virtual_Log_Steps
  imports Log_History
begin

text \<open>
  One \<open>VirtualLog\<close> shared by many tasks (\<open>relos-log/src/virtual_log.rs\<close>). Every field of the struct has a
  lock of its own, so a call is a sequence of short critical sections, and the sections of different
  calls interleave freely. The state holds the fields, the calls in flight and, because tasks keep
  references to loglets (\<open>Arc<dyn Loglet>\<close>) across their steps, a heap of loglets: the map of the
  struct gives references into it. \<open>task_step\<close> is one critical section of one call; \<open>vlog_step\<close> picks
  any call and runs one. Loglet operations are atomic, as those of the in-memory loglet are.

  A call of \<open>trim\<close> copies the segments of the chain and then trims them one by one, as the chain
  may change under it.
\<close>

section \<open>Calls and their steps\<close>

text \<open>The constructors are the places where a call can be interrupted. \<open>Rec\<close> is \<open>reconfigure\<close> and
  \<open>Sync\<close> is \<open>sync_chain\<close>, both called by an append, whose entry they carry.\<close>

datatype vtask =
    AppSegment entry
  | AppLoglet entry LogPos string
  | AppAppend entry LogPos nat
  | AppDone entry "LogPos result"
  | RecSegment entry
  | RecLoglet entry LogPos string
  | RecSeal entry LogPos nat
  | RecVersion entry LogPos
  | RecChain entry LogPos u64
  | RecWrite entry string log_chain u64
  | RecCreate entry string log_chain u64
  | RecSetChain entry log_chain u64
  | RecSetVersion entry u64
  | SyncRead entry
  | SyncLoglets entry log_chain u64
  | SyncSetChain entry log_chain u64
  | SyncSetVersion entry u64
  | TailSegment
  | TailLoglet LogPos string
  | TailCheck LogPos nat
  | TailDone "LogPos result"
  | ReadSegment LogPos
  | ReadLoglet LogPos LogPos string
  | ReadDone LogPos "entry option result"
  | SealSegment
  | SealLoglet LogPos string
  | SealSeal LogPos nat
  | SealDone "LogPos result"
  | TrimSegments LogPos
  | TrimLoop LogPos "chain_segment list"
  | TrimDone LogPos "unit result"

datatype vcall = CallAppend entry | CallTail | CallRead LogPos | CallSeal | CallTrim LogPos

fun start_task :: "vcall \<Rightarrow> vtask" where
  "start_task (CallAppend e) = AppSegment e"
| "start_task CallTail = TailSegment"
| "start_task (CallRead p) = ReadSegment p"
| "start_task CallSeal = SealSegment"
| "start_task (CallTrim p) = TrimSegments p"

record 'l vlog_sys =
  sv_meta :: memory_meta_store
  sv_chain :: log_chain
  sv_version :: u64
  sv_loglets :: "string \<rightharpoonup> nat"
  sv_heap :: "'l list"
  sv_tasks :: "nat \<rightharpoonup> vtask"

text \<open>The two critical sections of \<open>get_active_loglet\<close>; the caller says how it goes on and how it
  ends on an error.\<close>

definition active_segment_step ::
  "(LogPos \<Rightarrow> string \<Rightarrow> vtask) \<Rightarrow> (relos_error \<Rightarrow> vtask) \<Rightarrow> 'l vlog_sys \<Rightarrow> vtask" where
  "active_segment_step go fail y =
     (case active_segment (sv_chain y) of
        None \<Rightarrow> fail (Internal ''no active segment in chain'')
      | Some s \<Rightarrow> go (start_pos s) (loglet_id s))"

definition active_loglet_step ::
  "string \<Rightarrow> (nat \<Rightarrow> vtask) \<Rightarrow> (relos_error \<Rightarrow> vtask) \<Rightarrow> 'l vlog_sys \<Rightarrow> vtask" where
  "active_loglet_step i go fail y =
     (case sv_loglets y i of
        None \<Rightarrow> fail (Internal (''active loglet '' @ i @ '' not found''))
      | Some h \<Rightarrow> go h)"

text \<open>Creating the missing loglets of a chain happens under the write lock of the map.\<close>

fun sync_arcs ::
  "'l factory \<Rightarrow> chain_segment list \<Rightarrow> (string \<rightharpoonup> nat) \<Rightarrow> 'l list \<Rightarrow> unit result \<times> (string \<rightharpoonup> nat) \<times> 'l list" where
  "sync_arcs create [] ls heap = (Inr (), ls, heap)"
| "sync_arcs create (s # ss) ls heap =
     (if ls (loglet_id s) = None then
        (case create (loglet_id s) of
           Inl err \<Rightarrow> (Inl err, ls, heap)
         | Inr l \<Rightarrow> sync_arcs create ss (ls(loglet_id s \<mapsto> length heap)) (heap @ [l]))
      else sync_arcs create ss ls heap)"

fun task_step ::
  "'l loglet_ops \<Rightarrow> 'l factory \<Rightarrow> vtask \<Rightarrow> 'l vlog_sys \<Rightarrow> (vtask \<times> 'l vlog_sys) option" where
  "task_step ops create (AppSegment e) y =
     Some (active_segment_step (AppLoglet e) (\<lambda>err. AppDone e (Inl err)) y, y)"
| "task_step ops create (AppLoglet e start i) y =
     Some (active_loglet_step i (AppAppend e start) (\<lambda>err. AppDone e (Inl err)) y, y)"
| "task_step ops create (AppAppend e start h) y =
     (case lg_append ops e (sv_heap y ! h) of
        None \<Rightarrow> None
      | Some (Inr local_pos, l') \<Rightarrow>
          Some (AppDone e (Inr (local_to_global start local_pos)), y\<lparr>sv_heap := (sv_heap y)[h := l']\<rparr>)
      | Some (Inl err, l') \<Rightarrow>
          Some (if is_Sealed err then RecSegment e else AppDone e (Inl err), y\<lparr>sv_heap := (sv_heap y)[h := l']\<rparr>))"
| "task_step ops create (RecSegment e) y =
     Some (active_segment_step (RecLoglet e) (\<lambda>err. AppDone e (Inl err)) y, y)"
| "task_step ops create (RecLoglet e start i) y =
     Some (active_loglet_step i (RecSeal e start) (\<lambda>err. AppDone e (Inl err)) y, y)"
| "task_step ops create (RecSeal e start h) y =
     (case lg_seal ops (sv_heap y ! h) of
        (Inl err, l') \<Rightarrow> Some (AppDone e (Inl err), y\<lparr>sv_heap := (sv_heap y)[h := l']\<rparr>)
      | (Inr local_tail, l') \<Rightarrow>
          Some (RecVersion e (local_to_global start local_tail), y\<lparr>sv_heap := (sv_heap y)[h := l']\<rparr>))"
| "task_step ops create (RecVersion e seal_pos) y = Some (RecChain e seal_pos (sv_version y), y)"
| "task_step ops create (RecChain e seal_pos version) y =
     (let new_loglet_id = generate_loglet_id (sv_chain y) in
      Some (RecWrite e new_loglet_id (chain_extend seal_pos new_loglet_id (sv_chain y)) version, y))"
| "task_step ops create (RecWrite e i new_chain version) y =
     (case meta_write new_chain version (sv_meta y) of
        (Inl err, m') \<Rightarrow> Some (AppDone e (Inl err), y\<lparr>sv_meta := m'\<rparr>)
      | (Inr success, m') \<Rightarrow>
          Some (if success then RecCreate e i new_chain version else SyncRead e, y\<lparr>sv_meta := m'\<rparr>))"
| "task_step ops create (RecCreate e i new_chain version) y =
     (case create i of
        Inl err \<Rightarrow> Some (AppDone e (Inl err), y)
      | Inr l \<Rightarrow> Some (RecSetChain e new_chain version,
          y\<lparr>sv_loglets := (sv_loglets y)(i \<mapsto> length (sv_heap y)), sv_heap := sv_heap y @ [l]\<rparr>))"
| "task_step ops create (RecSetChain e new_chain version) y =
     Some (RecSetVersion e version, y\<lparr>sv_chain := new_chain\<rparr>)"
| "task_step ops create (RecSetVersion e version) y = Some (AppSegment e, y\<lparr>sv_version := version + 1\<rparr>)"
| "task_step ops create (SyncRead e) y =
     (case meta_read (sv_meta y) of
        Inl err \<Rightarrow> Some (AppDone e (Inl err), y)
      | Inr (new_chain, new_version) \<Rightarrow> Some (SyncLoglets e new_chain new_version, y))"
| "task_step ops create (SyncLoglets e new_chain new_version) y =
     (case sync_arcs create (segments new_chain) (sv_loglets y) (sv_heap y) of
        (Inl err, ls, heap) \<Rightarrow> Some (AppDone e (Inl err), y\<lparr>sv_loglets := ls, sv_heap := heap\<rparr>)
      | (Inr _, ls, heap) \<Rightarrow>
          Some (SyncSetChain e new_chain new_version, y\<lparr>sv_loglets := ls, sv_heap := heap\<rparr>))"
| "task_step ops create (SyncSetChain e new_chain new_version) y =
     Some (SyncSetVersion e new_version, y\<lparr>sv_chain := new_chain\<rparr>)"
| "task_step ops create (SyncSetVersion e new_version) y = Some (AppSegment e, y\<lparr>sv_version := new_version\<rparr>)"
| "task_step ops create TailSegment y = Some (active_segment_step TailLoglet (\<lambda>err. TailDone (Inl err)) y, y)"
| "task_step ops create (TailLoglet start i) y =
     Some (active_loglet_step i (TailCheck start) (\<lambda>err. TailDone (Inl err)) y, y)"
| "task_step ops create (TailCheck start h) y =
     Some (TailDone (and_then (lg_check_tail ops (sv_heap y ! h)) (\<lambda>t. Inr (local_to_global start t))), y)"
| "task_step ops create (ReadSegment pos) y =
     (case find_segment (sv_chain y) pos of
        None \<Rightarrow> Some (ReadDone pos (Inl (Internal (''no segment found for position '' @ decimal (unat pos)))), y)
      | Some s \<Rightarrow> Some (ReadLoglet pos (start_pos s) (loglet_id s), y))"
| "task_step ops create (ReadLoglet pos start i) y =
     Some (ReadDone pos
       (case sv_loglets y i of
          None \<Rightarrow> Inl (Internal (''loglet '' @ i @ '' not found''))
        | Some h \<Rightarrow> lg_read ops (global_to_local start pos) (sv_heap y ! h)), y)"
| "task_step ops create SealSegment y = Some (active_segment_step SealLoglet (\<lambda>err. SealDone (Inl err)) y, y)"
| "task_step ops create (SealLoglet start i) y =
     Some (active_loglet_step i (SealSeal start) (\<lambda>err. SealDone (Inl err)) y, y)"
| "task_step ops create (SealSeal start h) y =
     (case lg_seal ops (sv_heap y ! h) of
        (r, l') \<Rightarrow> Some (SealDone (and_then r (\<lambda>t. Inr (local_to_global start t))), y\<lparr>sv_heap := (sv_heap y)[h := l']\<rparr>))"
| "task_step ops create (TrimSegments pos) y = Some (TrimLoop pos (segments (sv_chain y)), y)"
| "task_step ops create (TrimLoop pos todo) y =
     (case todo of
        [] \<Rightarrow> Some (TrimDone pos (Inr ()), y)
      | s # ss \<Rightarrow>
          (let seg_end = (case end_pos s of None \<Rightarrow> - 1 | Some e \<Rightarrow> e) in
           if pos > start_pos s then
             (let trim_global = min pos seg_end;
                  local_trim = global_to_local (start_pos s) trim_global
              in case sv_loglets y (loglet_id s) of
                   None \<Rightarrow> Some (TrimLoop pos ss, y)
                 | Some h \<Rightarrow>
                     (case lg_trim ops local_trim (sv_heap y ! h) of
                        (Inl err, l') \<Rightarrow> Some (TrimDone pos (Inl err), y\<lparr>sv_heap := (sv_heap y)[h := l']\<rparr>)
                      | (Inr _, l') \<Rightarrow> Some (TrimLoop pos ss, y\<lparr>sv_heap := (sv_heap y)[h := l']\<rparr>)))
           else Some (TrimLoop pos ss, y)))"
| "task_step ops create (AppDone e r) y = None"
| "task_step ops create (TailDone r') y = None"
| "task_step ops create (ReadDone pos r'') y = None"
| "task_step ops create (SealDone r') y = None"
| "task_step ops create (TrimDone pos r1) y = None"

datatype vevent = Spawn nat vcall | Run nat

fun vlog_exec :: "'l loglet_ops \<Rightarrow> 'l factory \<Rightarrow> vevent \<Rightarrow> 'l vlog_sys \<Rightarrow> 'l vlog_sys option" where
  "vlog_exec ops create (Spawn t c) y =
     (if sv_tasks y t = None then Some (y\<lparr>sv_tasks := (sv_tasks y)(t \<mapsto> start_task c)\<rparr>) else None)"
| "vlog_exec ops create (Run t) y =
     (case sv_tasks y t of
        None \<Rightarrow> None
      | Some k \<Rightarrow>
          (case task_step ops create k y of
             None \<Rightarrow> None
           | Some (k', y') \<Rightarrow> Some (y'\<lparr>sv_tasks := (sv_tasks y)(t \<mapsto> k')\<rparr>)))"

text \<open>The executions whose every state satisfies \<open>P\<close>.\<close>

inductive vlog_reach ::
  "('l vlog_sys \<Rightarrow> bool) \<Rightarrow> 'l loglet_ops \<Rightarrow> 'l factory \<Rightarrow> 'l vlog_sys \<Rightarrow> 'l vlog_sys \<Rightarrow> bool"
  for P ops create where
  reach_start: "P y \<Longrightarrow> vlog_reach P ops create y y"
| reach_step: "vlog_reach P ops create y y' \<Longrightarrow> vlog_exec ops create ev y' = Some y'' \<Longrightarrow> P y'' \<Longrightarrow>
    vlog_reach P ops create y y''"

fun vlog_schedule :: "'l loglet_ops \<Rightarrow> 'l factory \<Rightarrow> vevent list \<Rightarrow> 'l vlog_sys \<Rightarrow> 'l vlog_sys option" where
  "vlog_schedule ops create [] y = Some y"
| "vlog_schedule ops create (ev # evs) y =
     (case vlog_exec ops create ev y of None \<Rightarrow> None | Some y' \<Rightarrow> vlog_schedule ops create evs y')"

text \<open>\<open>VirtualLog::new\<close>, with no call in flight.\<close>

fun create_arcs ::
  "'l factory \<Rightarrow> chain_segment list \<Rightarrow> (string \<rightharpoonup> nat) \<Rightarrow> 'l list \<Rightarrow> ((string \<rightharpoonup> nat) \<times> 'l list) result" where
  "create_arcs create [] ls heap = Inr (ls, heap)"
| "create_arcs create (s # ss) ls heap =
     and_then (create (loglet_id s)) (\<lambda>l. create_arcs create ss (ls(loglet_id s \<mapsto> length heap)) (heap @ [l]))"

definition vlog_init :: "'l factory \<Rightarrow> memory_meta_store \<Rightarrow> 'l vlog_sys result" where
  "vlog_init create m =
     and_then (meta_read m) (\<lambda>(chain, version).
     and_then (create_arcs create (segments chain) Map.empty []) (\<lambda>(ls, heap).
     Inr \<lparr>sv_meta = m, sv_chain = chain, sv_version = version, sv_loglets = ls, sv_heap = heap, sv_tasks = Map.empty\<rparr>))"

section \<open>The virtual log a state holds\<close>

definition sv_view :: "'l vlog_sys \<Rightarrow> 'l virtual_log" where
  "sv_view y = \<lparr>vl_meta = sv_meta y, vl_chain = sv_chain y, vl_version = sv_version y,
     vl_loglets = (\<lambda>i. map_option (\<lambda>h. sv_heap y ! h) (sv_loglets y i))\<rparr>"

definition handles_ok :: "'l vlog_sys \<Rightarrow> bool" where
  "handles_ok y \<longleftrightarrow> (\<forall>i h. sv_loglets y i = Some h \<longrightarrow> h < length (sv_heap y)) \<and>
     (\<forall>i j h. sv_loglets y i = Some h \<longrightarrow> sv_loglets y j = Some h \<longrightarrow> i = j)"

lemma sv_view_sel [simp]:
  "vl_meta (sv_view y) = sv_meta y" "vl_chain (sv_view y) = sv_chain y" "vl_version (sv_view y) = sv_version y"
  "vl_loglets (sv_view y) i = map_option (\<lambda>h. sv_heap y ! h) (sv_loglets y i)"
  "sv_view (y\<lparr>sv_tasks := ts\<rparr>) = sv_view y"
  "sv_view (y\<lparr>sv_meta := m\<rparr>) = (sv_view y)\<lparr>vl_meta := m\<rparr>"
  "sv_view (y\<lparr>sv_chain := c\<rparr>) = (sv_view y)\<lparr>vl_chain := c\<rparr>"
  "sv_view (y\<lparr>sv_version := n\<rparr>) = (sv_view y)\<lparr>vl_version := n\<rparr>"
  by (simp_all add: sv_view_def)

lemma handles_ok_frame [simp]:
  "handles_ok (y\<lparr>sv_tasks := ts\<rparr>) = handles_ok y" "handles_ok (y\<lparr>sv_meta := m\<rparr>) = handles_ok y"
  "handles_ok (y\<lparr>sv_chain := c\<rparr>) = handles_ok y" "handles_ok (y\<lparr>sv_version := n\<rparr>) = handles_ok y"
  "handles_ok (y\<lparr>sv_heap := (sv_heap y)[h := l]\<rparr>) = handles_ok y"
  by (simp_all add: handles_ok_def)

lemma view_put:
  assumes "handles_ok y" "sv_loglets y i = Some h"
  shows "sv_view (y\<lparr>sv_heap := (sv_heap y)[h := l]\<rparr>) = put_loglet i l (sv_view y)"
proof -
  have "map_option (\<lambda>g. (sv_heap y)[h := l] ! g) (sv_loglets y j) =
        ((\<lambda>j. map_option (\<lambda>g. sv_heap y ! g) (sv_loglets y j))(i \<mapsto> l)) j" for j
    using assms by (cases "sv_loglets y j") (auto simp: handles_ok_def nth_list_update)
  then show ?thesis by (simp add: sv_view_def put_loglet_def fun_eq_iff)
qed

lemma view_insert:
  assumes "handles_ok y"
  shows "sv_view (y\<lparr>sv_loglets := (sv_loglets y)(i \<mapsto> length (sv_heap y)), sv_heap := sv_heap y @ [l]\<rparr>) =
           put_loglet i l (sv_view y)"
    "handles_ok (y\<lparr>sv_loglets := (sv_loglets y)(i \<mapsto> length (sv_heap y)), sv_heap := sv_heap y @ [l]\<rparr>)"
proof -
  have "map_option (\<lambda>g. (sv_heap y @ [l]) ! g) (sv_loglets y j) = map_option (\<lambda>g. sv_heap y ! g) (sv_loglets y j)" for j
    using assms by (cases "sv_loglets y j") (auto simp: handles_ok_def nth_append)
  then show "sv_view (y\<lparr>sv_loglets := (sv_loglets y)(i \<mapsto> length (sv_heap y)), sv_heap := sv_heap y @ [l]\<rparr>) =
      put_loglet i l (sv_view y)"
    by (auto simp: sv_view_def put_loglet_def fun_eq_iff)
  show "handles_ok (y\<lparr>sv_loglets := (sv_loglets y)(i \<mapsto> length (sv_heap y)), sv_heap := sv_heap y @ [l]\<rparr>)"
    using assms unfolding handles_ok_def by (simp split: if_split) (metis less_irrefl less_SucI)
qed

section \<open>A call that runs alone\<close>

text \<open>\<open>run_task n k y\<close> runs \<open>n\<close> steps of one call. Run to its end without interruption, a call does what the
  functions of \<open>Virtual_Log\<close> say.\<close>

fun run_task :: "'l loglet_ops \<Rightarrow> 'l factory \<Rightarrow> nat \<Rightarrow> vtask \<Rightarrow> 'l vlog_sys \<Rightarrow> (vtask \<times> 'l vlog_sys) option" where
  "run_task ops create 0 k y = Some (k, y)"
| "run_task ops create (Suc n) k y =
     (case task_step ops create k y of None \<Rightarrow> None | Some (k', y') \<Rightarrow> run_task ops create n k' y')"

definition becomes :: "'l loglet_ops \<Rightarrow> 'l factory \<Rightarrow> vtask \<Rightarrow> 'l vlog_sys \<Rightarrow> vtask \<Rightarrow> 'l vlog_sys \<Rightarrow> bool" where
  "becomes ops create k y k' y' \<longleftrightarrow> (\<exists>n. run_task ops create n k y = Some (k', y'))"

lemma becomes_refl: "becomes ops create k y k y"
  unfolding becomes_def by (rule exI[of _ 0]) simp

lemma becomes_step:
  assumes "task_step ops create k y = Some (k1, y1)" "becomes ops create k1 y1 k' y'"
  shows "becomes ops create k y k' y'"
proof -
  obtain n where "run_task ops create n k1 y1 = Some (k', y')" using assms(2) by (auto simp: becomes_def)
  with assms(1) show ?thesis unfolding becomes_def by (intro exI[of _ "Suc n"]) simp
qed

lemma run_task_add:
  "run_task ops create m k y = Some (k1, y1) \<Longrightarrow> run_task ops create n k1 y1 = r \<Longrightarrow> run_task ops create (m + n) k y = r"
  by (induction m arbitrary: k y) (auto split: option.splits)

lemma becomes_trans:
  "becomes ops create k y k1 y1 \<Longrightarrow> becomes ops create k1 y1 k' y' \<Longrightarrow> becomes ops create k y k' y'"
  unfolding becomes_def using run_task_add by blast

lemma task_step_tasks: "task_step ops create k y = Some (k', y') \<Longrightarrow> sv_tasks y' = sv_tasks y"
  by (cases k) (auto simp: Let_def split: option.splits sum.splits prod.splits if_splits list.splits)

lemma becomes_tasks: "becomes ops create k y k' y' \<Longrightarrow> sv_tasks y' = sv_tasks y"
proof -
  have "sv_tasks y' = sv_tasks y" if "run_task ops create n k y = Some (k', y')" for n
    using that by (induction n arbitrary: k y) (auto split: option.splits dest: task_step_tasks)
  then show "becomes ops create k y k' y' \<Longrightarrow> sv_tasks y' = sv_tasks y" by (auto simp: becomes_def)
qed

text \<open>The two sections of \<open>get_active_loglet\<close> in a row.\<close>

lemma becomes_active:
  assumes "task_step ops create k y = Some (active_segment_step go fail y, y)"
    "\<And>s i. task_step ops create (go s i) y = Some (active_loglet_step i (go' s) fail y, y)"
  shows "get_active_loglet (sv_view y) = Inl err \<Longrightarrow> becomes ops create k y (fail err) y"
    "get_active_loglet (sv_view y) = Inr (i, l, start) \<Longrightarrow>
       \<exists>h. sv_loglets y i = Some h \<and> sv_heap y ! h = l \<and> becomes ops create k y (go' start h) y"
proof -
  show "becomes ops create k y (fail err) y" if "get_active_loglet (sv_view y) = Inl err"
  proof (cases "active_segment (sv_chain y)")
    case None
    with that assms(1) have "task_step ops create k y = Some (fail err, y)"
      by (simp add: active_segment_step_def get_active_loglet_def)
    then show ?thesis by (rule becomes_step) (rule becomes_refl)
  next
    case (Some s)
    with that assms have "task_step ops create k y = Some (go (start_pos s) (loglet_id s), y)"
      "task_step ops create (go (start_pos s) (loglet_id s)) y = Some (fail err, y)"
      by (auto simp: active_segment_step_def active_loglet_step_def get_active_loglet_def ok_or_def split: option.splits)
    then show ?thesis using becomes_step becomes_refl by metis
  qed
  show "\<exists>h. sv_loglets y i = Some h \<and> sv_heap y ! h = l \<and> becomes ops create k y (go' start h) y"
    if g: "get_active_loglet (sv_view y) = Inr (i, l, start)"
  proof -
    obtain s h where h: "active_segment (sv_chain y) = Some s" "loglet_id s = i" "start_pos s = start"
        "sv_loglets y i = Some h" "sv_heap y ! h = l"
      using g by (auto simp: get_active_loglet_def and_then_eq_Inr ok_or_def split: option.splits)
    with assms have "task_step ops create k y = Some (go start i, y)"
      "task_step ops create (go start i) y = Some (go' start h, y)"
      by (simp_all add: active_segment_step_def active_loglet_step_def)
    with h show ?thesis using becomes_step becomes_refl by metis
  qed
qed

lemma sync_arcs_view:
  assumes "handles_ok y" "sync_loglets create ss (vl_loglets (sv_view y)) = (r, ls)"
  shows "\<exists>ls' heap'. sync_arcs create ss (sv_loglets y) (sv_heap y) = (r, ls', heap') \<and>
    handles_ok (y\<lparr>sv_loglets := ls', sv_heap := heap'\<rparr>) \<and>
    sv_view (y\<lparr>sv_loglets := ls', sv_heap := heap'\<rparr>) = (sv_view y)\<lparr>vl_loglets := ls\<rparr>"
  using assms
proof (induction ss arbitrary: y)
  case Nil
  then show ?case by (intro exI[of _ "sv_loglets y"] exI[of _ "sv_heap y"]) (simp add: sv_view_def)
next
  case (Cons s ss)
  show ?case
  proof (cases "sv_loglets y (loglet_id s)")
    case (Some h)
    with Cons show ?thesis by simp
  next
    case None
    show ?thesis
    proof (cases "create (loglet_id s)")
      case (Inl err)
      with None Cons.prems show ?thesis
        by (intro exI[of _ "sv_loglets y"] exI[of _ "sv_heap y"]) (auto simp: sv_view_def)
    next
      case (Inr l)
      define y1 where "y1 = y\<lparr>sv_loglets := (sv_loglets y)(loglet_id s \<mapsto> length (sv_heap y)), sv_heap := sv_heap y @ [l]\<rparr>"
      note v = view_insert[OF Cons.prems(1), where i = "loglet_id s" and l = l, folded y1_def]
      have "sync_loglets create ss (vl_loglets (sv_view y1)) = (r, ls)"
        unfolding v(1) using Cons.prems(2) None Inr by (simp add: put_loglet_def sv_view_def)
      from Cons.IH[OF v(2) this] obtain ls' heap' where
        "sync_arcs create ss (sv_loglets y1) (sv_heap y1) = (r, ls', heap')"
        "handles_ok (y1\<lparr>sv_loglets := ls', sv_heap := heap'\<rparr>)"
        "sv_view (y1\<lparr>sv_loglets := ls', sv_heap := heap'\<rparr>) = (sv_view y1)\<lparr>vl_loglets := ls\<rparr>" by blast
      then show ?thesis
        using None Inr v(1) by (intro exI[of _ ls'] exI[of _ heap']) (simp add: y1_def put_loglet_def)
    qed
  qed
qed

definition after_reconfigure :: "entry \<Rightarrow> unit result \<Rightarrow> vtask" where
  "after_reconfigure e r = (case r of Inl err \<Rightarrow> AppDone e (Inl err) | Inr _ \<Rightarrow> AppSegment e)"

lemma solo_sync:
  assumes "handles_ok y" "sync_chain create (sv_view y) = (r, v')"
  shows "\<exists>y'. becomes ops create (SyncRead e) y (after_reconfigure e r) y' \<and> sv_view y' = v' \<and> handles_ok y'"
proof -
  let ?c = "ms_chain (sv_meta y)" and ?n = "ms_version (sv_meta y)"
  obtain q ls where q: "sync_loglets create (segments ?c) (vl_loglets (sv_view y)) = (q, ls)" by fastforce
  from sync_arcs_view[OF assms(1) q] obtain ls' heap' where
    a: "sync_arcs create (segments ?c) (sv_loglets y) (sv_heap y) = (q, ls', heap')"
      "handles_ok (y\<lparr>sv_loglets := ls', sv_heap := heap'\<rparr>)"
      "sv_view (y\<lparr>sv_loglets := ls', sv_heap := heap'\<rparr>) = (sv_view y)\<lparr>vl_loglets := ls\<rparr>" by blast
  define y1 where "y1 = y\<lparr>sv_loglets := ls', sv_heap := heap'\<rparr>"
  have s1: "task_step ops create (SyncRead e) y = Some (SyncLoglets e ?c ?n, y)" by (simp add: meta_read_def)
  show ?thesis
  proof (cases q)
    case (Inl err)
    then have "task_step ops create (SyncLoglets e ?c ?n) y = Some (AppDone e (Inl err), y1)"
      using a(1) by (simp add: y1_def)
    then have "becomes ops create (SyncRead e) y (AppDone e (Inl err)) y1"
      using s1 becomes_step becomes_refl by metis
    then show ?thesis
      using Inl assms(2) q a y1_def by (intro exI[of _ y1]) (auto simp: sync_chain_def meta_read_def after_reconfigure_def)
  next
    case (Inr u)
    define y2 where "y2 = y1\<lparr>sv_chain := ?c, sv_version := ?n\<rparr>"
    have "task_step ops create (SyncLoglets e ?c ?n) y = Some (SyncSetChain e ?c ?n, y1)"
      using a(1) Inr by (simp add: y1_def)
    moreover have "task_step ops create (SyncSetChain e ?c ?n) y1 = Some (SyncSetVersion e ?n, y1\<lparr>sv_chain := ?c\<rparr>)" by simp
    moreover have "task_step ops create (SyncSetVersion e ?n) (y1\<lparr>sv_chain := ?c\<rparr>) = Some (AppSegment e, y2)"
      by (simp add: y2_def)
    ultimately have "becomes ops create (SyncRead e) y (AppSegment e) y2"
      using s1 becomes_step becomes_refl by metis
    moreover have "sv_view y2 = v' \<and> handles_ok y2"
      using Inr assms(2) q a by (simp add: y2_def y1_def sync_chain_def meta_read_def)
    moreover have "r = Inr ()" using Inr assms(2) q by (simp add: sync_chain_def meta_read_def)
    ultimately show ?thesis by (auto simp: after_reconfigure_def)
  qed
qed

text \<open>The second half of \<open>reconfigure\<close>, from the compare-and-swap on.\<close>

definition finish_reconfigure :: "'l factory \<Rightarrow> string \<Rightarrow> log_chain \<Rightarrow> 'l virtual_log \<Rightarrow> unit result \<times> 'l virtual_log" where
  "finish_reconfigure create n c v =
     (if ms_version (vl_meta v) = vl_version v then
        (let v2 = v\<lparr>vl_meta := \<lparr>ms_chain = c, ms_version = vl_version v + 1\<rparr>\<rparr> in
         case create n of
           Inl err \<Rightarrow> (Inl err, v2)
         | Inr l \<Rightarrow> (Inr (), (put_loglet n l v2)\<lparr>vl_chain := c, vl_version := vl_version v + 1\<rparr>))
      else sync_chain create v)"

lemma reconfigure_finish:
  assumes "get_active_loglet v = Inr (i, l, start)" "lg_seal ops l = (Inr t, l')"
  shows "reconfigure ops create v =
    finish_reconfigure create (generate_loglet_id (vl_chain v))
      (chain_extend (local_to_global start t) (generate_loglet_id (vl_chain v)) (vl_chain v)) (put_loglet i l' v)"
  using assms
  by (cases "vl_meta v"; cases "create (generate_loglet_id (vl_chain v))"; cases v)
    (simp_all add: reconfigure_def finish_reconfigure_def Let_def meta_write_def put_loglet_def)

lemma solo_finish:
  assumes "handles_ok y" "finish_reconfigure create n c (sv_view y) = (r, v')"
  shows "\<exists>y'. becomes ops create (RecWrite e n c (sv_version y)) y (after_reconfigure e r) y' \<and> sv_view y' = v' \<and> handles_ok y'"
proof (cases "ms_version (sv_meta y) = sv_version y")
  case False
  then have "sync_chain create (sv_view y) = (r, v')" using assms(2) by (simp add: finish_reconfigure_def)
  from solo_sync[OF assms(1) this] obtain y' where
    y': "becomes ops create (SyncRead e) y (after_reconfigure e r) y'" "sv_view y' = v'" "handles_ok y'" by blast
  have "task_step ops create (RecWrite e n c (sv_version y)) y = Some (SyncRead e, y)"
    using False by (simp add: meta_write_def)
  then show ?thesis using y' becomes_step by metis
next
  case True
  define y2 where "y2 = y\<lparr>sv_meta := \<lparr>ms_chain = c, ms_version = sv_version y + 1\<rparr>\<rparr>"
  have w: "task_step ops create (RecWrite e n c (sv_version y)) y = Some (RecCreate e n c (sv_version y), y2)"
    using True by (simp add: y2_def meta_write_def)
  have ok: "handles_ok y2" using assms(1) by (simp add: y2_def)
  show ?thesis
  proof (cases "create n")
    case (Inl err)
    then have "task_step ops create (RecCreate e n c (sv_version y)) y2 = Some (AppDone e (Inl err), y2)" by simp
    then have "becomes ops create (RecWrite e n c (sv_version y)) y (AppDone e (Inl err)) y2"
      using w becomes_step becomes_refl by metis
    then show ?thesis
      using assms(2) True Inl ok by (auto simp: finish_reconfigure_def after_reconfigure_def Let_def y2_def)
  next
    case (Inr l)
    define y3 where "y3 = y2\<lparr>sv_loglets := (sv_loglets y2)(n \<mapsto> length (sv_heap y2)), sv_heap := sv_heap y2 @ [l]\<rparr>"
    note v3 = view_insert[OF ok, where i = n and l = l, folded y3_def]
    define y4 where "y4 = y3\<lparr>sv_chain := c, sv_version := sv_version y + 1\<rparr>"
    have "task_step ops create (RecCreate e n c (sv_version y)) y2 = Some (RecSetChain e c (sv_version y), y3)"
      using Inr by (simp add: y3_def)
    moreover have "task_step ops create (RecSetChain e c (sv_version y)) y3 =
        Some (RecSetVersion e (sv_version y), y3\<lparr>sv_chain := c\<rparr>)" by simp
    moreover have "task_step ops create (RecSetVersion e (sv_version y)) (y3\<lparr>sv_chain := c\<rparr>) = Some (AppSegment e, y4)"
      by (simp add: y4_def)
    ultimately have "becomes ops create (RecWrite e n c (sv_version y)) y (AppSegment e) y4"
      using w becomes_step becomes_refl by metis
    moreover have "r = Inr ()" "v' = sv_view y4"
      using assms(2) True Inr v3(1) by (auto simp: finish_reconfigure_def Let_def y4_def y2_def)
    ultimately show ?thesis using v3(2) by (auto simp: after_reconfigure_def y4_def)
  qed
qed

lemma solo_reconfigure:
  assumes "handles_ok y" "reconfigure ops create (sv_view y) = (r, v')"
  shows "\<exists>y'. becomes ops create (RecSegment e) y (after_reconfigure e r) y' \<and> sv_view y' = v' \<and> handles_ok y'"
proof (cases "get_active_loglet (sv_view y)")
  case (Inl err)
  have "becomes ops create (RecSegment e) y (AppDone e (Inl err)) y"
    by (rule becomes_active(1)[of _ _ _ _ "RecLoglet e" "\<lambda>err. AppDone e (Inl err)" "RecSeal e"]) (simp_all add: Inl)
  with assms Inl show ?thesis by (auto simp: reconfigure_def after_reconfigure_def)
next
  case (Inr a)
  obtain i l start where a: "get_active_loglet (sv_view y) = Inr (i, l, start)" using Inr by (cases a) simp
  obtain h where h: "sv_loglets y i = Some h" "sv_heap y ! h = l" "becomes ops create (RecSegment e) y (RecSeal e start h) y"
    using becomes_active(2)[of ops create "RecSegment e" y "RecLoglet e" "\<lambda>err. AppDone e (Inl err)" "RecSeal e", OF _ _ a]
    by auto
  obtain q l' where q: "lg_seal ops l = (q, l')" by fastforce
  define y1 where "y1 = y\<lparr>sv_heap := (sv_heap y)[h := l']\<rparr>"
  have v1: "sv_view y1 = put_loglet i l' (sv_view y)" "handles_ok y1"
    using view_put[OF assms(1) h(1)] assms(1) by (simp_all add: y1_def)
  show ?thesis
  proof (cases q)
    case (Inl err)
    then have "task_step ops create (RecSeal e start h) y = Some (AppDone e (Inl err), y1)"
      using h(2) q by (simp add: y1_def)
    then have "becomes ops create (RecSegment e) y (AppDone e (Inl err)) y1"
      using h(3) becomes_trans becomes_step becomes_refl by metis
    with assms(2) a Inl q v1 show ?thesis by (auto simp: reconfigure_def after_reconfigure_def)
  next
    case (Inr t)
    let ?g = "local_to_global start t" and ?n = "generate_loglet_id (sv_chain y)"
    let ?c = "chain_extend ?g ?n (sv_chain y)"
    have "finish_reconfigure create ?n ?c (sv_view y1) = (r, v')"
      using assms(2) reconfigure_finish[OF a, of ops t l' create] q Inr v1(1) by simp
    from solo_finish[OF v1(2) this] obtain y' where
      y': "becomes ops create (RecWrite e ?n ?c (sv_version y1)) y1 (after_reconfigure e r) y'" "sv_view y' = v'" "handles_ok y'"
      by blast
    have "task_step ops create (RecSeal e start h) y = Some (RecVersion e ?g, y1)"
      using h(2) q Inr by (simp add: y1_def)
    moreover have "task_step ops create (RecVersion e ?g) y1 = Some (RecChain e ?g (sv_version y1), y1)" by simp
    moreover have "task_step ops create (RecChain e ?g (sv_version y1)) y1 = Some (RecWrite e ?n ?c (sv_version y1), y1)"
      by (simp add: y1_def Let_def)
    ultimately have "becomes ops create (RecSeal e start h) y (RecWrite e ?n ?c (sv_version y1)) y1"
      using becomes_step becomes_refl by metis
    then show ?thesis using h(3) y' becomes_trans by metis
  qed
qed

text \<open>An append that runs alone to its end is \<open>vl_append\<close>.\<close>

definition solo_ok :: "'l loglet_ops \<Rightarrow> 'l factory \<Rightarrow> entry \<Rightarrow> 'l virtual_log \<Rightarrow> LogPos result \<times> 'l virtual_log \<Rightarrow> bool" where
  "solo_ok ops create e v rv \<longleftrightarrow> (\<forall>y. sv_view y = v \<longrightarrow> handles_ok y \<longrightarrow>
     (\<exists>y'. becomes ops create (AppSegment e) y (AppDone e (fst rv)) y' \<and> sv_view y' = snd rv \<and> handles_ok y'))"

lemma solo_append:
  assumes "vl_append ops create e v = Some rv"
  shows "solo_ok ops create e v rv"
proof (rule vl_append.raw_induct[OF _ assms])
  fix f and ops :: "'a loglet_ops" and create e v rv
  assume ih: "\<And>ops create e v rv. f ops create e v = Some rv \<Longrightarrow> solo_ok ops create e v rv"
    and body: "(case get_active_loglet v of Inl err \<Rightarrow> Some (Inl err, v)
      | Inr (i, l, start) \<Rightarrow>
          case lg_append ops e l of None \<Rightarrow> None
          | Some (Inl err, l') \<Rightarrow>
              if is_Sealed err
              then case reconfigure ops create (put_loglet i l' v) of
                   (Inl err', v') \<Rightarrow> Some (Inl err', v')
                   | (Inr x, v') \<Rightarrow> f ops create e v'
              else Some (Inl err, put_loglet i l' v)
          | Some (Inr local_pos, l') \<Rightarrow> Some (Inr (local_to_global start local_pos), put_loglet i l' v)) = Some rv"
  show "solo_ok ops create e v rv"
    unfolding solo_ok_def
  proof (intro allI impI)
    fix y assume y: "sv_view y = v" "handles_ok y"
    show "\<exists>y'. becomes ops create (AppSegment e) y (AppDone e (fst rv)) y' \<and> sv_view y' = snd rv \<and> handles_ok y'"
    proof (cases "get_active_loglet v")
      case (Inl err)
      have "becomes ops create (AppSegment e) y (AppDone e (Inl err)) y"
        by (rule becomes_active(1)[of _ _ _ _ "AppLoglet e" "\<lambda>err. AppDone e (Inl err)" "AppAppend e"]) (simp_all add: Inl y)
      with Inl body y show ?thesis by auto
    next
      case (Inr a)
      obtain i l start where a: "get_active_loglet (sv_view y) = Inr (i, l, start)" using Inr y by (cases a) simp
      obtain h where h: "sv_loglets y i = Some h" "sv_heap y ! h = l" "becomes ops create (AppSegment e) y (AppAppend e start h) y"
        using becomes_active(2)[of ops create "AppSegment e" y "AppLoglet e" "\<lambda>err. AppDone e (Inl err)" "AppAppend e", OF _ _ a]
        by auto
      obtain q l' where q: "lg_append ops e l = Some (q, l')"
        using body a y(1) by (cases "lg_append ops e l") auto
      define y1 where "y1 = y\<lparr>sv_heap := (sv_heap y)[h := l']\<rparr>"
      have v1: "sv_view y1 = put_loglet i l' v" "handles_ok y1"
        using view_put[OF y(2) h(1)] y by (simp_all add: y1_def)
      define k where "k = (case q of Inr p \<Rightarrow> AppDone e (Inr (local_to_global start p))
        | Inl err \<Rightarrow> if is_Sealed err then RecSegment e else AppDone e (Inl err))"
      have "task_step ops create (AppAppend e start h) y = Some (k, y1)"
        using h(2) q by (simp add: k_def y1_def split: sum.splits)
      then have k: "becomes ops create (AppSegment e) y k y1"
        using h(3) becomes_trans becomes_step becomes_refl by metis
      show ?thesis
      proof (cases "\<exists>err. q = Inl err \<and> is_Sealed err")
        case False
        then have "k = AppDone e (fst rv)" "snd rv = sv_view y1"
          using body a y(1) q v1(1) by (auto simp: k_def split: sum.splits)
        with k v1 show ?thesis by auto
      next
        case True
        obtain r v2 where r: "reconfigure ops create (sv_view y1) = (r, v2)" by fastforce
        from solo_reconfigure[OF v1(2) r] obtain y2 where
          y2: "becomes ops create (RecSegment e) y1 (after_reconfigure e r) y2" "sv_view y2 = v2" "handles_ok y2" by blast
        have b: "becomes ops create (AppSegment e) y (after_reconfigure e r) y2"
          using k y2(1) True becomes_trans by (auto simp: k_def)
        show ?thesis
        proof (cases r)
          case (Inl err)
          with body a y(1) q True r v1(1) b y2 show ?thesis
            by (intro exI[of _ y2]) (auto simp: after_reconfigure_def)
        next
          case (Inr u)
          then have "f ops create e v2 = Some rv" using body a y(1) q True r v1(1) by auto
          from ih[OF this] y2 obtain y3 where
            "becomes ops create (AppSegment e) y2 (AppDone e (fst rv)) y3" "sv_view y3 = snd rv" "handles_ok y3"
            unfolding solo_ok_def by blast
          moreover have "becomes ops create (AppSegment e) y (AppSegment e) y2"
            using b Inr by (simp add: after_reconfigure_def)
          ultimately show ?thesis using becomes_trans by blast
        qed
      qed
    qed
  qed
qed

lemma task_step_frame:
  "task_step ops create k (y\<lparr>sv_tasks := T\<rparr>) =
   map_option (\<lambda>(k', y'). (k', y'\<lparr>sv_tasks := T\<rparr>)) (task_step ops create k y)"
  by (cases k) (auto simp: active_segment_step_def active_loglet_step_def Let_def
      split: option.splits sum.splits prod.splits list.splits)

lemma run_schedule:
  "run_task ops create n k y = Some (k', y') \<Longrightarrow>
   vlog_schedule ops create (replicate n (Run t)) (y\<lparr>sv_tasks := T(t \<mapsto> k)\<rparr>) = Some (y'\<lparr>sv_tasks := T(t \<mapsto> k')\<rparr>)"
proof (induction n arbitrary: k y)
  case (Suc n)
  then obtain k1 y1 where "task_step ops create k y = Some (k1, y1)" "run_task ops create n k1 y1 = Some (k', y')"
    by (auto split: option.splits)
  with Suc.IH[of k1 y1] show ?case by (simp add: task_step_frame fun_upd_same del: fun_upd_apply)
qed simp

lemma schedule_append:
  "vlog_schedule ops create evs y = Some y' \<Longrightarrow>
   vlog_schedule ops create (evs @ evs') y = vlog_schedule ops create evs' y'"
  by (induction evs arbitrary: y) (auto split: option.splits)

lemma schedule_reach:
  assumes "vlog_schedule ops create evs y = Some y'"
  shows "vlog_reach (\<lambda>_. True) ops create y y'"
  using assms
proof (induction evs arbitrary: y' rule: rev_induct)
  case Nil
  then show ?case by (simp add: reach_start)
next
  case (snoc ev evs)
  then obtain y1 where "vlog_schedule ops create evs y = Some y1"
    by (induction evs arbitrary: y) (auto split: option.splits)
  with snoc schedule_append[OF this, of "[ev]"] show ?case
    by (auto split: option.splits intro: reach_step)
qed

lemma append_alone:
  assumes "handles_ok y" "sv_tasks y t = None" "vl_append ops create e (sv_view y) = Some (r, v')"
  shows "\<exists>n y'. vlog_schedule ops create (Spawn t (CallAppend e) # replicate n (Run t)) y = Some y' \<and>
    sv_tasks y' = (sv_tasks y)(t \<mapsto> AppDone e r) \<and> sv_view y' = v'"
proof -
  obtain y1 where y1: "becomes ops create (AppSegment e) y (AppDone e r) y1" "sv_view y1 = v'"
    using solo_append[OF assms(3)] assms(1) by (auto simp: solo_ok_def)
  then obtain n where "run_task ops create n (AppSegment e) y = Some (AppDone e r, y1)"
    by (auto simp: becomes_def)
  from run_schedule[OF this, of t "sv_tasks y"] y1(2) assms(2) show ?thesis
    by (intro exI[of _ n] exI[of _ "y1\<lparr>sv_tasks := (sv_tasks y)(t \<mapsto> AppDone e r)\<rparr>"]) simp
qed

text \<open>A trim that runs alone is \<open>VirtualLog::trim\<close>.\<close>

lemma becomes_trim:
  assumes "handles_ok y" "trim_segments ops p ss (vl_loglets (sv_view y)) = (r, ls)"
  shows "\<exists>y'. becomes ops create (TrimLoop p ss) y (TrimDone p r) y' \<and> sv_view y' = (sv_view y)\<lparr>vl_loglets := ls\<rparr>"
  using assms
proof (induction ss arbitrary: y)
  case Nil
  then have "task_step ops create (TrimLoop p []) y = Some (TrimDone p r, y)" "(sv_view y)\<lparr>vl_loglets := ls\<rparr> = sv_view y"
    by (auto simp: sv_view_def)
  then show ?case using becomes_step[OF _ becomes_refl] by metis
next
  case (Cons s ss)
  have e: "vl_loglets (sv_view y) = (\<lambda>a. map_option ((!) (sv_heap y)) (sv_loglets y a))" by (simp add: sv_view_def)
  have skip: ?case if "task_step ops create (TrimLoop p (s # ss)) y = Some (TrimLoop p ss, y)"
    "trim_segments ops p ss (vl_loglets (sv_view y)) = (r, ls)"
    using Cons.IH[OF Cons.prems(1) that(2)] becomes_step[OF that(1)] by blast
  let ?lp = "global_to_local (start_pos s) (min p (case end_pos s of None \<Rightarrow> - 1 | Some e \<Rightarrow> e))"
  show ?case
  proof (cases "start_pos s < p \<and> sv_loglets y (loglet_id s) \<noteq> None")
    case True
    then obtain h where h: "sv_loglets y (loglet_id s) = Some h" by auto
    obtain q l' where l': "lg_trim ops ?lp (sv_heap y ! h) = (q, l')" by fastforce
    let ?y = "y\<lparr>sv_heap := (sv_heap y)[h := l']\<rparr>"
    have v: "sv_view ?y = put_loglet (loglet_id s) l' (sv_view y)" using view_put[OF Cons.prems(1) h] .
    show ?thesis
    proof (cases q)
      case (Inl err)
      then have "task_step ops create (TrimLoop p (s # ss)) y = Some (TrimDone p r, ?y)" "sv_view ?y = (sv_view y)\<lparr>vl_loglets := ls\<rparr>"
        using True h l' v e Cons.prems(2) by (auto simp: Let_def put_loglet_def)
      then show ?thesis using becomes_step[OF _ becomes_refl] by metis
    next
      case (Inr u)
      then have step: "task_step ops create (TrimLoop p (s # ss)) y = Some (TrimLoop p ss, ?y)"
        "trim_segments ops p ss (vl_loglets (sv_view ?y)) = (r, ls)"
        using True h l' v e Cons.prems(2) by (auto simp: Let_def put_loglet_def)
      have "handles_ok ?y" using Cons.prems(1) by simp
      from Cons.IH[OF this step(2)] obtain y' where
        y': "becomes ops create (TrimLoop p ss) ?y (TrimDone p r) y'" "sv_view y' = (sv_view ?y)\<lparr>vl_loglets := ls\<rparr>" by blast
      then have "sv_view y' = (sv_view y)\<lparr>vl_loglets := ls\<rparr>" using v by (simp add: put_loglet_def)
      with becomes_step[OF step(1) y'(1)] show ?thesis by blast
    qed
  next
    case False
    then show ?thesis using Cons.prems(2) by (intro skip) (auto simp: e Let_def split: if_splits)
  qed
qed

lemma trim_alone:
  assumes "handles_ok y" "sv_tasks y t = None" "vl_trim ops p (sv_view y) = (r, v')"
  shows "\<exists>n y'. vlog_schedule ops create (Spawn t (CallTrim p) # replicate n (Run t)) y = Some y' \<and>
    sv_tasks y' = (sv_tasks y)(t \<mapsto> TrimDone p r) \<and> sv_view y' = v'"
proof -
  obtain ls where ls: "trim_segments ops p (segments (sv_chain y)) (vl_loglets (sv_view y)) = (r, ls)"
    "v' = (sv_view y)\<lparr>vl_loglets := ls\<rparr>" using assms(3) by (auto simp: vl_trim_def split: prod.splits)
  obtain y1 where y1: "becomes ops create (TrimLoop p (segments (sv_chain y))) y (TrimDone p r) y1" "sv_view y1 = v'"
    using becomes_trim[OF assms(1) ls(1)] ls(2) by blast
  have "becomes ops create (TrimSegments p) y (TrimDone p r) y1" by (rule becomes_step[OF _ y1(1)]) simp
  then obtain n where "run_task ops create n (TrimSegments p) y = Some (TrimDone p r, y1)" by (auto simp: becomes_def)
  from run_schedule[OF this, of t "sv_tasks y"] y1(2) assms(2) show ?thesis
    by (intro exI[of _ n] exI[of _ "y1\<lparr>sv_tasks := (sv_tasks y)(t \<mapsto> TrimDone p r)\<rparr>"]) simp
qed

end
