(* ===== verification/Virtual_Log_Concurrent.thy ===== *)
theory Virtual_Log_Concurrent
  imports Virtual_Log_Steps
begin

text \<open>
  The tasks of \<open>Virtual_Log_Steps\<close> interleaved. As long as no two reconfigurations overlap, the virtual log
  stays one log: \<open>sys_ok\<close> is the invariant, and \<open>concurrent_append\<close> says what a caller whose append has
  returned can rely on.
\<close>

section \<open>Executions without overlapping reconfigurations\<close>

fun in_reconfigure :: "vtask \<Rightarrow> bool" where
  "in_reconfigure (RecSegment e) = True"
| "in_reconfigure (RecLoglet e s i) = True"
| "in_reconfigure (RecSeal e s h) = True"
| "in_reconfigure (RecVersion e g) = True"
| "in_reconfigure (RecChain e g v) = True"
| "in_reconfigure (RecWrite e i c v) = True"
| "in_reconfigure (RecCreate e i c v) = True"
| "in_reconfigure (RecSetChain e c v) = True"
| "in_reconfigure (RecSetVersion e v) = True"
| "in_reconfigure (SyncRead e) = True"
| "in_reconfigure (SyncLoglets e c v) = True"
| "in_reconfigure (SyncSetChain e c v) = True"
| "in_reconfigure (SyncSetVersion e v) = True"
| "in_reconfigure _ = False"

definition one_reconfigures :: "'l vlog_sys \<Rightarrow> bool" where
  "one_reconfigures y \<longleftrightarrow> (\<forall>t u k k'. sv_tasks y t = Some k \<longrightarrow> sv_tasks y u = Some k' \<longrightarrow>
     in_reconfigure k \<longrightarrow> in_reconfigure k' \<longrightarrow> t = u)"

text \<open>Positions have not run out.\<close>

definition has_room :: "'l loglet_ops \<Rightarrow> 'l vlog_sys \<Rightarrow> bool" where
  "has_room ops y \<longleftrightarrow> (\<forall>T. vl_check_tail ops (sv_view y) = Inr T \<longrightarrow> unat T + 1 < 2 ^ 64)"

text \<open>Nobody asks to trim what has not been written.\<close>

definition trims_in_range :: "'l loglet_ops \<Rightarrow> 'l vlog_sys \<Rightarrow> bool" where
  "trims_in_range ops y \<longleftrightarrow> (\<forall>t p T. sv_tasks y t = Some (TrimSegments p) \<longrightarrow> vl_check_tail ops (sv_view y) = Inr T \<longrightarrow> p \<le> T)"

definition orderly :: "'l loglet_ops \<Rightarrow> 'l vlog_sys \<Rightarrow> bool" where
  "orderly ops y \<longleftrightarrow> one_reconfigures y \<and> has_room ops y \<and> trims_in_range ops y"

section \<open>The invariant\<close>

definition has_seg :: "'l vlog_sys \<Rightarrow> LogPos \<Rightarrow> string \<Rightarrow> bool" where
  "has_seg y s i \<longleftrightarrow> (\<exists>z \<in> set (segments (sv_chain y)). loglet_id z = i \<and> start_pos z = s)"

text \<open>\<open>covers y n s i\<close>: the segment at \<open>s\<close> does not end at or before \<open>n\<close>. \<open>later_ok\<close> is what a query that started
  when \<open>e\<close> was already at position \<open>n\<close> knows: it goes to a segment that covers \<open>n\<close>.\<close>

definition covers :: "'l vlog_sys \<Rightarrow> nat \<Rightarrow> LogPos \<Rightarrow> string \<Rightarrow> bool" where
  "covers y n s i \<longleftrightarrow> (\<exists>z \<in> set (segments (sv_chain y)). loglet_id z = i \<and> start_pos z = s \<and>
     (\<forall>e. end_pos z = Some e \<longrightarrow> n < unat e))"

fun later_ok :: "'l vlog_sys \<Rightarrow> nat \<Rightarrow> entry \<Rightarrow> vtask \<Rightarrow> bool" where
  "later_ok y n e (TailLoglet s i) = covers y n s i"
| "later_ok y n e (TailCheck s h) = (\<exists>i. covers y n s i \<and> sv_loglets y i = Some h)"
| "later_ok y n e (TailDone r) = (\<exists>T. r = Inr T \<and> n < unat T)"
| "later_ok y n e (ReadLoglet q s i) = (unat q = n \<longrightarrow> covers y n s i \<and> s \<le> q)"
| "later_ok y n e (ReadDone q r) = (unat q = n \<longrightarrow> r = Inr (Some e) \<or> (\<exists>m. r = Inl (Trimmed m)))"
| "later_ok y n e _ = True"

definition next_chain :: "'l vlog_sys \<Rightarrow> alog \<Rightarrow> log_chain" where
  "next_chain y A = chain_extend (of_nat (al_tail A)) (generate_loglet_id (sv_chain y)) (sv_chain y)"

text \<open>What is left to do of a trim at \<open>p\<close>: the rest of the segments of a chain that has since been extended, from
  the position up to which the log is trimmed.\<close>

fun planned :: "'l vlog_sys \<Rightarrow> LogPos \<Rightarrow> chain_segment list \<Rightarrow> bool" where
  "planned y p [] = True"
| "planned y p (s # ss) =
     (case end_pos s of
        None \<Rightarrow> ss = [] \<and> covers y (unat p - 1) (start_pos s) (loglet_id s)
      | Some e \<Rightarrow> s \<in> set (segments (sv_chain y)) \<and> (\<exists>s' ss'. ss = s' # ss' \<and> start_pos s' = e) \<and> planned y p ss)"

lemma planned_tasks [simp]: "planned (y\<lparr>sv_tasks := ts\<rparr>) p ss = planned y p ss"
  by (induction ss) (simp_all add: covers_def split: option.splits)

definition trimmed_to :: "LogPos \<Rightarrow> chain_segment list \<Rightarrow> nat" where
  "trimmed_to p ss = (case ss of [] \<Rightarrow> unat p | s # _ \<Rightarrow> min (unat p) (unat (start_pos s)))"

fun trim_pos :: "vtask \<Rightarrow> LogPos option" where
  "trim_pos (TrimSegments p) = Some p"
| "trim_pos (TrimLoop p ss) = Some p"
| "trim_pos (TrimDone p r) = Some p"
| "trim_pos _ = None"

text \<open>Somebody has asked to trim the log beyond \<open>n\<close>.\<close>

definition trim_asked :: "'l vlog_sys \<Rightarrow> nat \<Rightarrow> bool" where
  "trim_asked y n \<longleftrightarrow> (\<exists>t k p. sv_tasks y t = Some k \<and> trim_pos k = Some p \<and> n < unat p)"

text \<open>What a call in flight knows. \<open>A\<close> is the log as a whole, \<open>x\<close> the active segment with its log.\<close>

fun task_ok :: "('l \<Rightarrow> alog \<Rightarrow> bool) \<Rightarrow> 'l vlog_sys \<Rightarrow> alog \<Rightarrow> chain_segment \<times> alog \<Rightarrow> vtask \<Rightarrow> bool" where
  "task_ok rel y A x (AppLoglet e s i) = has_seg y s i"
| "task_ok rel y A x (AppAppend e s h) = (\<exists>i. has_seg y s i \<and> sv_loglets y i = Some h)"
| "task_ok rel y A x (AppDone e r) =
     (\<exists>p. r = Inr p \<and> 1 \<le> unat p \<and> unat p < al_tail A \<and> al_at A (unat p) = e)"
| "task_ok rel y A x (RecLoglet e s i) = (i = seg_id x \<and> s = start_pos (fst x))"
| "task_ok rel y A x (RecSeal e s h) = (sv_loglets y (seg_id x) = Some h \<and> s = start_pos (fst x))"
| "task_ok rel y A x (RecVersion e g) = (al_sealed (snd x) \<and> g = of_nat (al_tail A))"
| "task_ok rel y A x (RecChain e g v) = (al_sealed (snd x) \<and> g = of_nat (al_tail A) \<and> v = sv_version y)"
| "task_ok rel y A x (RecWrite e i c v) =
     (al_sealed (snd x) \<and> i = generate_loglet_id (sv_chain y) \<and> c = next_chain y A \<and> v = sv_version y)"
| "task_ok rel y A x (RecCreate e i c v) =
     (al_sealed (snd x) \<and> i = generate_loglet_id (sv_chain y) \<and> c = next_chain y A \<and> v = sv_version y \<and>
      sv_meta y = \<lparr>ms_chain = c, ms_version = v + 1\<rparr>)"
| "task_ok rel y A x (RecSetChain e c v) =
     (al_sealed (snd x) \<and> c = next_chain y A \<and> v = sv_version y \<and> sv_meta y = \<lparr>ms_chain = c, ms_version = v + 1\<rparr> \<and>
      (\<exists>l. vl_loglets (sv_view y) (generate_loglet_id (sv_chain y)) = Some l \<and> rel l alog_new))"
| "task_ok rel y A x (RecSetVersion e v) =
     (v = sv_version y \<and> sv_meta y = \<lparr>ms_chain = sv_chain y, ms_version = v + 1\<rparr>)"
| "task_ok rel y A x (SyncRead e) = False"
| "task_ok rel y A x (SyncLoglets e c v) = False"
| "task_ok rel y A x (SyncSetChain e c v) = False"
| "task_ok rel y A x (SyncSetVersion e v) = False"
| "task_ok rel y A x (TailLoglet s i) = has_seg y s i"
| "task_ok rel y A x (TailCheck s h) = (\<exists>i. has_seg y s i \<and> sv_loglets y i = Some h)"
| "task_ok rel y A x (TailDone r) = (\<exists>T. r = Inr T \<and> unat T \<le> al_tail A)"
| "task_ok rel y A x (ReadLoglet p s i) = (has_seg y s i \<and> s \<le> p)"
| "task_ok rel y A x (ReadDone p r) =
     (case r of Inl err \<Rightarrow> p = 0 \<or> unat p < al_trim A \<and> (\<exists>m. err = Trimmed m)
      | Inr None \<Rightarrow> True
      | Inr (Some e) \<Rightarrow> 1 \<le> unat p \<and> unat p < al_tail A \<and> al_at A (unat p) = e)"
| "task_ok rel y A x (SealLoglet s i) = has_seg y s i"
| "task_ok rel y A x (SealSeal s h) = (\<exists>i. has_seg y s i \<and> sv_loglets y i = Some h)"
| "task_ok rel y A x (SealDone r) = (\<exists>T. r = Inr T \<and> unat T \<le> al_tail A)"
| "task_ok rel y A x (TrimLoop p ss) = (unat p \<le> al_tail A \<and> planned y p ss \<and> trimmed_to p ss \<le> al_trim A)"
| "task_ok rel y A x (TrimDone p r) = (r = Inr () \<and> unat p \<le> al_trim A)"
| "task_ok rel y A x _ = True"

fun post_cas :: "vtask \<Rightarrow> bool" where
  "post_cas (RecCreate e i c v) = True"
| "post_cas (RecSetChain e c v) = True"
| "post_cas (RecSetVersion e v) = True"
| "post_cas _ = False"

definition core_ok ::
  "('l \<Rightarrow> alog \<Rightarrow> bool) \<Rightarrow> 'l vlog_sys \<Rightarrow> alog \<Rightarrow> (chain_segment \<times> alog) list \<Rightarrow> chain_segment \<times> alog \<Rightarrow> bool" where
  "core_ok rel y A xs x \<longleftrightarrow> vl_parts rel (sv_view y) A xs x \<and> 1 \<le> al_trim A \<and> al_trim A \<le> al_tail A \<and>
     al_tail A < 2 ^ 64 \<and> handles_ok y"

definition settled :: "'l vlog_sys \<Rightarrow> bool" where
  "settled y \<longleftrightarrow> sv_meta y = \<lparr>ms_chain = sv_chain y, ms_version = sv_version y\<rparr>"

definition acks_distinct :: "'l vlog_sys \<Rightarrow> bool" where
  "acks_distinct y \<longleftrightarrow> (\<forall>t u e e' p. sv_tasks y t = Some (AppDone e (Inr p)) \<longrightarrow>
     sv_tasks y u = Some (AppDone e' (Inr p)) \<longrightarrow> t = u)"

definition sys_ok ::
  "('l \<Rightarrow> alog \<Rightarrow> bool) \<Rightarrow> 'l vlog_sys \<Rightarrow> alog \<Rightarrow> (chain_segment \<times> alog) list \<Rightarrow> chain_segment \<times> alog \<Rightarrow> bool" where
  "sys_ok rel y A xs x \<longleftrightarrow> core_ok rel y A xs x \<and> (\<forall>t k. sv_tasks y t = Some k \<longrightarrow> task_ok rel y A x k) \<and>
     ((\<forall>t k. sv_tasks y t = Some k \<longrightarrow> \<not> post_cas k) \<longrightarrow> settled y) \<and> acks_distinct y \<and>
     (\<forall>n. 1 \<le> n \<longrightarrow> n < al_trim A \<longrightarrow> trim_asked y n)"

lemma core_okD:
  assumes "core_ok rel y A xs x"
  shows "vl_parts rel (sv_view y) A xs x" "1 \<le> al_trim A" "al_tail A < 2 ^ 64" "handles_ok y" "al_trim A \<le> al_tail A"
  using assms by (simp_all add: core_ok_def)

lemma has_seg_active:
  assumes "vl_parts rel (sv_view y) A xs x"
  shows "active_segment (sv_chain y) = Some (fst x)" "has_seg y (start_pos (fst x)) (seg_id x)"
  using assms by (cases "sv_chain y", auto simp: vl_parts_def active_segment_def has_seg_def seg_id_def)+

lemma segments_next_chain:
  assumes "vl_parts rel (sv_view y) A xs x"
  shows "segments (next_chain y A) = map fst xs @
    [(fst x)\<lparr>end_pos := Some (of_nat (al_tail A))\<rparr>,
     \<lparr>loglet_id = generate_loglet_id (sv_chain y), start_pos = of_nat (al_tail A), end_pos = None\<rparr>]"
  using assms by (simp add: vl_parts_def next_chain_def chain_extend_def close_last_snoc)

definition al_extends :: "alog \<Rightarrow> alog \<Rightarrow> bool" where
  "al_extends A A' \<longleftrightarrow> (\<exists>es. al_entries A' = al_entries A @ es) \<and> al_trim A \<le> al_trim A'"

lemma al_extends_refl [simp]: "al_extends A A"
  by (simp add: al_extends_def)

lemma al_extends_push [simp]: "al_extends A (al_push e A)"
  by (simp add: al_extends_def)

lemma al_extends_trans: "al_extends A B \<Longrightarrow> al_extends B C \<Longrightarrow> al_extends A C"
  by (auto simp: al_extends_def)

lemma al_extends_trim [simp]: "al_trim A \<le> T \<Longrightarrow> al_extends A (A\<lparr>al_trim := T\<rparr>)"
  by (simp add: al_extends_def)

lemma al_extends_tail: "al_extends A A' \<Longrightarrow> al_tail A \<le> al_tail A'"
  by (auto simp: al_extends_def al_tail_def)

lemma al_extends_trim_le: "al_extends A A' \<Longrightarrow> al_trim A \<le> al_trim A'"
  by (simp add: al_extends_def)

lemma al_extends_at: "al_extends A A' \<Longrightarrow> 1 \<le> p \<Longrightarrow> p < al_tail A \<Longrightarrow> al_at A' p = al_at A p"
  by (auto simp: al_extends_def al_tail_def al_at_def nth_append)

text \<open>What a step may do to the calls in flight: \<open>kept\<close> changes at most the state of loglets in the
  chain; \<open>grown\<close> may also extend the chain.\<close>

definition kept :: "'l vlog_sys \<Rightarrow> alog \<Rightarrow> chain_segment \<times> alog \<Rightarrow> 'l vlog_sys \<Rightarrow> alog \<Rightarrow> chain_segment \<times> alog \<Rightarrow> bool" where
  "kept y A x y' A' x' \<longleftrightarrow> sv_meta y' = sv_meta y \<and> sv_chain y' = sv_chain y \<and> sv_version y' = sv_version y \<and>
     sv_loglets y' = sv_loglets y \<and> fst x' = fst x \<and> al_extends A A' \<and>
     (al_sealed (snd x) \<longrightarrow> al_sealed (snd x') \<and> al_tail A' = al_tail A) \<and>
     (\<forall>i. i \<notin> loglet_id ` set (segments (sv_chain y)) \<longrightarrow> vl_loglets (sv_view y') i = vl_loglets (sv_view y) i)"

definition grown :: "'l vlog_sys \<Rightarrow> alog \<Rightarrow> 'l vlog_sys \<Rightarrow> alog \<Rightarrow> bool" where
  "grown y A y' A' \<longleftrightarrow> al_extends A A' \<and>
     (\<forall>s i. has_seg y s i \<longrightarrow> has_seg y' s i \<and> sv_loglets y' i = sv_loglets y i) \<and>
     (\<forall>z \<in> set (segments (sv_chain y)). end_pos z \<noteq> None \<longrightarrow> z \<in> set (segments (sv_chain y'))) \<and>
     (\<forall>n s i. covers y n s i \<longrightarrow> n < al_tail A \<longrightarrow> covers y' n s i)"

lemma kept_refl [simp]: "kept y A x y A x"
  by (simp add: kept_def)

lemma kept_grown: "kept y A x y' A' x' \<Longrightarrow> grown y A y' A'"
  by (simp add: kept_def grown_def has_seg_def covers_def)

lemma covers_has_seg: "covers y n s i \<Longrightarrow> has_seg y s i"
  by (auto simp: covers_def has_seg_def)

lemma grown_later_ok:
  assumes "grown y A y' A'" "later_ok y n e k" "n < al_tail A"
  shows "later_ok y' n e k"
proof -
  have "covers y' n s i \<and> sv_loglets y' i = sv_loglets y i" if "covers y n s i" for s i
    using assms(1,3) that covers_has_seg[OF that] by (simp add: grown_def)
  with assms(2) show ?thesis by (cases k) force+
qed

lemma grown_extends: "grown y A y' A' \<Longrightarrow> al_extends A A'"
  by (simp add: grown_def)

lemma planned_grown:
  assumes "grown y A y' A'" "planned y p ss" "unat p \<le> al_tail A"
  shows "planned y' p ss"
  using assms(2)
proof (induction ss)
  case (Cons s ss)
  have "unat p - 1 < al_tail A" using assms(3) by (simp add: al_tail_def)
  with Cons assms(1) show ?case by (cases "end_pos s") (auto simp: grown_def)
qed simp

lemma grown_task_ok:
  assumes "grown y A y' A'" "task_ok rel y A x k" "\<not> in_reconfigure k"
  shows "task_ok rel y' A' x' k"
proof -
  have x: "al_extends A A'" using assms(1) by (rule grown_extends)
  note e = al_extends_tail[OF x] al_extends_at[OF x] al_extends_trim_le[OF x]
  show ?thesis
  proof (cases k)
    case (TrimLoop p ss)
    with assms(2) planned_grown[OF assms(1), of p ss] e show ?thesis by auto
  next
    case (ReadDone p r)
    with assms(2) e show ?thesis by (cases r) (auto split: option.splits intro: less_le_trans)
  qed (use assms e in \<open>fastforce simp: grown_def\<close>)+
qed

lemma generated_id_fresh:
  assumes "vl_parts rel (sv_view y) A xs x"
  shows "generate_loglet_id (sv_chain y) \<notin> loglet_id ` set (segments (sv_chain y))"
proof -
  have "loglet_id ` set (segments (sv_chain y)) = set (map seg_id (xs @ [x]))"
    using assms by (simp add: vl_parts_def seg_id_def image_image)
  moreover have "generate_loglet_id (sv_chain y) = loglet_name (length (xs @ [x]))"
    using assms by (simp add: vl_parts_def generate_loglet_id_def)
  ultimately show ?thesis using assms by (simp add: vl_parts_def ids_ok_def)
qed

lemma kept_task_ok:
  assumes "kept y A x y' A' x'" "core_ok rel y A xs x" "task_ok rel y A x k"
  shows "task_ok rel y' A' x' k"
proof (cases "in_reconfigure k")
  case False
  have "grown y A y' A'" using assms(1) by (rule kept_grown)
  then show ?thesis using assms(3) False by (rule grown_task_ok)
next
  case True
  have "vl_loglets (sv_view y') (generate_loglet_id (sv_chain y)) = vl_loglets (sv_view y) (generate_loglet_id (sv_chain y))"
    using assms(1) generated_id_fresh[OF core_okD(1)[OF assms(2)]] unfolding kept_def by blast
  then show ?thesis
    using True assms(1,3) by (cases k) (simp_all add: kept_def seg_id_def next_chain_def)
qed

lemma parts_meta [simp]:
  "vl_parts rel (v\<lparr>vl_meta := m\<rparr>) A xs x = vl_parts rel v A xs x"
  "vl_parts rel (v\<lparr>vl_version := n\<rparr>) A xs x = vl_parts rel v A xs x"
  by (simp_all add: vl_parts_def)

lemma task_trim_pos: "task_step ops create k y = Some (k', y') \<Longrightarrow> trim_pos k' = trim_pos k"
  by (cases k) (auto simp: active_segment_step_def active_loglet_step_def Let_def
    split: option.splits sum.splits prod.splits if_splits list.splits)

context chained_log
begin

text \<open>The loglet a call refers to is that of a segment, and every segment but the active one is
  sealed.\<close>

lemma has_seg_parts:
  assumes "core_ok rel y A xs x" "has_seg y s i"
  shows "\<exists>us z vs h. xs @ [x] = us @ z # vs \<and> seg_id z = i \<and> s = of_nat (1 + seg_total us) \<and>
    sv_loglets y i = Some h \<and> rel (sv_heap y ! h) (snd z) \<and> al_trim (snd z) = local_trim (al_trim A) (1 + seg_total us) (seg_len z) \<and>
    (vs \<noteq> [] \<longrightarrow> al_sealed (snd z)) \<and>
    (vs \<noteq> [] \<longrightarrow> end_pos (fst z) = Some (of_nat (1 + seg_total us + seg_len z)))"
proof -
  note p = core_okD(1)[OF assms(1)]
  obtain w where w: "w \<in> set (segments (sv_chain y))" "loglet_id w = i" "start_pos w = s"
    using assms(2) by (auto simp: has_seg_def)
  then have "w \<in> fst ` set (xs @ [x])" using p by (simp add: vl_parts_def)
  then obtain z where z: "z \<in> set (xs @ [x])" "fst z = w" by blast
  then obtain us vs where u: "xs @ [x] = us @ z # vs" by (meson split_list)
  have "seg_ok rel (vl_loglets (sv_view y)) (al_trim A) (1 + seg_total us) z \<and> (vs \<noteq> [] \<longrightarrow> al_sealed (snd z)) \<and>
    (vs \<noteq> [] \<longrightarrow> end_pos (fst z) = Some (of_nat (1 + seg_total us + seg_len z)))"
  proof (cases vs rule: rev_cases)
    case Nil
    then show ?thesis using p u by (simp add: vl_parts_def)
  next
    case (snoc vs' v)
    then have "xs = us @ z # vs'" using u by simp
    then show ?thesis using p by (simp add: vl_parts_def closed_segs_append)
  qed
  then show ?thesis
    using u z w by (intro exI[of _ us] exI[of _ z] exI[of _ vs]) (auto simp: seg_ok_def seg_id_def)
qed

lemma parts_distinct:
  assumes "vl_parts rel v A xs x" "xs @ [x] = us @ z # vs" "z' \<in> set us \<union> set vs"
  shows "seg_id z' \<noteq> seg_id z"
proof -
  have "distinct (map seg_id (xs @ [x]))" using assms(1) unfolding vl_parts_def ids_ok_def by blast
  then have "seg_id z \<notin> seg_id ` set us \<union> seg_id ` set vs" unfolding assms(2) by simp
  then show ?thesis using assms(3) by (metis UnE UnI1 UnI2 imageI)
qed

lemma parts_put_same:
  assumes "vl_parts rel v A xs x" "xs @ [x] = us @ z # vs" "rel l (snd z)"
  shows "vl_parts rel (put_loglet (seg_id z) l v) A xs x"
proof (rule parts_keep[OF assms(1)])
  show "\<forall>w \<in> set (xs @ [x]). \<exists>l'. vl_loglets (put_loglet (seg_id z) l v) (seg_id w) = Some l' \<and> rel l' (snd w)"
    using parts_loglets[OF assms(1)] parts_distinct[OF assms(1,2)] assms(3) unfolding assms(2) by auto
qed simp

lemma seg_global:
  assumes "core_ok rel y A xs x" "xs @ [x] = us @ z # vs"
  shows "local_to_global (of_nat (1 + seg_total us)) (of_nat (al_tail (snd z))) = of_nat (1 + seg_total us + seg_len z)"
    "1 + seg_total us + seg_len z \<le> al_tail A"
proof -
  show "local_to_global (of_nat (1 + seg_total us)) (of_nat (al_tail (snd z))) = of_nat (1 + seg_total us + seg_len z)"
    by (subst local_to_global_of_nat) (simp_all add: al_tail_def seg_len_def)
  have "seg_total (xs @ [x]) = seg_total (us @ z # vs)" using assms(2) by simp
  then show "1 + seg_total us + seg_len z \<le> al_tail A"
    using parts_tail[OF core_okD(1)[OF assms(1)]] by simp
qed

lemma active_segment_task:
  assumes "core_ok rel y A xs x"
  shows "active_segment_step go fail y = go (start_pos (fst x)) (seg_id x)" "has_seg y (start_pos (fst x)) (seg_id x)"
  using has_seg_active[OF core_okD(1)[OF assms]] by (simp_all add: active_segment_step_def seg_id_def)

lemma has_seg_handle:
  assumes "core_ok rel y A xs x" "has_seg y s i"
  shows "\<exists>h. sv_loglets y i = Some h"
  using has_seg_parts[OF assms] by blast

text \<open>A loglet of the chain takes a new state that stands for the same log, or the active one for
  another.\<close>

lemma heap_same:
  assumes "core_ok rel y A xs x" "xs @ [x] = us @ z # vs" "sv_loglets y (seg_id z) = Some h" "rel l (snd z)"
  defines "y' \<equiv> y\<lparr>sv_heap := (sv_heap y)[h := l]\<rparr>"
  shows "core_ok rel y' A xs x" "kept y A x y' A x"
proof -
  note c = core_okD[OF assms(1)]
  have v: "sv_view y' = put_loglet (seg_id z) l (sv_view y)"
    unfolding y'_def by (rule view_put[OF c(4) assms(3)])
  show "core_ok rel y' A xs x"
    using parts_put_same[OF c(1) assms(2,4)] c v by (simp add: core_ok_def y'_def)
  have "segments (sv_chain y) = map fst (us @ z # vs)"
    using c(1) unfolding vl_parts_def assms(2) by simp
  then have "seg_id z \<in> loglet_id ` set (segments (sv_chain y))" by (simp add: seg_id_def)
  then show "kept y A x y' A x" using v by (auto simp: kept_def y'_def)
qed

lemma heap_active:
  assumes "core_ok rel y A xs x" "sv_loglets y (seg_id x) = Some h" "rel l a"
    "al_trim a = local_trim (al_trim A) (1 + seg_total xs) (length (al_entries a))"
    "al_extends A A'" "al_trim A' = al_trim A" "al_tail A' < 2 ^ 64"
    "al_entries A' = concat (map (al_entries \<circ> snd) xs) @ al_entries a"
    "al_sealed (snd x) \<longrightarrow> al_sealed a \<and> al_tail A' = al_tail A"
  defines "y' \<equiv> y\<lparr>sv_heap := (sv_heap y)[h := l]\<rparr>"
  shows "core_ok rel y' A' xs (fst x, a)" "kept y A x y' A' (fst x, a)"
proof -
  note c = core_okD[OF assms(1)]
  have v: "sv_view y' = put_loglet (seg_id x) l (sv_view y)"
    unfolding y'_def by (rule view_put[OF c(4) assms(2)])
  have "vl_parts rel (sv_view y') A' xs (fst x, a)"
    unfolding v by (rule parts_put[OF c(1) assms(3,4,6,8)])
  then show "core_ok rel y' A' xs (fst x, a)"
    using assms(6,7) c(2,4,5) al_extends_tail[OF assms(5)] by (simp add: core_ok_def y'_def)
  have "seg_id x \<in> loglet_id ` set (segments (sv_chain y))"
    using c(1) by (simp add: vl_parts_def seg_id_def)
  then show "kept y A x y' A' (fst x, a)" using v assms by (auto simp: kept_def y'_def)
qed

lemma append_step:
  assumes "core_ok rel y A xs x" "has_seg y s i" "sv_loglets y i = Some h" "Suc (al_tail A) < 2 ^ 64"
    "task_step ops create (AppAppend e s h) y = Some (k', y')"
  shows "\<exists>A' x'. core_ok rel y' A' xs x' \<and> task_ok rel y' A' x' k' \<and> kept y A x y' A' x' \<and> sv_tasks y' = sv_tasks y \<and> al_trim A' = al_trim A \<and>
           (\<forall>e p. k' = AppDone e (Inr p) \<longrightarrow> al_tail A \<le> unat p)"
proof -
  note c = core_okD[OF assms(1)]
  obtain us z vs h' where z: "xs @ [x] = us @ z # vs" "seg_id z = i" "s = of_nat (1 + seg_total us)"
      "sv_loglets y i = Some h'" "rel (sv_heap y ! h') (snd z)" "al_trim (snd z) = local_trim (al_trim A) (1 + seg_total us) (seg_len z)" "vs \<noteq> [] \<longrightarrow> al_sealed (snd z)"
    using has_seg_parts[OF assms(1,2)] by blast
  then have z4: "rel (sv_heap y ! h) (snd z)" using assms(3) by simp
  show ?thesis
  proof (cases "al_sealed (snd z)")
    case True
    obtain t l' where l': "lg_append ops e (sv_heap y ! h) = Some (Inl (Sealed t), l')" "rel l' (snd z)"
      using append_sealed[OF z4 True] by blast
    with assms(5) have "k' = RecSegment e" "y' = y\<lparr>sv_heap := (sv_heap y)[h := l']\<rparr>" by simp_all
    with heap_same[OF assms(1) z(1) _ l'(2), of h] z(2) assms(3) show ?thesis
      by (intro exI[of _ A] exI[of _ x]) simp
  next
    case False
    then have zx: "vs = []" "z = x" "us = xs" using z(1,7) by auto
    have t: "al_tail (snd x) \<le> al_tail A"
      using parts_tail[OF c(1)] by (simp add: al_tail_def seg_len_def)
    obtain l' where l': "lg_append ops e (sv_heap y ! h) = Some (Inr (of_nat (al_tail (snd x))), l')"
        "rel l' (al_push e (snd x))"
      using append_open[of "sv_heap y ! h" "snd x" e] z4 False zx t assms(4) by auto
    have k: "k' = AppDone e (Inr (of_nat (al_tail A)))" "y' = y\<lparr>sv_heap := (sv_heap y)[h := l']\<rparr>"
      using assms(5) l'(1) parts_global[OF c(1)] z(3) zx(3) by simp_all
    have "al_trim (al_push e (snd x)) = local_trim (al_trim A) (1 + seg_total xs) (length (al_entries (al_push e (snd x))))"
      using z(6) zx c(5) parts_tail[OF c(1)] by (simp add: local_trim_grow seg_len_def)
    then have "core_ok rel y' (al_push e A) xs (fst x, al_push e (snd x)) \<and> kept y A x y' (al_push e A) (fst x, al_push e (snd x))"
      unfolding k(2) using z zx assms(3,4) c False l'(2)
      by (intro conjI heap_active[OF assms(1)]) (simp_all add: vl_parts_def)
    moreover have "unat (of_nat (al_tail A) :: u64) = al_tail A" using c(3) by (rule unat_of_nat_pos)
    ultimately show ?thesis
      using k by (intro exI[of _ "al_push e A"] exI[of _ "(fst x, al_push e (snd x))"]) (simp add: al_at_push Suc_le_eq)
  qed
qed

lemma seal_step:
  assumes "core_ok rel y A xs x" "has_seg y s i" "sv_loglets y i = Some h"
  shows "\<exists>t l' x'. lg_seal ops (sv_heap y ! h) = (Inr t, l') \<and> unat (local_to_global s t) \<le> al_tail A \<and>
           (i = seg_id x \<longrightarrow> local_to_global s t = of_nat (al_tail A) \<and> al_sealed (snd x')) \<and>
           core_ok rel (y\<lparr>sv_heap := (sv_heap y)[h := l']\<rparr>) A xs x' \<and>
           kept y A x (y\<lparr>sv_heap := (sv_heap y)[h := l']\<rparr>) A x'"
proof -
  note c = core_okD[OF assms(1)]
  obtain us z vs h' where z: "xs @ [x] = us @ z # vs" "seg_id z = i" "s = of_nat (1 + seg_total us)"
      "sv_loglets y i = Some h'" "rel (sv_heap y ! h') (snd z)" "al_trim (snd z) = local_trim (al_trim A) (1 + seg_total us) (seg_len z)" "vs \<noteq> [] \<longrightarrow> al_sealed (snd z)"
    using has_seg_parts[OF assms(1,2)] by blast
  then have z4: "rel (sv_heap y ! h) (snd z)" using assms(3) by simp
  obtain l' where l': "lg_seal ops (sv_heap y ! h) = (Inr (of_nat (al_tail (snd z))), l')"
      "rel l' ((snd z)\<lparr>al_sealed := True\<rparr>)"
    using seal[OF z4] by blast
  have g: "local_to_global s (of_nat (al_tail (snd z))) = of_nat (1 + seg_total us + seg_len z)"
    "1 + seg_total us + seg_len z \<le> al_tail A"
    using seg_global[OF assms(1) z(1)] z(3) by simp_all
  then have u: "unat (local_to_global s (of_nat (al_tail (snd z)))) \<le> al_tail A"
    using c(3) unat_of_nat_pos[of "1 + seg_total us + seg_len z"] by (simp del: of_nat_add)
  show ?thesis
  proof (cases "vs = []")
    case True
    then have zx: "z = x" "us = xs" using z(1) by auto
    have "core_ok rel (y\<lparr>sv_heap := (sv_heap y)[h := l']\<rparr>) A xs (fst x, (snd x)\<lparr>al_sealed := True\<rparr>) \<and>
        kept y A x (y\<lparr>sv_heap := (sv_heap y)[h := l']\<rparr>) A (fst x, (snd x)\<lparr>al_sealed := True\<rparr>)"
      using z zx assms(3) c l'(2) by (intro conjI heap_active[OF assms(1)]) (simp_all add: vl_parts_def seg_len_def)
    moreover have "local_to_global s (of_nat (al_tail (snd x))) = of_nat (al_tail A)"
      using parts_global[OF c(1)] z(3) zx(2) by simp
    ultimately show ?thesis
      using l'(1) u zx by (intro exI[of _ "of_nat (al_tail (snd z))"] exI[of _ l']
        exI[of _ "(fst x, (snd x)\<lparr>al_sealed := True\<rparr>)"]) simp
  next
    case False
    then have "(snd z)\<lparr>al_sealed := True\<rparr> = snd z" using z(7) by simp
    then have "rel l' (snd z)" using l'(2) by simp
    moreover have "x \<in> set vs" using z(1) False by (metis append_is_Nil_conv last_in_set last_appendR last_ConsR last_snoc list.distinct(1))
    then have "i \<noteq> seg_id x" using parts_distinct[OF c(1) z(1), of x] z(2) by auto
    ultimately show ?thesis
      using l'(1) u heap_same[OF assms(1) z(1), of h l'] z(2) assms(3)
      by (intro exI[of _ "of_nat (al_tail (snd z))"] exI[of _ l'] exI[of _ x]) simp
  qed
qed

lemma seg_global_unat:
  assumes "core_ok rel y A xs x" "xs @ [x] = us @ z # vs"
  shows "unat (local_to_global (of_nat (1 + seg_total us)) (of_nat (al_tail (snd z)))) = 1 + seg_total us + seg_len z"
proof -
  have "1 + seg_total us + seg_len z < 2 ^ 64" using seg_global(2)[OF assms] core_okD(3)[OF assms(1)] by simp
  then show ?thesis unfolding seg_global(1)[OF assms] by (rule unat_of_nat_pos)
qed

lemma create_step:
  assumes "core_ok rel y A xs x" "n = generate_loglet_id (sv_chain y)" "rel l alog_new"
  defines "y' \<equiv> y\<lparr>sv_loglets := (sv_loglets y)(n \<mapsto> length (sv_heap y)), sv_heap := sv_heap y @ [l]\<rparr>"
  shows "core_ok rel y' A xs x" "grown y A y' A" "vl_loglets (sv_view y') n = Some l"
proof -
  note c = core_okD[OF assms(1)]
  note v = view_insert[OF c(4), where i = n and l = l, folded y'_def]
  have n: "n \<notin> loglet_id ` set (segments (sv_chain y))"
    using generated_id_fresh[OF c(1)] assms(2) by simp
  then have "n \<notin> set (map seg_id (xs @ [x]))"
    using c(1) by (simp add: vl_parts_def seg_id_def image_image)
  then have "vl_parts rel (sv_view y') A xs x" unfolding v(1) by (rule parts_insert[OF c(1)])
  then show "core_ok rel y' A xs x" using c v(2) by (simp add: core_ok_def)
  show "grown y A y' A" using n by (auto simp: grown_def has_seg_def covers_def y'_def)
  show "vl_loglets (sv_view y') n = Some l" unfolding v(1) by simp
qed

lemma install_step:
  assumes "core_ok rel y A xs x" "task_ok rel y A x (RecSetChain e c v)"
  shows "\<exists>xs' x'. core_ok rel (y\<lparr>sv_chain := c\<rparr>) A xs' x' \<and> grown y A (y\<lparr>sv_chain := c\<rparr>) A"
proof -
  note c = core_okD[OF assms(1)]
  obtain l where l: "vl_loglets (sv_view y) (generate_loglet_id (sv_chain y)) = Some l" "rel l alog_new"
    using assms(2) by auto
  from parts_extend[OF c(1) c(5) _ _ l(1) l(2)] assms(2) obtain xs' x' where
    "vl_parts rel (sv_view (y\<lparr>sv_chain := c\<rparr>)) A xs' x'" by (auto simp: next_chain_def)
  then have "core_ok rel (y\<lparr>sv_chain := c\<rparr>) A xs' x'" using c by (simp add: core_ok_def)
  moreover have "segments (sv_chain y) = map fst xs @ [fst x]" using c(1) by (simp add: vl_parts_def)
  moreover have "segments c = segments (next_chain y A)" using assms(2) by simp
  moreover have "unat (of_nat (al_tail A) :: u64) = al_tail A" using c(3) by (rule unat_of_nat_pos)
  moreover have "end_pos (fst x) = None" using c(1) by (simp add: vl_parts_def)
  ultimately have "core_ok rel (y\<lparr>sv_chain := c\<rparr>) A xs' x' \<and> grown y A (y\<lparr>sv_chain := c\<rparr>) A"
    using segments_next_chain[OF c(1)] by (auto simp: grown_def has_seg_def covers_def)
  then show ?thesis by blast
qed

lemma tail_step:
  assumes "core_ok rel y A xs x" "has_seg y s i" "sv_loglets y i = Some h"
  shows "\<exists>t. lg_check_tail ops (sv_heap y ! h) = Inr t \<and> unat (local_to_global s t) \<le> al_tail A"
proof -
  obtain us z vs h' where z: "xs @ [x] = us @ z # vs" "seg_id z = i" "s = of_nat (1 + seg_total us)"
      "sv_loglets y i = Some h'" "rel (sv_heap y ! h') (snd z)"
    using has_seg_parts[OF assms(1,2)] by blast
  then have "lg_check_tail ops (sv_heap y ! h) = Inr (of_nat (al_tail (snd z)))"
    using check_tail assms(3) by simp
  moreover have "unat (local_to_global s (of_nat (al_tail (snd z)))) \<le> al_tail A"
    using seg_global_unat[OF assms(1) z(1)] seg_global(2)[OF assms(1) z(1)] z(3) by simp
  ultimately show ?thesis by simp
qed

lemma segment_read:
  assumes "core_ok rel y A xs x" "xs @ [x] = us @ z # vs" "s = of_nat (1 + seg_total us)" "rel l (snd z)"
    "al_trim (snd z) = local_trim (al_trim A) (1 + seg_total us) (seg_len z)" "s \<le> q"
  shows "unat q < 1 + seg_total us + seg_len z \<Longrightarrow> unat q < al_trim A \<Longrightarrow> \<exists>m. lg_read ops (global_to_local s q) l = Inl (Trimmed m)"
    "unat q < 1 + seg_total us + seg_len z \<Longrightarrow> al_trim A \<le> unat q \<Longrightarrow> lg_read ops (global_to_local s q) l = Inr (Some (al_at A (unat q)))"
    "1 + seg_total us + seg_len z \<le> unat q \<Longrightarrow> lg_read ops (global_to_local s q) l = Inr None"
    "1 + seg_total us \<le> unat q"
proof -
  note c = core_okD[OF assms(1)]
  have "unat s = 1 + seg_total us"
    using assms(3) c(3) seg_global(2)[OF assms(1,2)] unat_of_nat_pos[of "1 + seg_total us"] by simp
  then show le: "1 + seg_total us \<le> unat q" using assms(6) by (simp add: word_le_nat_alt)
  then have u: "unat (global_to_local s q) = unat q - (1 + seg_total us) + 1"
    unfolding assms(3) by (intro unat_global_to_local) simp_all
  have at: "local_trim (al_trim A) (1 + seg_total us) (seg_len z) \<le> unat (global_to_local s q) \<longleftrightarrow> al_trim A \<le> unat q"
    if "unat q < 1 + seg_total us + seg_len z"
    unfolding u using local_trim_at[OF le that] .
  show "\<exists>m. lg_read ops (global_to_local s q) l = Inl (Trimmed m)" if "unat q < 1 + seg_total us + seg_len z" "unat q < al_trim A"
    using at[OF that(1)] that(2) u assms(5) by (intro read_trimmed[OF assms(4)]) simp_all
  show "lg_read ops (global_to_local s q) l = Inr (Some (al_at A (unat q)))"
    if t: "unat q < 1 + seg_total us + seg_len z" "al_trim A \<le> unat q"
  proof -
    have "lg_read ops (global_to_local s q) l = Inr (Some (al_at (snd z) (unat (global_to_local s q))))"
      using at[OF t(1)] t u assms(5) le by (intro read_entry[OF assms(4)]) (auto simp: al_tail_def seg_len_def)
    moreover have "al_at (snd z) (unat (global_to_local s q)) = al_at A (unat q)"
      using c(1) t(1) le nth_concat_segs[of "unat q - (1 + seg_total us)" z us vs] u
      unfolding vl_parts_def assms(2) al_at_def by simp
    ultimately show ?thesis by simp
  qed
  show "lg_read ops (global_to_local s q) l = Inr None" if "1 + seg_total us + seg_len z \<le> unat q"
    using that u assms(5) le local_trim_le[of "al_trim A" "1 + seg_total us" "seg_len z"]
    by (intro read_beyond[OF assms(4)]) (auto simp: al_tail_def seg_len_def)
qed

lemma read_step:
  assumes "core_ok rel y A xs x" "has_seg y s i" "s \<le> p" "sv_loglets y i = Some h"
  shows "case lg_read ops (global_to_local s p) (sv_heap y ! h) of
      Inl err \<Rightarrow> p = 0 \<or> unat p < al_trim A \<and> (\<exists>m. err = Trimmed m)
    | Inr None \<Rightarrow> True
    | Inr (Some e) \<Rightarrow> 1 \<le> unat p \<and> unat p < al_tail A \<and> al_at A (unat p) = e"
proof -
  obtain us z vs h' where z: "xs @ [x] = us @ z # vs" "s = of_nat (1 + seg_total us)"
      "sv_loglets y i = Some h'" "rel (sv_heap y ! h') (snd z)" "al_trim (snd z) = local_trim (al_trim A) (1 + seg_total us) (seg_len z)"
    using has_seg_parts[OF assms(1,2)] by blast
  then have "rel (sv_heap y ! h) (snd z)" using assms(4) by simp
  note read = segment_read[OF assms(1) z(1,2) this z(5) assms(3)]
  have "1 + seg_total us + seg_len z \<le> al_tail A" using seg_global(2)[OF assms(1) z(1)] .
  with read(1-3) read(4) show ?thesis
    by (cases "unat p < 1 + seg_total us + seg_len z"; cases "unat p < al_trim A") auto
qed

text \<open>A segment that covers a position of the log either holds it or is one of those before it.\<close>

lemma covers_parts:
  assumes "core_ok rel y A xs x" "covers y n s i" "n < al_tail A"
  shows "\<exists>us z vs h. xs @ [x] = us @ z # vs \<and> seg_id z = i \<and> s = of_nat (1 + seg_total us) \<and> sv_loglets y i = Some h \<and>
    rel (sv_heap y ! h) (snd z) \<and> al_trim (snd z) = local_trim (al_trim A) (1 + seg_total us) (seg_len z) \<and> n < 1 + seg_total us + seg_len z"
proof -
  note c = core_okD[OF assms(1)]
  obtain us z vs h where z: "xs @ [x] = us @ z # vs" "seg_id z = i" "s = of_nat (1 + seg_total us)"
      "sv_loglets y i = Some h" "rel (sv_heap y ! h) (snd z)" "al_trim (snd z) = local_trim (al_trim A) (1 + seg_total us) (seg_len z)"
      "vs \<noteq> [] \<longrightarrow> end_pos (fst z) = Some (of_nat (1 + seg_total us + seg_len z))"
    using has_seg_parts[OF assms(1) covers_has_seg[OF assms(2)]] by blast
  have seg: "segments (sv_chain y) = map fst (us @ z # vs)"
    using c(1) unfolding vl_parts_def z(1) by simp
  obtain v where v: "v \<in> fst ` set (us @ z # vs)" "loglet_id v = i" "\<forall>e. end_pos v = Some e \<longrightarrow> n < unat e"
    using assms(2) unfolding covers_def seg by auto
  then obtain w where w: "w \<in> set (us @ z # vs)" "seg_id w = i" "\<forall>e. end_pos (fst w) = Some e \<longrightarrow> n < unat e"
    unfolding seg_id_def by blast
  have "w = z" using w(1,2) z(2) parts_distinct[OF c(1) z(1), of w] by auto
  have "n < 1 + seg_total us + seg_len z"
  proof (cases "vs = []")
    case True
    then show ?thesis using z(1) assms(3) parts_tail[OF c(1)] by simp
  next
    case False
    have "unat (of_nat (1 + seg_total us + seg_len z) :: u64) = 1 + seg_total us + seg_len z"
      using seg_global(2)[OF assms(1) z(1)] c(3) by (intro unat_of_nat_pos) simp
    with False z(7) w(3) \<open>w = z\<close> show ?thesis by (simp del: of_nat_add)
  qed
  with z show ?thesis by blast
qed

text \<open>One round of a trim: the loglet of a segment \<open>z\<close>, up to which the log is trimmed already, takes the trim
  at \<open>m\<close>, a position of the segment.\<close>

lemma local_trim_same:
  "s + n \<le> T \<Longrightarrow> local_trim (max T m) s n = local_trim T s n" "m \<le> s \<Longrightarrow> local_trim (max T m) s n = local_trim T s n"
  by (auto simp: local_trim_def min_def max_def)

lemma closed_segs_before:
  "closed_segs rel ls T s us \<Longrightarrow> s + seg_total us \<le> T \<Longrightarrow> closed_segs rel ls (max T m) s us"
  by (induction us arbitrary: s) (auto simp: seg_ok_def local_trim_same(1))

lemma closed_segs_after:
  "closed_segs rel ls T s vs \<Longrightarrow> m \<le> s \<Longrightarrow> closed_segs rel ls (max T m) s vs"
  by (induction vs arbitrary: s) (auto simp: seg_ok_def local_trim_same(2))

lemma seg_ok_trim:
  assumes "seg_ok rel ls T S z" "rel l ((snd z)\<lparr>al_trim := max (al_trim (snd z)) (m - S + 1)\<rparr>)" "S \<le> m" "m \<le> S + seg_len z"
    "1 \<le> al_trim (snd z)"
  shows "seg_ok rel (ls(seg_id z \<mapsto> l)) (max T m) S (fst z, (snd z)\<lparr>al_trim := max (al_trim (snd z)) (m - S + 1)\<rparr>)"
  using assms by (auto simp: seg_ok_def seg_id_def seg_len_def local_trim_max)

lemma parts_trim:
  assumes p: "vl_parts rel v A xs x" and z: "xs @ [x] = us @ z # vs" and m: "S \<le> al_trim A" "S \<le> m" "m \<le> S + seg_len z"
    and S: "S = 1 + seg_total us" and l: "rel l ((snd z)\<lparr>al_trim := max (al_trim (snd z)) (m - S + 1)\<rparr>)" and one: "1 \<le> al_trim (snd z)"
  shows "\<exists>xs' x'. vl_parts rel (put_loglet (seg_id z) l v) (A\<lparr>al_trim := max (al_trim A) m\<rparr>) xs' x' \<and>
    fst x' = fst x \<and> al_sealed (snd x') = al_sealed (snd x)"
proof -
  let ?a = "(snd z)\<lparr>al_trim := max (al_trim (snd z)) (m - S + 1)\<rparr>" and ?T = "max (al_trim A) m"
  let ?ls = "(vl_loglets v)(seg_id z \<mapsto> l)"
  have d: "seg_id z \<notin> set (map seg_id us)" "seg_id z \<notin> set (map seg_id vs)"
    using parts_distinct[OF p z] by force+
  have before: "closed_segs rel ?ls ?T 1 us" if "closed_segs rel (vl_loglets v) (al_trim A) 1 us"
    using closed_segs_before[OF that] m(1) S by (simp add: closed_segs_upd[OF d(1)])
  show ?thesis
  proof (cases vs rule: rev_cases)
    case Nil
    then have zx: "z = x" "us = xs" using z by auto
    have "seg_ok rel ?ls ?T (1 + seg_total xs) (fst x, ?a)"
      using seg_ok_trim[of "vl_loglets v" "al_trim A" S z l m] p l m one zx S by (simp add: vl_parts_def)
    then have "vl_parts rel (put_loglet (seg_id z) l v) (A\<lparr>al_trim := ?T\<rparr>) xs (fst x, ?a)"
      using p before zx by (auto simp: vl_parts_def put_loglet_def ids_ok_def seg_id_def)
    then show ?thesis using zx by (intro exI[of _ xs] exI[of _ "(fst x, ?a)"]) simp
  next
    case (snoc vs' v')
    then have xs: "xs = us @ z # vs'" "v' = x" using z by simp_all
    have cl: "closed_segs rel (vl_loglets v) (al_trim A) 1 (us @ z # vs')" and
      x: "seg_ok rel (vl_loglets v) (al_trim A) (1 + seg_total xs) x" using p xs by (simp_all add: vl_parts_def)
    have z1: "seg_ok rel ?ls ?T (1 + seg_total us) (fst z, ?a)"
      using seg_ok_trim[of "vl_loglets v" "al_trim A" S z l m] cl l m one S by (simp add: closed_segs_append)
    have "closed_segs rel ?ls ?T (1 + seg_total us + seg_len z) vs'"
      using closed_segs_after[of "vl_loglets v" "al_trim A" "1 + seg_total us + seg_len z" vs' m] cl m(3) S d(2) snoc
      by (simp add: closed_segs_append closed_segs_upd add.assoc)
    then have "closed_segs rel ?ls ?T 1 (us @ (fst z, ?a) # vs')"
      using before cl z1 by (simp add: closed_segs_append seg_len_def seg_id_def)
    moreover have "seg_id x \<noteq> seg_id z" using d(2) snoc xs(2) by auto
    then have "seg_ok rel ?ls ?T (1 + seg_total (us @ (fst z, ?a) # vs')) x"
      using x m(3) S xs by (simp add: seg_ok_def seg_len_def local_trim_same(2))
    ultimately have "vl_parts rel (put_loglet (seg_id z) l v) (A\<lparr>al_trim := ?T\<rparr>) (us @ (fst z, ?a) # vs') x"
      using p xs by (auto simp: vl_parts_def put_loglet_def ids_ok_def seg_id_def)
    then show ?thesis by blast
  qed
qed

lemma planned_segment:
  assumes "core_ok rel y A xs x" "planned y p (s # ss)" "unat p \<le> al_tail A" "start_pos s < p"
  shows "\<exists>us z vs h m. xs @ [x] = us @ z # vs \<and> seg_id z = loglet_id s \<and> unat (start_pos s) = 1 + seg_total us \<and>
    start_pos s = of_nat (1 + seg_total us) \<and>
    sv_loglets y (loglet_id s) = Some h \<and> rel (sv_heap y ! h) (snd z) \<and>
    m = unat (min p (case end_pos s of None \<Rightarrow> - 1 | Some e \<Rightarrow> e)) \<and> 1 + seg_total us \<le> m \<and> m \<le> 1 + seg_total us + seg_len z \<and>
    trimmed_to p ss \<le> m"
proof (cases "end_pos s")
  case None
  then have cov: "ss = []" "covers y (unat p - 1) (start_pos s) (loglet_id s)" using assms(2) by simp_all
  have "unat p - 1 < al_tail A" using assms(3) by (simp add: al_tail_def)
  from covers_parts[OF assms(1) cov(2) this] obtain us z vs h where
    z: "xs @ [x] = us @ z # vs" "seg_id z = loglet_id s" "start_pos s = of_nat (1 + seg_total us)"
      "sv_loglets y (loglet_id s) = Some h" "rel (sv_heap y ! h) (snd z)" "unat p - 1 < 1 + seg_total us + seg_len z" by blast
  have "1 + seg_total us < 2 ^ 64" using seg_global(2)[OF assms(1) z(1)] core_okD(3)[OF assms(1)] by simp
  then have u: "unat (start_pos s) = 1 + seg_total us" unfolding z(3) by (rule unat_of_nat_pos)
  with z cov(1) None assms(4) show ?thesis
    by (intro exI[of _ us] exI[of _ z] exI[of _ vs] exI[of _ h] exI[of _ "unat p"])
      (simp add: trimmed_to_def word_less_nat_alt del: of_nat_Suc of_nat_add)
next
  case (Some e)
  then obtain s' ss' where pl: "s \<in> set (segments (sv_chain y))" "ss = s' # ss'" "start_pos s' = e" using assms(2) by auto
  then have "has_seg y (start_pos s) (loglet_id s)" by (auto simp: has_seg_def)
  from has_seg_parts[OF assms(1) this] obtain us z vs h where
    z: "xs @ [x] = us @ z # vs" "seg_id z = loglet_id s" "start_pos s = of_nat (1 + seg_total us)"
      "sv_loglets y (loglet_id s) = Some h" "rel (sv_heap y ! h) (snd z)"
      "vs \<noteq> [] \<longrightarrow> end_pos (fst z) = Some (of_nat (1 + seg_total us + seg_len z))" by blast
  note c = core_okD[OF assms(1)]
  have "s \<in> fst ` set (us @ z # vs)" using pl(1) c(1) unfolding vl_parts_def z(1) by (metis list.set_map sv_view_sel(2))
  then obtain w where w: "w \<in> set (us @ z # vs)" "s = fst w" by blast
  then have "w = z" using z(2) parts_distinct[OF c(1) z(1), of w] by (auto simp: seg_id_def)
  moreover have "vs \<noteq> []" using Some w(2) c(1) z(1) \<open>w = z\<close> by (auto simp: vl_parts_def)
  ultimately have e: "e = of_nat (1 + seg_total us + seg_len z)" using Some w(2) z(6) by simp
  have b: "1 + seg_total us + seg_len z < 2 ^ 64" using seg_global(2)[OF assms(1) z(1)] c(3) by simp
  then have ue: "unat e = 1 + seg_total us + seg_len z" unfolding e by (rule unat_of_nat_pos)
  have u: "unat (start_pos s) = 1 + seg_total us" unfolding z(3) using b by (intro unat_of_nat_pos) simp
  have m: "unat (min p e) = min (unat p) (1 + seg_total us + seg_len z)" using ue by (simp add: min_def word_le_nat_alt)
  have "1 + seg_total us \<le> unat p" using assms(4) u by (simp add: word_less_nat_alt)
  then show ?thesis
    using z(1-5) u m Some pl(2,3) ue
    by (intro exI[of _ us] exI[of _ z] exI[of _ vs] exI[of _ h] exI[of _ "unat (min p e)"]) (simp add: trimmed_to_def)
qed

text \<open>A whole chain, before anything is trimmed.\<close>

lemma planned_all:
  assumes "core_ok rel y A xs x"
  shows "planned y p (segments (sv_chain y)) \<and> trimmed_to p (segments (sv_chain y)) \<le> al_trim A"
proof -
  note c = core_okD[OF assms]
  have chain: "segments (sv_chain y) = map fst xs @ [fst x]" and cl: "closed_segs rel (vl_loglets (sv_view y)) (al_trim A) 1 xs"
    and act: "start_pos (fst x) = of_nat (1 + seg_total xs)" "end_pos (fst x) = None"
    using c(1) by (simp_all add: vl_parts_def seg_ok_def)
  have "planned y p (map fst ys @ [fst x])" if "set ys \<subseteq> set xs" "closed_segs rel (vl_loglets (sv_view y)) (al_trim A) n ys"
    "n + seg_total ys = 1 + seg_total xs" for n ys
    using that
  proof (induction ys arbitrary: n)
    case Nil
    have "covers y (unat p - 1) (start_pos (fst x)) (loglet_id (fst x))" using chain act(2) by (auto simp: covers_def)
    with act show ?case by simp
  next
    case (Cons w ws)
    have "fst w \<in> set (segments (sv_chain y))" using Cons.prems(1) chain by auto
    moreover have "planned y p (map fst ws @ [fst x])" using Cons.IH[of "n + seg_len w"] Cons.prems by simp
    moreover have "\<exists>s' ss'. map fst ws @ [fst x] = s' # ss' \<and> start_pos s' = of_nat (n + seg_len w)"
      using Cons.prems act by (cases ws) (auto simp: seg_ok_def)
    ultimately show ?case using Cons.prems(2) by simp
  qed
  from this[of xs 1] cl have "planned y p (segments (sv_chain y))" unfolding chain by simp
  moreover have "trimmed_to p (segments (sv_chain y)) \<le> 1"
    using cl act unfolding chain by (cases xs) (auto simp: trimmed_to_def seg_ok_def)
  ultimately show ?thesis using c(2) by simp
qed

lemma planned_rest: "planned y p (s # ss) \<Longrightarrow> planned y p ss"
  by (auto split: option.splits)

lemma trim_round:
  assumes "core_ok rel y A xs x" "task_ok rel y A x (TrimLoop p (s # ss))" "task_step ops create (TrimLoop p (s # ss)) y = Some (k', y')"
  shows "\<exists>A' xs' x'. k' = TrimLoop p ss \<and> core_ok rel y' A' xs' x' \<and> task_ok rel y' A' x' k' \<and> kept y A x y' A' x' \<and>
    sv_tasks y' = sv_tasks y \<and> al_trim A' \<le> max (al_trim A) (unat p)"
proof -
  note c = core_okD[OF assms(1)]
  have t: "unat p \<le> al_tail A" "planned y p (s # ss)" "min (unat p) (unat (start_pos s)) \<le> al_trim A"
    using assms(2) by (simp_all add: trimmed_to_def)
  show ?thesis
  proof (cases "start_pos s < p")
    case False
    then have "k' = TrimLoop p ss" "y' = y" using assms(3) by (simp_all add: Let_def)
    moreover have "trimmed_to p ss \<le> unat p" by (simp add: trimmed_to_def split: list.splits)
    then have "trimmed_to p ss \<le> al_trim A" using False t(3) by (simp add: word_less_nat_alt)
    ultimately show ?thesis
      using assms(1) t planned_rest[OF t(2)] by (intro exI[of _ A] exI[of _ xs] exI[of _ x]) simp
  next
    case True
    from planned_segment[OF assms(1) t(2,1) True] obtain us z vs h m where
      z: "xs @ [x] = us @ z # vs" "seg_id z = loglet_id s" "unat (start_pos s) = 1 + seg_total us"
        "start_pos s = of_nat (1 + seg_total us)"
        "sv_loglets y (loglet_id s) = Some h" "rel (sv_heap y ! h) (snd z)"
      and m: "m = unat (min p (case end_pos s of None \<Rightarrow> - 1 | Some e \<Rightarrow> e))" "1 + seg_total us \<le> m"
        "m \<le> 1 + seg_total us + seg_len z" "trimmed_to p ss \<le> m" by blast
    define lp where "lp = global_to_local (start_pos s) (min p (case end_pos s of None \<Rightarrow> - 1 | Some e \<Rightarrow> e))"
    have lp: "unat lp = m - (1 + seg_total us) + 1"
      using m(1,2) unfolding lp_def z(4) by (subst unat_global_to_local) simp_all
    then have "unat lp \<le> al_tail (snd z)" using m(3) by (simp add: al_tail_def seg_len_def)
    from trim[OF z(6) this] obtain l' where l': "lg_trim ops lp (sv_heap y ! h) = (Inr (), l')"
      "rel l' ((snd z)\<lparr>al_trim := max (al_trim (snd z)) (m - (1 + seg_total us) + 1)\<rparr>)" unfolding lp by blast
    have k: "k' = TrimLoop p ss" "y' = y\<lparr>sv_heap := (sv_heap y)[h := l']\<rparr>"
      using assms(3) True z(5) l'(1) by (simp_all add: Let_def lp_def)
    have v: "sv_view y' = put_loglet (seg_id z) l' (sv_view y)"
      unfolding k(2) using view_put[OF c(4)] z(2,5) by simp
    have S: "1 + seg_total us \<le> al_trim A" using t(3) True z(3) by (simp add: word_less_nat_alt)
    have "m \<le> unat p" unfolding m(1) by (simp add: min_def word_le_nat_alt)
    have one: "1 \<le> al_trim (snd z)" using rel_bounds[OF z(6)] by simp
    from parts_trim[OF c(1) z(1) S m(2,3) refl l'(2) one] obtain xs' x' where
      x': "vl_parts rel (sv_view y') (A\<lparr>al_trim := max (al_trim A) m\<rparr>) xs' x'" "fst x' = fst x" "al_sealed (snd x') = al_sealed (snd x)"
      unfolding v by blast
    let ?A = "A\<lparr>al_trim := max (al_trim A) m\<rparr>"
    have "core_ok rel y' ?A xs' x'"
      using x'(1) c \<open>m \<le> unat p\<close> t(1) k(2) by (simp add: core_ok_def al_tail_def)
    moreover have "segments (sv_chain y) = map fst (us @ z # vs)" using c(1) unfolding vl_parts_def z(1) by simp
    then have "seg_id z \<in> loglet_id ` set (segments (sv_chain y))" by (simp add: seg_id_def)
    then have kept: "kept y A x y' ?A x'" using v x'(2,3) k(2) by (auto simp: kept_def al_tail_def)
    moreover have "planned y' p ss" using planned_grown[OF kept_grown[OF kept] planned_rest[OF t(2)] t(1)] .
    then have "task_ok rel y' ?A x' k'" using k(1) t(1) m(4) by (simp add: al_tail_def)
    ultimately show ?thesis
      using k \<open>m \<le> unat p\<close> by (intro exI[of _ ?A] exI[of _ xs'] exI[of _ x']) simp
  qed
qed

text \<open>One step of one call: the log is kept or grows at its end, the call's own knowledge is right
  again, and so is that of the others.\<close>

definition step_post where
  "step_post y A x k k' y' A' xs' x' \<longleftrightarrow> core_ok rel y' A' xs' x' \<and> task_ok rel y' A' x' k' \<and> sv_tasks y' = sv_tasks y \<and>
     (kept y A x y' A' x' \<or> in_reconfigure k \<and> grown y A y' A') \<and>
     (post_cas k \<or> settled y \<longrightarrow> post_cas k' \<or> settled y') \<and> (\<forall>e p. k' = AppDone e (Inr p) \<longrightarrow> al_tail A \<le> unat p) \<and>
     (al_trim A' = al_trim A \<or> (\<exists>p. trim_pos k = Some p \<and> al_trim A' \<le> max (al_trim A) (unat p)))"

lemma step_postI_kept:
  assumes "core_ok rel y' A' xs' x'" "task_ok rel y' A' x' k'" "kept y A x y' A' x'" "sv_tasks y' = sv_tasks y" "\<not> post_cas k"
    "\<forall>e p. k' = AppDone e (Inr p) \<longrightarrow> al_tail A \<le> unat p"
    "al_trim A' = al_trim A \<or> (\<exists>p. trim_pos k = Some p \<and> al_trim A' \<le> max (al_trim A) (unat p))"
  shows "step_post y A x k k' y' A' xs' x'"
  using assms by (auto simp: step_post_def settled_def kept_def)

lemma step_post_same:
  assumes "core_ok rel y A xs x" "y' = y" "task_ok rel y A x k'" "\<not> post_cas k" "\<forall>e p. k' \<noteq> AppDone e (Inr p)"
  shows "\<exists>A' xs' x'. step_post y A x k k' y' A' xs' x'"
  using assms by (intro exI[of _ A] exI[of _ xs] exI[of _ x] step_postI_kept) simp_all

lemma call_step_ok:
  assumes "core_ok rel y A xs x" "task_ok rel y A x k" "Suc (al_tail A) < 2 ^ 64" "\<not> in_reconfigure k"
    "task_step ops create k y = Some (k', y')" "\<And>p. k = TrimSegments p \<Longrightarrow> unat p \<le> al_tail A"
  shows "\<exists>A' xs' x'. step_post y A x k k' y' A' xs' x'"
proof -
  note segment = active_segment_task[OF assms(1)] and same = step_post_same[OF assms(1)]
  show ?thesis
  proof (cases k)
    case (AppSegment e)
    then have "k' = AppLoglet e (start_pos (fst x)) (seg_id x)" "y' = y" using assms(5) segment(1) by auto
    with AppSegment segment(2) show ?thesis by (intro same) auto
  next
    case (AppLoglet e s i)
    with assms(2) has_seg_handle[OF assms(1), of s i] obtain h where h: "sv_loglets y i = Some h" by auto
    then have "k' = AppAppend e s h" "y' = y" using assms(5) AppLoglet by (simp_all add: active_loglet_step_def)
    with AppLoglet h assms(2) show ?thesis by (intro same) auto
  next
    case (AppAppend e s h)
    then obtain i where i: "has_seg y s i" "sv_loglets y i = Some h" using assms(2) by auto
    have "task_step ops create (AppAppend e s h) y = Some (k', y')" using assms(5) AppAppend by simp
    from append_step[OF assms(1) i assms(3) this] obtain A' x' where
      "core_ok rel y' A' xs x'" "task_ok rel y' A' x' k'" "kept y A x y' A' x'" "sv_tasks y' = sv_tasks y" "al_trim A' = al_trim A"
      "\<forall>e p. k' = AppDone e (Inr p) \<longrightarrow> al_tail A \<le> unat p" by blast
    then show ?thesis
      using AppAppend by (intro exI[of _ A'] exI[of _ xs] exI[of _ x'] step_postI_kept) simp_all
  next
    case TailSegment
    then have "k' = TailLoglet (start_pos (fst x)) (seg_id x)" "y' = y" using assms(5) segment(1) by auto
    with TailSegment segment(2) show ?thesis by (intro same) auto
  next
    case (TailLoglet s i)
    with assms(2) has_seg_handle[OF assms(1), of s i] obtain h where h: "sv_loglets y i = Some h" by auto
    then have "k' = TailCheck s h" "y' = y" using assms(5) TailLoglet by (simp_all add: active_loglet_step_def)
    with TailLoglet h assms(2) show ?thesis by (intro same) auto
  next
    case (TailCheck s h)
    then obtain i where i: "has_seg y s i" "sv_loglets y i = Some h" using assms(2) by auto
    from tail_step[OF assms(1) i] show ?thesis using assms(5) TailCheck by (intro same) auto
  next
    case (ReadSegment p)
    show ?thesis
    proof (cases "find_segment (sv_chain y) p")
      case None
      have "p = 0"
      proof (rule ccontr)
        assume "p \<noteq> 0"
        then have "1 \<le> unat p" by (simp add: Suc_le_eq unat_gt_0)
        from read_segment[OF core_okD(1,3)[OF assms(1)] this] None show False by auto
      qed
      with None assms(5) ReadSegment show ?thesis by (intro same) auto
    next
      case (Some w)
      then have "has_seg y (start_pos w) (loglet_id w)" "start_pos w \<le> p"
        by (auto simp: find_segment_def find_Some_iff has_seg_def in_segment_def)
      with Some assms(5) ReadSegment show ?thesis by (intro same) auto
    qed
  next
    case (ReadLoglet p s i)
    then obtain h where "sv_loglets y i = Some h" using has_seg_parts[OF assms(1), of s i] assms(2) by auto
    with read_step[OF assms(1), of s i p h] ReadLoglet assms(2,5) show ?thesis by (intro same) auto
  next
    case SealSegment
    then have "k' = SealLoglet (start_pos (fst x)) (seg_id x)" "y' = y" using assms(5) segment(1) by auto
    with SealSegment segment(2) show ?thesis by (intro same) auto
  next
    case (SealLoglet s i)
    with assms(2) has_seg_handle[OF assms(1), of s i] obtain h where h: "sv_loglets y i = Some h" by auto
    then have "k' = SealSeal s h" "y' = y" using assms(5) SealLoglet by (simp_all add: active_loglet_step_def)
    with SealLoglet h assms(2) show ?thesis by (intro same) auto
  next
    case (SealSeal s h)
    then obtain i where i: "has_seg y s i" "sv_loglets y i = Some h" using assms(2) by auto
    from seal_step[OF assms(1) i] obtain t l' x' where
      "lg_seal ops (sv_heap y ! h) = (Inr t, l')" "unat (local_to_global s t) \<le> al_tail A"
      "core_ok rel (y\<lparr>sv_heap := (sv_heap y)[h := l']\<rparr>) A xs x'" "kept y A x (y\<lparr>sv_heap := (sv_heap y)[h := l']\<rparr>) A x'"
      by blast
    then show ?thesis
      using SealSeal assms(5) by (intro exI[of _ A] exI[of _ xs] exI[of _ x'] step_postI_kept) auto
  next
    case (TrimSegments p)
    then have k: "k' = TrimLoop p (segments (sv_chain y))" "y' = y" using assms(5) by auto
    with TrimSegments planned_all[OF assms(1)] assms(6)[OF TrimSegments] show ?thesis by (intro same) auto
  next
    case (TrimLoop p todo)
    show ?thesis
    proof (cases todo)
      case Nil
      with TrimLoop assms(2,5) show ?thesis by (intro same) (auto simp: trimmed_to_def)
    next
      case (Cons s ss)
      with trim_round[OF assms(1), of p s ss k' y'] TrimLoop assms(2,5) obtain A' xs' x' where
        "k' = TrimLoop p ss" "core_ok rel y' A' xs' x'" "task_ok rel y' A' x' k'" "kept y A x y' A' x'"
        "sv_tasks y' = sv_tasks y" "al_trim A' \<le> max (al_trim A) (unat p)" by blast
      with TrimLoop show ?thesis by (intro exI[of _ A'] exI[of _ xs'] exI[of _ x'] step_postI_kept) auto
    qed
  qed (use assms in simp_all)
qed

lemma reconfigure_step_ok:
  assumes "core_ok rel y A xs x" "task_ok rel y A x k" "in_reconfigure k" "post_cas k \<or> settled y"
    "task_step ops create k y = Some (k', y')"
  shows "\<exists>A' xs' x'. step_post y A x k k' y' A' xs' x'"
proof -
  note segment = active_segment_task[OF assms(1)] and same = step_post_same[OF assms(1)]
  note c = core_okD[OF assms(1)]
  show ?thesis
  proof (cases k)
    case (RecSegment e)
    then have "k' = RecLoglet e (start_pos (fst x)) (seg_id x)" "y' = y" using assms(5) segment(1) by auto
    with RecSegment segment(2) show ?thesis by (intro same) auto
  next
    case (RecLoglet e s i)
    with assms(2) segment(2) have "has_seg y s i" by auto
    from has_seg_handle[OF assms(1) this] obtain h where h: "sv_loglets y i = Some h" by blast
    then have "k' = RecSeal e s h" "y' = y" using assms(5) RecLoglet by (simp_all add: active_loglet_step_def)
    with RecLoglet h assms(2) show ?thesis by (intro same) auto
  next
    case (RecSeal e s h)
    with assms(2) segment(2) have i: "has_seg y s (seg_id x)" "sv_loglets y (seg_id x) = Some h" by auto
    from seal_step[OF assms(1) i] obtain t l' x' where
      "lg_seal ops (sv_heap y ! h) = (Inr t, l')" "local_to_global s t = of_nat (al_tail A)" "al_sealed (snd x')"
      "core_ok rel (y\<lparr>sv_heap := (sv_heap y)[h := l']\<rparr>) A xs x'" "kept y A x (y\<lparr>sv_heap := (sv_heap y)[h := l']\<rparr>) A x'"
      by blast
    then show ?thesis
      using RecSeal assms(5) by (intro exI[of _ A] exI[of _ xs] exI[of _ x'] step_postI_kept) auto
  next
    case (RecVersion e g)
    then show ?thesis using assms(2,5) by (intro same) auto
  next
    case (RecChain e g v)
    then show ?thesis using assms(2,5) by (intro same) (auto simp: Let_def next_chain_def)
  next
    case (RecWrite e i n v)
    then have "sv_meta y = \<lparr>ms_chain = sv_chain y, ms_version = v\<rparr>" using assms(2,4) by (simp add: settled_def)
    with RecWrite assms(5) have k: "k' = RecCreate e i n v" "y' = y\<lparr>sv_meta := \<lparr>ms_chain = n, ms_version = v + 1\<rparr>\<rparr>"
      by (auto simp: meta_write_def)
    with RecWrite assms(1-3) show ?thesis
      by (intro exI[of _ A] exI[of _ xs] exI[of _ x]) (simp add: step_post_def core_ok_def grown_def has_seg_def covers_def next_chain_def)
  next
    case (RecCreate e i n v)
    obtain l where l: "create i = Inr l" "rel l alog_new" using create_fresh by blast
    with RecCreate assms(5) have k: "k' = RecSetChain e n v"
      "y' = y\<lparr>sv_loglets := (sv_loglets y)(i \<mapsto> length (sv_heap y)), sv_heap := sv_heap y @ [l]\<rparr>" by auto
    with create_step[OF assms(1) _ l(2), of i] RecCreate assms(2) l(2) show ?thesis
      by (intro exI[of _ A] exI[of _ xs] exI[of _ x]) (simp add: step_post_def next_chain_def)
  next
    case (RecSetChain e n v)
    with assms(2) install_step[OF assms(1), of e n v] obtain xs' x' where
      i: "core_ok rel (y\<lparr>sv_chain := n\<rparr>) A xs' x'" "grown y A (y\<lparr>sv_chain := n\<rparr>) A" by auto
    with RecSetChain assms(2,5) show ?thesis
      by (intro exI[of _ A] exI[of _ xs'] exI[of _ x']) (auto simp: step_post_def)
  next
    case (RecSetVersion e v)
    with assms(1,2,5) show ?thesis
      by (intro exI[of _ A] exI[of _ xs] exI[of _ x]) (auto simp: step_post_def core_ok_def grown_def has_seg_def covers_def settled_def)
  qed (use assms in simp_all)
qed

lemma view_tail:
  assumes "core_ok rel y A xs x"
  shows "vl_check_tail ops (sv_view y) = Inr (of_nat (al_tail A))" "unat (of_nat (al_tail A) :: u64) = al_tail A"
proof -
  note c = core_okD[OF assms(1)]
  obtain l where l: "get_active_loglet (sv_view y) = Inr (seg_id x, l, of_nat (1 + seg_total xs))" "rel l (snd x)"
    using parts_active[OF c(1)] by blast
  then show "vl_check_tail ops (sv_view y) = Inr (of_nat (al_tail A))"
    using check_tail[OF l(2)] parts_global[OF c(1)] by (simp add: vl_check_tail_def)
  show "unat (of_nat (al_tail A) :: u64) = al_tail A" using c(3) by (rule unat_of_nat_pos)
qed

lemma room_tail: "core_ok rel y A xs x \<Longrightarrow> has_room ops y \<Longrightarrow> Suc (al_tail A) < 2 ^ 64"
  using view_tail by (simp add: has_room_def)

lemma trim_in_range:
  "core_ok rel y A xs x \<Longrightarrow> trims_in_range ops y \<Longrightarrow> sv_tasks y t = Some (TrimSegments p) \<Longrightarrow> unat p \<le> al_tail A"
  using view_tail unfolding trims_in_range_def by (metis word_le_nat_alt)

text \<open>Every step of an execution without overlapping reconfigurations keeps the invariant, and the log
  only grows at its end.\<close>

lemma run_keeps_ok:
  assumes ok: "sys_ok rel y A xs x" and "orderly ops y" and t: "sv_tasks y t = Some k"
    and "task_step ops create k y = Some (k', y')"
  shows "\<exists>A' xs' x'. sys_ok rel (y'\<lparr>sv_tasks := (sv_tasks y)(t \<mapsto> k')\<rparr>) A' xs' x' \<and>
    grown y A (y'\<lparr>sv_tasks := (sv_tasks y)(t \<mapsto> k')\<rparr>) A'"
proof -
  have c: "core_ok rel y A xs x" and k: "task_ok rel y A x k" and one: "one_reconfigures y" and room: "has_room ops y"
    using assms by (auto simp: sys_ok_def orderly_def)
  have range: "unat p \<le> al_tail A" if "k = TrimSegments p" for p
    using trim_in_range[OF c] assms(2) t that by (simp add: orderly_def)
  have alone: "\<not> in_reconfigure k2" if "in_reconfigure k" "sv_tasks y u = Some k2" "u \<noteq> t" for u k2
    using one t that unfolding one_reconfigures_def by blast
  have settled: "post_cas k \<or> settled y" if "in_reconfigure k"
  proof -
    have "\<not> post_cas k2" if "sv_tasks y u = Some k2" "u \<noteq> t" for u k2
      using alone[OF \<open>in_reconfigure k\<close> that] by (cases k2) simp_all
    with t ok show ?thesis unfolding sys_ok_def by (metis option.inject)
  qed
  obtain A' xs' x' where p: "step_post y A x k k' y' A' xs' x'"
    using call_step_ok[OF c k room_tail[OF c room] _ assms(4) range] reconfigure_step_ok[OF c k _ settled assms(4)] by blast
  have post: "core_ok rel y' A' xs' x'" "task_ok rel y' A' x' k'" "kept y A x y' A' x' \<or> in_reconfigure k \<and> grown y A y' A'"
    "post_cas k \<or> settled y \<longrightarrow> post_cas k' \<or> settled y'"
    and fresh: "\<And>e q. k' = AppDone e (Inr q) \<Longrightarrow> al_tail A \<le> unat q"
    and trims: "al_trim A' = al_trim A \<or> (\<exists>p. trim_pos k = Some p \<and> al_trim A' \<le> max (al_trim A) (unat p))"
    using p by (simp_all add: step_post_def)
  have others: "task_ok rel y' A' x' k2" if "sv_tasks y u = Some k2" "u \<noteq> t" for u k2
  proof -
    have "task_ok rel y A x k2" using ok that(1) by (simp add: sys_ok_def)
    with post(3) alone[OF _ that] kept_task_ok[OF _ c] grown_task_ok show ?thesis by blast
  qed
  let ?y = "y'\<lparr>sv_tasks := (sv_tasks y)(t \<mapsto> k')\<rparr>"
  have tk: "task_ok rel ?y A' x' k2 = task_ok rel y' A' x' k2" for k2
    by (cases k2) (simp_all add: has_seg_def next_chain_def)
  have core: "core_ok rel ?y A' xs' x'" using post(1) by (simp add: core_ok_def)
  have "settled ?y" if n: "\<forall>u k2. sv_tasks ?y u = Some k2 \<longrightarrow> \<not> post_cas k2"
  proof -
    have k': "\<not> post_cas k'" using n[rule_format, of t k'] by simp
    have "post_cas k \<or> settled y"
    proof (rule disjCI)
      assume "\<not> settled y"
      then obtain u k2 where u: "sv_tasks y u = Some k2" "post_cas k2" using ok unfolding sys_ok_def by blast
      with n[rule_format, of u k2] have "u = t" by (cases "u = t") auto
      with u t show "post_cas k" by simp
    qed
    with post(4) k' show ?thesis by (auto simp: settled_def)
  qed
  moreover have "\<forall>u k2. sv_tasks ?y u = Some k2 \<longrightarrow> task_ok rel ?y A' x' k2"
    using others post(2) by (simp add: tk)
  moreover have "acks_distinct ?y"
  proof -
    have old: "unat q < al_tail A" if "sv_tasks y u = Some (AppDone e (Inr q))" for u e q
      using ok that unfolding sys_ok_def by fastforce
    then have "sv_tasks y u \<noteq> Some (AppDone e' (Inr q))" if "k' = AppDone e (Inr q)" for u e e' q
      using fresh[OF that] by (metis not_le)
    then show ?thesis using ok unfolding acks_distinct_def sys_ok_def by (simp split: if_split) metis
  qed
  moreover have "trim_asked ?y n" if n: "1 \<le> n" "n < al_trim A'" for n
  proof (cases "n < al_trim A")
    case True
    then obtain u k2 q where u: "sv_tasks y u = Some k2" "trim_pos k2 = Some q" "n < unat q"
      using ok n(1) unfolding sys_ok_def trim_asked_def by blast
    with t task_trim_pos[OF assms(4)] show ?thesis by (cases "u = t") (auto simp: trim_asked_def)
  next
    case False
    with n(2) trims obtain q where "trim_pos k = Some q" "n < unat q" by auto
    with task_trim_pos[OF assms(4)] show ?thesis unfolding trim_asked_def by (intro exI[of _ t]) auto
  qed
  ultimately have "sys_ok rel ?y A' xs' x'" using core by (simp add: sys_ok_def)
  moreover have "grown y A y' A'" using post(3) kept_grown by blast
  then have "grown y A ?y A'" by (simp add: grown_def has_seg_def covers_def)
  ultimately show ?thesis by blast
qed

lemma spawn_keeps_ok:
  assumes "sys_ok rel y A xs x" "sv_tasks y t = None"
  shows "sys_ok rel (y\<lparr>sv_tasks := (sv_tasks y)(t \<mapsto> start_task c)\<rparr>) A xs x"
proof -
  let ?y = "y\<lparr>sv_tasks := (sv_tasks y)(t \<mapsto> start_task c)\<rparr>"
  have tk: "task_ok rel ?y A x k = task_ok rel y A x k" for k
    by (cases k) (simp_all add: has_seg_def next_chain_def)
  have st: "task_ok rel y A x (start_task c)" "\<not> post_cas (start_task c)" by (cases c; simp)+
  have "settled y" if n: "\<forall>u k. ((sv_tasks y)(t \<mapsto> start_task c)) u = Some k \<longrightarrow> \<not> post_cas k"
  proof -
    have "\<not> post_cas k" if "sv_tasks y u = Some k" for u k
      using n[rule_format, of u k] that assms(2) by (cases "u = t") auto
    then show ?thesis using assms(1) by (simp add: sys_ok_def)
  qed
  moreover have "acks_distinct ?y"
    using assms by (cases c) (auto simp: acks_distinct_def sys_ok_def split: if_splits)
  moreover have "trim_asked ?y n" if "trim_asked y n" for n
    using that assms(2) unfolding trim_asked_def by (auto intro: exI[of _ u for u]) (metis option.distinct(1))
  ultimately show ?thesis
    using assms st unfolding sys_ok_def by (simp add: tk core_ok_def settled_def)
qed

lemma exec_keeps_ok:
  assumes "sys_ok rel y A xs x" "orderly ops y" "vlog_exec ops create ev y = Some y'"
  shows "\<exists>A' xs' x'. sys_ok rel y' A' xs' x' \<and> grown y A y' A'"
proof (cases ev)
  case (Spawn t c)
  with assms(3) have "sv_tasks y t = None" "y' = y\<lparr>sv_tasks := (sv_tasks y)(t \<mapsto> start_task c)\<rparr>"
    by (auto split: if_splits)
  moreover have "grown y A (y\<lparr>sv_tasks := ts\<rparr>) A" for ts by (simp add: grown_def has_seg_def covers_def)
  ultimately show ?thesis using spawn_keeps_ok[OF assms(1)] by blast
next
  case (Run t)
  with assms(3) obtain k k' y1 where
    "sv_tasks y t = Some k" "task_step ops create k y = Some (k', y1)" "y' = y1\<lparr>sv_tasks := (sv_tasks y)(t \<mapsto> k')\<rparr>"
    by (auto split: option.splits)
  with run_keeps_ok[OF assms(1,2)] show ?thesis by simp
qed

lemma reach_keeps_ok:
  assumes "vlog_reach (orderly ops) ops create y y'" "sys_ok rel y A xs x"
  shows "\<exists>A' xs' x'. sys_ok rel y' A' xs' x' \<and> al_extends A A'"
  using assms
proof (induction rule: vlog_reach.induct)
  case (reach_start y)
  then show ?case using al_extends_refl by blast
next
  case (reach_step y y' ev y'')
  then obtain A' xs' x' where "sys_ok rel y' A' xs' x'" "al_extends A A'" by blast
  moreover have "orderly ops y'" using reach_step.hyps(1) by (cases) simp_all
  ultimately show ?case using exec_keeps_ok[OF _ _ reach_step.hyps(2)] grown_extends al_extends_trans by blast
qed

lemma init_ok:
  assumes "\<forall>k \<ge> 1. i \<noteq> loglet_name k"
  shows "\<exists>y xs x. vlog_init create (meta_new (chain_new i)) = Inr y \<and> sys_ok rel y alog_new xs x"
proof -
  obtain l where l: "create i = Inr l" "rel l alog_new" using create_fresh by blast
  define y where "y = \<lparr>sv_meta = meta_new (chain_new i), sv_chain = chain_new i, sv_version = 0,
    sv_loglets = [i \<mapsto> 0], sv_heap = [l], sv_tasks = Map.empty\<rparr>"
  have "vlog_init create (meta_new (chain_new i)) = Inr y"
    using l(1) by (simp add: vlog_init_def meta_read_def meta_new_def chain_new_def y_def)
  moreover have "vl_parts rel (sv_view y) alog_new [] (\<lparr>loglet_id = i, start_pos = LOG_POS_BEGIN, end_pos = None\<rparr>, alog_new)"
    using l(2) assms
    by (auto simp: vl_parts_def y_def chain_new_def seg_ok_def seg_id_def seg_len_def local_trim_def
      alog_new_def ids_ok_def LOG_POS_BEGIN_def)
  then have "sys_ok rel y alog_new [] (\<lparr>loglet_id = i, start_pos = LOG_POS_BEGIN, end_pos = None\<rparr>, alog_new)"
    by (simp add: sys_ok_def core_ok_def settled_def handles_ok_def y_def meta_new_def alog_new_def al_tail_def acks_distinct_def)
  ultimately show ?thesis by blast
qed

subsection \<open>Queries that start after an append has returned\<close>

lemma later_step:
  assumes "core_ok rel y A xs x" "later_ok y n e k" "1 \<le> n" "n < al_tail A" "al_at A n = e"
    "task_step ops create k y = Some (k', y')"
  shows "later_ok y n e k'"
proof (cases k)
  case TailSegment
  have "covers y n (start_pos (fst x)) (seg_id x)"
    using core_okD(1)[OF assms(1)] by (auto simp: covers_def vl_parts_def seg_id_def)
  with TailSegment assms(6) active_segment_task(1)[OF assms(1)] show ?thesis by auto
next
  case (TailLoglet s i)
  with assms(2) covers_has_seg has_seg_handle[OF assms(1)] obtain h where "sv_loglets y i = Some h" by fastforce
  with TailLoglet assms(2,6) show ?thesis by (auto simp: active_loglet_step_def)
next
  case (TailCheck s h)
  with assms(2) obtain i where i: "covers y n s i" "sv_loglets y i = Some h" by auto
  from covers_parts[OF assms(1) i(1) assms(4)] i(2) obtain us z vs where
    z: "xs @ [x] = us @ z # vs" "s = of_nat (1 + seg_total us)" "rel (sv_heap y ! h) (snd z)" "n < 1 + seg_total us + seg_len z"
    by auto
  have "unat (local_to_global s (of_nat (al_tail (snd z)))) = 1 + seg_total us + seg_len z"
    using seg_global_unat[OF assms(1) z(1)] z(2) by simp
  with TailCheck assms(6) check_tail[OF z(3)] z(4) show ?thesis by auto
next
  case (ReadSegment q)
  show ?thesis
  proof (cases "find_segment (sv_chain y) q")
    case None
    have "unat q \<noteq> n"
      using None read_segment[OF core_okD(1,3)[OF assms(1)], of q] assms(3) by auto
    with None ReadSegment assms(6) show ?thesis by auto
  next
    case (Some w)
    then have "w \<in> set (segments (sv_chain y))" "in_segment q w"
      by (auto simp: find_segment_def find_Some_iff)
    then have "covers y (unat q) (start_pos w) (loglet_id w)" "start_pos w \<le> q"
      by (auto simp: covers_def in_segment_def word_less_nat_alt)
    with Some ReadSegment assms(6) show ?thesis by auto
  qed
next
  case (ReadLoglet q s i)
  show ?thesis
  proof (cases "unat q = n")
    case True
    with ReadLoglet assms(2) have i: "covers y n s i" "s \<le> q" by auto
    from covers_parts[OF assms(1) i(1) assms(4)] obtain us z vs h where
      z: "xs @ [x] = us @ z # vs" "s = of_nat (1 + seg_total us)" "sv_loglets y i = Some h" "rel (sv_heap y ! h) (snd z)"
        "al_trim (snd z) = local_trim (al_trim A) (1 + seg_total us) (seg_len z)" "n < 1 + seg_total us + seg_len z" by blast
    have "lg_read ops (global_to_local s q) (sv_heap y ! h) = Inr (Some (al_at A (unat q))) \<or>
        (\<exists>m. lg_read ops (global_to_local s q) (sv_heap y ! h) = Inl (Trimmed m))"
      using segment_read(1,2)[OF assms(1) z(1,2,4,5) i(2)] z(6) True by (meson not_le)
    with ReadLoglet True assms(5,6) z(3) show ?thesis by auto
  qed (use ReadLoglet assms(6) in auto)
qed (use assms in \<open>auto simp: active_segment_step_def active_loglet_step_def Let_def split: option.splits sum.splits prod.splits if_splits list.splits\<close>)

lemma later_reach:
  assumes "vlog_reach (orderly ops) ops create y y'" "sys_ok rel y A xs x" "1 \<le> n" "n < al_tail A" "al_at A n = e"
  shows "\<exists>A' xs' x'. sys_ok rel y' A' xs' x' \<and> al_extends A A' \<and>
    (\<forall>d k. sv_tasks y d = None \<longrightarrow> sv_tasks y' d = Some k \<longrightarrow> later_ok y' n e k)"
  using assms
proof (induction rule: vlog_reach.induct)
  case (reach_start y)
  then show ?case using al_extends_refl by (metis option.distinct(1))
next
  case (reach_step y y' ev y'')
  then obtain A' xs' x' where ih: "sys_ok rel y' A' xs' x'" "al_extends A A'"
      "\<And>d k. sv_tasks y d = None \<Longrightarrow> sv_tasks y' d = Some k \<Longrightarrow> later_ok y' n e k" by blast
  have "orderly ops y'" using reach_step.hyps(1) by cases simp_all
  from exec_keeps_ok[OF ih(1) this reach_step.hyps(2)] obtain A2 xs2 x2 where
    s2: "sys_ok rel y'' A2 xs2 x2" "grown y' A' y'' A2" by blast
  have n: "n < al_tail A'" "al_at A' n = e"
    using al_extends_tail[OF ih(2)] al_extends_at[OF ih(2)] reach_step.prems by auto
  have c: "core_ok rel y' A' xs' x'" using ih(1) by (simp add: sys_ok_def)
  have "later_ok y'' n e k" if d: "sv_tasks y d = None" "sv_tasks y'' d = Some k" for d k
  proof -
    have "later_ok y' n e k"
    proof (cases ev)
      case (Spawn t cl)
      with reach_step.hyps(2) have y'': "y'' = y'\<lparr>sv_tasks := (sv_tasks y')(t \<mapsto> start_task cl)\<rparr>"
        by (auto split: if_splits)
      show ?thesis
      proof (cases "d = t")
        case True
        with d y'' show ?thesis by (cases cl) auto
      qed (use d y'' ih(3) in auto)
    next
      case (Run t)
      with reach_step.hyps(2) obtain k0 k' y1 where
        r: "sv_tasks y' t = Some k0" "task_step ops create k0 y' = Some (k', y1)"
          "y'' = y1\<lparr>sv_tasks := (sv_tasks y')(t \<mapsto> k')\<rparr>" by (auto split: option.splits)
      show ?thesis
      proof (cases "d = t")
        case True
        with r d have "later_ok y' n e k0" "k = k'" using ih(3) by auto
        with later_step[OF c _ reach_step.prems(2) n r(2)] show ?thesis by simp
      qed (use d r ih(3) in auto)
    qed
    then show ?thesis using grown_later_ok[OF s2(2) _ n(1)] by blast
  qed
  with s2 ih(2) grown_extends al_extends_trans show ?case by blast
qed

lemma view_read:
  assumes "core_ok rel y A xs x" "1 \<le> unat q" "unat q < al_tail A"
  shows "vl_read ops q (sv_view y) = Inr (Some (al_at A (unat q))) \<or>
    (\<exists>m. vl_read ops q (sv_view y) = Inl (Trimmed m)) \<and> unat q < al_trim A"
proof -
  note c = core_okD[OF assms(1)]
  define v where "v = (sv_view y)\<lparr>vl_meta := \<lparr>ms_chain = sv_chain y, ms_version = sv_version y\<rparr>\<rparr>"
  have "vl_rel rel v (A\<lparr>al_sealed := False\<rparr>)"
    using c by (intro vl_relI[of _ _ _ xs x]) (simp_all add: v_def vl_parts_def Suc_le_eq)
  from vl_read_spec[OF this assms(2)] assms(3) have "vl_read ops q v = Inr (Some (al_at A (unat q))) \<or>
      (\<exists>m. vl_read ops q v = Inl (Trimmed m)) \<and> unat q < al_trim A"
    by (cases "unat q < al_trim A") (simp_all add: al_at_def)
  then show ?thesis by (simp add: vl_read_def v_def)
qed

end

text \<open>The result of a read at \<open>p\<close>, where \<open>e\<close> was appended: the entry, unless somebody has asked to trim it.\<close>

definition reads_back :: "'l vlog_sys \<Rightarrow> entry \<Rightarrow> LogPos \<Rightarrow> entry option result \<Rightarrow> bool" where
  "reads_back y e p r \<longleftrightarrow> r = Inr (Some e) \<or> (\<exists>m. r = Inl (Trimmed m)) \<and> trim_asked y (unat p)"

lemma append_done_stays:
  assumes "vlog_reach P ops create y y'" "sv_tasks y c = Some (AppDone e r)"
  shows "sv_tasks y' c = Some (AppDone e r)"
  using assms
proof (induction rule: vlog_reach.induct)
  case (reach_step y y' ev y'')
  then show ?case by (cases ev) (auto split: if_splits option.splits)
qed simp

context chained_log
begin

text \<open>What an append that has returned can rely on, in every later state of an execution without
  overlapping reconfigurations.\<close>

lemma concurrent_append:
  assumes "\<forall>k \<ge> 1. i \<noteq> loglet_name k" "vlog_init create (meta_new (chain_new i)) = Inr y0"
    "vlog_reach (orderly ops) ops create y0 y" "sv_tasks y c = Some (AppDone e r)"
    "vlog_reach (orderly ops) ops create y y'"
  shows "\<exists>p. r = Inr p \<and> reads_back y' e p (vl_read ops p (sv_view y')) \<and>
    (\<forall>d e'. sv_tasks y' d = Some (AppDone e' (Inr p)) \<longrightarrow> d = c) \<and>
    (\<forall>d r'. sv_tasks y d = None \<longrightarrow> sv_tasks y' d = Some (ReadDone p r') \<longrightarrow> reads_back y' e p r') \<and>
    (\<forall>d r'. sv_tasks y d = None \<longrightarrow> sv_tasks y' d = Some (TailDone r') \<longrightarrow> (\<exists>T. r' = Inr T \<and> p < T))"
proof -
  obtain xs0 x0 where "sys_ok rel y0 alog_new xs0 x0" using init_ok[OF assms(1)] assms(2) by auto
  from reach_keeps_ok[OF assms(3) this] obtain A xs x where ok: "sys_ok rel y A xs x" by blast
  then have "task_ok rel y A x (AppDone e r)" using assms(4) unfolding sys_ok_def by blast
  then obtain p where p: "r = Inr p" "1 \<le> unat p" "unat p < al_tail A" "al_at A (unat p) = e" by auto
  from later_reach[OF assms(5) ok p(2-4)] obtain A' xs' x' where
    s: "sys_ok rel y' A' xs' x'" "al_extends A A'"
      "\<And>d k. sv_tasks y d = None \<Longrightarrow> sv_tasks y' d = Some k \<Longrightarrow> later_ok y' (unat p) e k" by blast
  have core: "core_ok rel y' A' xs' x'" using s(1) by (simp add: sys_ok_def)
  have asked: "trim_asked y' (unat p)" if "unat p < al_trim A'" using s(1) p(2) that unfolding sys_ok_def by blast
  have "unat p < al_tail A'" "al_at A' (unat p) = e"
    using p al_extends_tail[OF s(2)] al_extends_at[OF s(2)] by simp_all
  then have "reads_back y' e p (vl_read ops p (sv_view y'))"
    using view_read[OF core p(2)] asked by (auto simp: reads_back_def)
  moreover have "d = c" if "sv_tasks y' d = Some (AppDone e' (Inr p))" for d e'
    using s(1) that append_done_stays[OF assms(5,4)] p(1) unfolding sys_ok_def acks_distinct_def by blast
  moreover have "reads_back y' e p r'" if d: "sv_tasks y d = None" "sv_tasks y' d = Some (ReadDone p r')" for d r'
  proof -
    have "task_ok rel y' A' x' (ReadDone p r')" using s(1) d(2) unfolding sys_ok_def by blast
    then show ?thesis using s(3)[OF d] asked p(2) by (auto simp: reads_back_def)
  qed
  moreover have "\<exists>T. r' = Inr T \<and> p < T" if "sv_tasks y d = None" "sv_tasks y' d = Some (TailDone r')" for d r'
    using s(3)[OF that] by (simp add: word_less_nat_alt)
  ultimately show ?thesis using p(1) by blast
qed

text \<open>An append that starts while nobody reconfigures and then runs without interruption returns the
  tail.\<close>

lemma append_not_blocked:
  assumes "sys_ok rel y A xs x" "has_room ops y" "\<forall>u k. sv_tasks y u = Some k \<longrightarrow> \<not> in_reconfigure k" "sv_tasks y t = None"
  shows "\<exists>n y' T. vl_check_tail ops (sv_view y) = Inr T \<and>
    vlog_schedule ops create (Spawn t (CallAppend e) # replicate n (Run t)) y = Some y' \<and>
    sv_tasks y' = (sv_tasks y)(t \<mapsto> AppDone e (Inr T))"
proof -
  have c: "core_ok rel y A xs x" using assms(1) by (simp add: sys_ok_def)
  have "\<not> post_cas k" if "sv_tasks y u = Some k" for u k
    using assms(3)[rule_format, OF that] by (cases k) simp_all
  then have "settled y" using assms(1) unfolding sys_ok_def by blast
  then have v: "vl_rel rel (sv_view y) (A\<lparr>al_sealed := False\<rparr>)"
    using core_okD[OF c] by (intro vl_relI[of _ _ _ xs x]) (simp_all add: settled_def vl_parts_def Suc_le_eq)
  have "Suc (al_tail (A\<lparr>al_sealed := False\<rparr>)) < 2 ^ 64" using room_tail[OF c assms(2)] by simp
  from vl_append_spec[OF v this, of e] obtain v' where
    "vl_append ops create e (sv_view y) = Some (Inr (of_nat (al_tail A)), v')" by auto
  from append_alone[OF core_okD(4)[OF c] assms(4) this] obtain n y' where
    "vlog_schedule ops create (Spawn t (CallAppend e) # replicate n (Run t)) y = Some y'"
    "sv_tasks y' = (sv_tasks y)(t \<mapsto> AppDone e (Inr (of_nat (al_tail A))))" by blast
  moreover have "vl_check_tail ops (sv_view y) = Inr (of_nat (al_tail A))" using vl_check_tail_spec[OF v] by simp
  ultimately show ?thesis by blast
qed

lemma append_not_blocked_reach:
  assumes "\<forall>k \<ge> 1. i \<noteq> loglet_name k" "vlog_init create (meta_new (chain_new i)) = Inr y0"
    "vlog_reach (orderly ops) ops create y0 y" "\<forall>u k. sv_tasks y u = Some k \<longrightarrow> \<not> in_reconfigure k" "sv_tasks y t = None"
  shows "\<exists>n y' T. vl_check_tail ops (sv_view y) = Inr T \<and>
    vlog_schedule ops create (Spawn t (CallAppend e) # replicate n (Run t)) y = Some y' \<and>
    sv_tasks y' = (sv_tasks y)(t \<mapsto> AppDone e (Inr T))"
proof -
  obtain xs0 x0 where "sys_ok rel y0 alog_new xs0 x0" using init_ok[OF assms(1)] assms(2) by auto
  from reach_keeps_ok[OF assms(3) this] obtain A xs x where "sys_ok rel y A xs x" by blast
  moreover have "has_room ops y" using assms(3) by cases (simp_all add: orderly_def)
  ultimately show ?thesis using append_not_blocked assms(4,5) by blast
qed

end

text \<open>A schedule all of whose states satisfy a property.\<close>

fun schedule_within :: "('l vlog_sys \<Rightarrow> bool) \<Rightarrow> 'l loglet_ops \<Rightarrow> 'l factory \<Rightarrow> vevent list \<Rightarrow> 'l vlog_sys \<Rightarrow> bool" where
  "schedule_within P ops create [] y = P y"
| "schedule_within P ops create (ev # evs) y =
     (P y \<and> (case vlog_exec ops create ev y of None \<Rightarrow> False | Some y' \<Rightarrow> schedule_within P ops create evs y'))"

lemma reach_prepend:
  assumes "vlog_reach P ops create y' y''" "P y" "vlog_exec ops create ev y = Some y'"
  shows "vlog_reach P ops create y y''"
  using assms
proof (induction rule: vlog_reach.induct)
  case (reach_start z)
  then show ?case using vlog_reach.reach_start vlog_reach.reach_step by metis
next
  case (reach_step z z' ev' z'')
  then show ?case using vlog_reach.reach_step by metis
qed

lemma schedule_within_reach:
  "schedule_within P ops create evs y \<Longrightarrow> vlog_schedule ops create evs y = Some y' \<Longrightarrow> vlog_reach P ops create y y'"
  by (induction evs arbitrary: y) (auto split: option.splits intro: reach_start reach_prepend)

end
