(* ===== verification/Memory_Virtual_Log.thy ===== *)
theory Memory_Virtual_Log
  imports Memory_Loglet Virtual_Log_Concurrent
begin

text \<open>
  The log the server runs on (\<open>relos-server/src/main.rs\<close>): a virtual log whose factory makes a new
  in-memory loglet for every segment. The contracts of \<open>Loglet\<close> and \<open>Virtual_Log\<close> are interpreted
  for it here, and the properties of both log implementations are stated on their definitions.
\<close>

section \<open>The factory\<close>

definition memory_factory :: "memory_loglet factory" where
  "memory_factory i = Inr memory_loglet_new"

abbreviation mvl_ops :: "memory_loglet virtual_log loglet_ops" where
  "mvl_ops \<equiv> vl_ops memory_ops memory_factory"

abbreviation mvl_rel :: "memory_loglet virtual_log \<Rightarrow> alog \<Rightarrow> bool" where
  "mvl_rel \<equiv> vl_rel ml_rel"

interpretation mvl: chained_log memory_ops ml_rel memory_factory
  by unfold_locales (simp add: memory_factory_def ml_rel_new)

section \<open>Properties of the in-memory loglet\<close>

text \<open>The life of an in-memory loglet: entries appended to a new one get the positions 1, 2, 3
  and so on; after it is sealed and trimmed at \<open>t\<close>, a further append is refused with
  \<open>Sealed\<close> at the tail and changes nothing, and a read returns \<open>Trimmed\<close> below \<open>t\<close>, the
  entry appended at that position from \<open>t\<close> on, and nothing at or beyond the tail.\<close>

theorem memory_loglet_lifecycle:
  assumes "length es + 1 < 2 ^ 64" and "unat t \<le> length es + 1"
  shows "\<exists>l1 l2 l3. append_list memory_ops es memory_loglet_new =
             Some (Inr (map of_nat [1..<Suc (length es)]), l1) \<and>
           ml_seal l1 = (Inr (of_nat (Suc (length es))), l2) \<and> ml_trim t l2 = (Inr (), l3) \<and>
           ml_append e l3 = (Inl (Sealed (of_nat (Suc (length es)))), l3) \<and>
           ml_read p l3 =
             (if p < t \<or> p < LOG_POS_BEGIN then Inl (Trimmed p)
              else if unat p \<le> length es then Inr (Some (es ! (unat p - 1))) else Inr None)"
proof -
  have "al_tail alog_new = 1" "\<not> al_sealed alog_new" "al_entries alog_new = []"
    by (simp_all add: al_tail_def alog_new_def)
  with memory.append_list_spec[OF ml_rel_new, of es] assms obtain l1 where
    l1: "append_list memory_ops es memory_loglet_new = Some (Inr (map of_nat [1..<Suc (length es)]), l1)"
      "ml_rel l1 (alog_new\<lparr>al_entries := es\<rparr>)"
    by auto
  define a where "a = alog_new\<lparr>al_entries := es, al_sealed := True\<rparr>"
  from memory.seal[OF l1(2)] obtain l2 where
    l2: "ml_seal l1 = (Inr (of_nat (Suc (length es))), l2)" "ml_rel l2 a"
    by (auto simp: al_tail_def a_def alog_new_def)
  have tl: "al_tail a = Suc (length es)" "al_trim a = 1" by (simp_all add: a_def al_tail_def alog_new_def)
  with memory.trim[OF l2(2), of t] assms obtain l3 where
    l3: "ml_trim t l2 = (Inr (), l3)" "ml_rel l3 (a\<lparr>al_trim := max 1 (unat t)\<rparr>)"
    by auto
  have "ml_append e l3 = (Inl (Sealed (of_nat (Suc (length es)))), l3)"
    using l3(2) ml_tail_rel[OF l3(2)] tl by (simp add: ml_append_def ml_rel_def a_def)
  moreover have "ml_read p l3 = (if p < t \<or> p < LOG_POS_BEGIN then Inl (Trimmed p)
        else if unat p \<le> length es then Inr (Some (es ! (unat p - 1))) else Inr None)"
    using l3(2) memory.read_entry[OF l3(2), of p] memory.read_beyond[OF l3(2), of p] tl
    by (auto simp: ml_read_def word_less_nat_alt ml_rel_def LOG_POS_BEGIN_def al_at_def a_def max_def
      split: if_splits)
  ultimately show ?thesis using l1(1) l2(1) l3(1) by blast
qed

theorem memory_loglet_lifecycle_witness:
  "\<exists>l1 l2 l3. append_list memory_ops [entry_new [7], entry_new [8]] memory_loglet_new =
       Some (Inr [1, 2], l1) \<and> ml_seal l1 = (Inr 3, l2) \<and> ml_trim 2 l2 = (Inr (), l3) \<and>
       ml_append (entry_new []) l3 = (Inl (Sealed 3), l3) \<and> ml_read 2 l3 = Inr (Some (entry_new [8]))"
  using memory_loglet_lifecycle[of "[entry_new [7], entry_new [8]]" 2 "entry_new []" 2]
  by (simp add: LOG_POS_BEGIN_def)

text \<open>\<open>read\<close> never indexes outside the vector: in every state a loglet can reach, once the two
  range checks have passed, the computed index is in range and the slot still holds its entry, even
  when the position is at the limit of what 64 bits can count.\<close>

theorem memory_read_in_bounds:
  assumes "ml_rel l a" and "\<not> pos < ml_trim_pos l" and "\<not> pos \<ge> ml_tail l"
  shows "ml_index pos < length (ml_entries l) \<and> ml_entries l ! ml_index pos \<noteq> None"
proof -
  have u: "al_trim a \<le> unat pos" "unat pos < al_tail a"
    using assms ml_tail_unat[OF assms(1)]
    by (simp_all add: ml_rel_def word_less_nat_alt word_le_nat_alt)
  then show ?thesis
    using assms(1) by (auto simp: ml_rel_def ml_index_unat al_tail_def)
qed

theorem memory_read_in_bounds_witness:
  "ml_index 1 < length (ml_entries (snd (ml_append (entry_new [7]) memory_loglet_new)))"
proof -
  have "ml_rel (snd (ml_append (entry_new [7]) memory_loglet_new)) (al_push (entry_new [7]) alog_new)"
    using ml_append_rel[OF ml_rel_new] by (simp add: alog_new_def al_tail_def)
  from memory_read_in_bounds[OF this, of 1] show ?thesis
    by (simp add: ml_append_def memory_loglet_new_def LOG_POS_BEGIN_def ml_tail_def ml_index_def
      word_le_nat_alt)
qed

section \<open>Properties of the virtual log\<close>

text \<open>C10. One log out of many loglets: on a virtual log made over in-memory loglets, any history of
  appends, with seals of the active loglet anywhere in between, completes; the appends get the
  consecutive positions from 1 on in the order they were made, the tail is one past the last, and
  every position reads back the entry appended there. A reconfiguration loses, duplicates and
  reorders nothing. The identifier of the first loglet must not be one that reconfiguration
  generates.\<close>

theorem virtual_log_total_order:
  assumes "\<forall>k \<ge> 1. i \<noteq> loglet_name k" and "length (appended es) + 1 < 2 ^ 64"
  shows "\<exists>v v'. vl_new memory_factory (meta_new (chain_new i)) = Inr v \<and>
           log_run mvl_ops es v = Some (Inr (map of_nat [1..<Suc (length (appended es))]), v') \<and>
           vl_check_tail memory_ops v' = Inr (of_nat (Suc (length (appended es)))) \<and>
           (\<forall>k < length (appended es). vl_read memory_ops (of_nat (Suc k)) v' = Inr (Some (appended es ! k)))"
  by (rule mvl.history_spec) fact+

theorem virtual_log_total_order_witness:
  "\<exists>v v'. vl_new memory_factory (meta_new (chain_new ''memory-0'')) = Inr v \<and>
     log_run mvl_ops [Append (entry_new [7]), Seal, Append (entry_new [8]), Seal, Seal, Append (entry_new [9])] v =
       Some (Inr [1, 2, 3], v') \<and> vl_read memory_ops 3 v' = Inr (Some (entry_new [9]))"
proof -
  have "\<forall>k \<ge> 1. ''memory-0'' \<noteq> loglet_name k" using loglet_name_not_memory by metis
  from virtual_log_total_order[OF this, of "[Append (entry_new [7]), Seal, Append (entry_new [8]), Seal,
      Seal, Append (entry_new [9])]"] obtain v v' where
    v: "vl_new memory_factory (meta_new (chain_new ''memory-0'')) = Inr v"
    and r: "log_run mvl_ops [Append (entry_new [7]), Seal, Append (entry_new [8]), Seal, Seal,
        Append (entry_new [9])] v = Some (Inr [1, 2, 3], v')"
    and k: "\<forall>k < 3. vl_read memory_ops (of_nat (Suc k)) v' =
        Inr (Some ([entry_new [7], entry_new [8], entry_new [9]] ! k))"
    by (auto simp: numeral_3_eq_3)
  from k[rule_format, of 2] have "vl_read memory_ops 3 v' = Inr (Some (entry_new [9]))"
    by simp
  with v r show ?thesis by blast
qed

text \<open>C11. An append on a virtual log always returns, with the position of the tail, whether or not
  the active loglet is sealed; the entry is then read back there, and every entry that could be
  read before still can.\<close>

theorem virtual_log_append_returns:
  assumes "mvl_rel v A" and "Suc (al_tail A) < 2 ^ 64"
  shows "\<exists>p v'. vl_append memory_ops memory_factory e v = Some (Inr p, v') \<and> unat p = al_tail A \<and>
           vl_read memory_ops p v' = Inr (Some e) \<and>
           (\<forall>q x. 1 \<le> unat q \<longrightarrow> vl_read memory_ops q v = Inr (Some x) \<longrightarrow>
                  vl_read memory_ops q v' = Inr (Some x))"
  using mvl.chained.append_then_read[OF assms(1) _ assms(2), of e] vl_relD[OF assms(1)] by simp

theorem virtual_log_append_returns_witness:
  "\<exists>v p v'. vl_new memory_factory (meta_new (chain_new ''memory-0'')) = Inr v \<and>
     vl_append memory_ops memory_factory (entry_new [5]) v = Some (Inr p, v') \<and> unat p = 1 \<and>
     vl_read memory_ops p v' = Inr (Some (entry_new [5]))"
proof -
  have "\<forall>k \<ge> 1. ''memory-0'' \<noteq> loglet_name k" using loglet_name_not_memory by metis
  from mvl.vl_new_spec[OF this] obtain v where
    v: "vl_new memory_factory (meta_new (chain_new ''memory-0'')) = Inr v" "mvl_rel v alog_new" by blast
  have t: "al_tail alog_new = 1" by (simp add: al_tail_def alog_new_def)
  with virtual_log_append_returns[OF v(2), of "entry_new [5]"] v(1) show ?thesis by auto
qed

text \<open>Sealing a virtual log does not stop appends: the next append reconfigures, succeeds, and
  takes exactly the position the seal reported as final tail.\<close>

theorem virtual_log_append_after_seal:
  assumes "mvl_rel v A" and "Suc (al_tail A) < 2 ^ 64"
  shows "\<exists>t v1 v2. vl_seal memory_ops v = (Inr t, v1) \<and>
           vl_append memory_ops memory_factory e v1 = Some (Inr t, v2)"
proof -
  obtain v1 where v1: "vl_seal memory_ops v = (Inr (of_nat (al_tail A)), v1)" "mvl_rel v1 A"
    using mvl.vl_seal_spec[OF assms(1)] by blast
  with mvl.vl_append_spec[OF v1(2) assms(2), of e] show ?thesis by blast
qed

theorem virtual_log_append_after_seal_witness:
  "\<exists>v t v1 v2. vl_new memory_factory (meta_new (chain_new ''memory-0'')) = Inr v \<and>
     vl_seal memory_ops v = (Inr t, v1) \<and>
     vl_append memory_ops memory_factory (entry_new [5]) v1 = Some (Inr t, v2)"
proof -
  have "\<forall>k \<ge> 1. ''memory-0'' \<noteq> loglet_name k" using loglet_name_not_memory by metis
  from mvl.vl_new_spec[OF this] obtain v where
    v: "vl_new memory_factory (meta_new (chain_new ''memory-0'')) = Inr v" "mvl_rel v alog_new" by blast
  with virtual_log_append_after_seal[OF v(2), of "entry_new [5]"] show ?thesis
    by (auto simp: al_tail_def alog_new_def)
qed

lemma sync_loglets_spec:
  assumes "\<forall>i. \<exists>l. create i = Inr l"
  shows "\<exists>ls'. sync_loglets create ss ls = (Inr (), ls') \<and> (\<forall>i l. ls i = Some l \<longrightarrow> ls' i = Some l) \<and>
    (\<forall>s \<in> set ss. ls' (loglet_id s) \<noteq> None)"
proof (induction ss arbitrary: ls)
  case (Cons s ss)
  show ?case
  proof (cases "ls (loglet_id s)")
    case None
    obtain l where l: "create (loglet_id s) = Inr l" using assms by blast
    from Cons.IH[of "ls(loglet_id s \<mapsto> l)"] obtain ls' where
      "sync_loglets create ss (ls(loglet_id s \<mapsto> l)) = (Inr (), ls')"
      "\<forall>i x. (ls(loglet_id s \<mapsto> l)) i = Some x \<longrightarrow> ls' i = Some x" "\<forall>s \<in> set ss. ls' (loglet_id s) \<noteq> None"
      by blast
    moreover from this None have "ls' i = Some x" if "ls i = Some x" for i x
      using that by (metis fun_upd_other option.distinct(1))
    moreover have "ls' (loglet_id s) = Some l" using calculation(2) by simp
    ultimately show ?thesis using None l by (intro exI[of _ ls']) auto
  next
    case (Some l)
    with Cons.IH[of ls] show ?thesis by auto
  qed
qed simp

text \<open>Losing the compare-and-swap is recovered: when the MetaStore has moved on since this log last
  read it, reconfiguration leaves the MetaStore as it is, takes over its chain and version, and has
  a loglet for every segment of that chain; the loglets it already had stay, the active one sealed.\<close>

theorem reconfigure_conflict:
  assumes "\<forall>i. \<exists>l. create i = Inr l" and "get_active_loglet v = Inr (i, l, start)"
    and "lg_seal ops l = (Inr t, l')" and "vl_version v \<noteq> ms_version (vl_meta v)"
  shows "\<exists>v'. reconfigure ops create v = (Inr (), v') \<and> vl_meta v' = vl_meta v \<and>
           vl_chain v' = ms_chain (vl_meta v) \<and> vl_version v' = ms_version (vl_meta v) \<and>
           (\<forall>s \<in> set (segments (vl_chain v')). vl_loglets v' (loglet_id s) \<noteq> None) \<and>
           (\<forall>j x. vl_loglets (put_loglet i l' v) j = Some x \<longrightarrow> vl_loglets v' j = Some x)"
proof -
  obtain ls where
    "sync_loglets create (segments (ms_chain (vl_meta v))) (vl_loglets (put_loglet i l' v)) = (Inr (), ls)"
    "\<forall>j x. vl_loglets (put_loglet i l' v) j = Some x \<longrightarrow> ls j = Some x"
    "\<forall>s \<in> set (segments (ms_chain (vl_meta v))). ls (loglet_id s) \<noteq> None"
    using sync_loglets_spec[OF assms(1)] by blast
  with assms(2-4) show ?thesis
    by (simp add: reconfigure_def meta_write_def sync_chain_def meta_read_def Let_def)
qed

theorem reconfigure_conflict_witness:
  "\<exists>v'. reconfigure memory_ops memory_factory
      \<lparr>vl_meta = \<lparr>ms_chain = chain_extend 1 ''b'' (chain_new ''a''), ms_version = 1\<rparr>, vl_chain = chain_new ''a'',
       vl_version = 0, vl_loglets = [''a'' \<mapsto> memory_loglet_new]\<rparr> = (Inr (), v') \<and>
      vl_chain v' = chain_extend 1 ''b'' (chain_new ''a'') \<and> vl_version v' = 1"
proof -
  let ?v = "\<lparr>vl_meta = \<lparr>ms_chain = chain_extend 1 ''b'' (chain_new ''a''), ms_version = 1\<rparr>, vl_chain = chain_new ''a'',
       vl_version = 0, vl_loglets = [''a'' \<mapsto> memory_loglet_new]\<rparr>"
  have "\<forall>i. \<exists>l. memory_factory i = Inr l" by (simp add: memory_factory_def)
  moreover have "get_active_loglet ?v = Inr (''a'', memory_loglet_new, 1)"
    by (simp add: get_active_loglet_def active_segment_def chain_new_def LOG_POS_BEGIN_def)
  moreover have "\<exists>t l'. lg_seal memory_ops memory_loglet_new = (Inr t, l')" by (simp add: ml_seal_def)
  ultimately show ?thesis
    using reconfigure_conflict[of memory_factory ?v "''a''" memory_loglet_new 1 memory_ops] by auto
qed

text \<open>A read below the trim position reports the position inside the loglet, not the one the
  caller asked for: in a segment that starts beyond 1 the two differ.\<close>

theorem trimmed_reports_local_position:
  assumes "find_segment (vl_chain v) p = Some s" and "vl_read memory_ops p v = Inl (Trimmed q)"
  shows "q = p - start_pos s + 1 \<and> (start_pos s \<noteq> 1 \<longrightarrow> q \<noteq> p)"
proof -
  obtain l where "vl_loglets v (loglet_id s) = Some l" "ml_read (global_to_local (start_pos s) p) l = Inl (Trimmed q)"
    using assms by (cases "vl_loglets v (loglet_id s)") (simp_all add: vl_read_def)
  then have q: "q = p - start_pos s + 1"
    by (simp add: ml_read_def global_to_local_def split: if_splits)
  moreover have "start_pos s = 1" if "p - start_pos s + 1 = p" using that by (simp add: algebra_simps)
  ultimately show ?thesis by auto
qed

theorem trimmed_reports_local_position_witness:
  "vl_read memory_ops 2 \<lparr>vl_meta = meta_new (chain_new ''a''), vl_chain = chain_extend 2 ''b'' (chain_new ''a''),
      vl_version = 0, vl_loglets = [''b'' \<mapsto> \<lparr>ml_entries = [None], ml_sealed = False, ml_trim_pos = 2\<rparr>]\<rparr> =
   Inl (Trimmed 1) \<and> (1::LogPos) \<noteq> 2"
proof -
  let ?v = "\<lparr>vl_meta = meta_new (chain_new ''a''), vl_chain = chain_extend 2 ''b'' (chain_new ''a''),
      vl_version = 0, vl_loglets = [''b'' \<mapsto> \<lparr>ml_entries = [None], ml_sealed = False, ml_trim_pos = 2\<rparr>]\<rparr>"
  have f: "find_segment (vl_chain ?v) 2 = Some \<lparr>loglet_id = ''b'', start_pos = 2, end_pos = None\<rparr>"
    by (simp add: chain_extend_def chain_new_def close_last_def find_segment_def in_segment_def LOG_POS_BEGIN_def)
  then have "\<exists>q. vl_read memory_ops 2 ?v = Inl (Trimmed q)"
    by (simp add: vl_read_def ml_read_def global_to_local_def word_less_nat_alt)
  then obtain q where q: "vl_read memory_ops 2 ?v = Inl (Trimmed q)" by blast
  with trimmed_reports_local_position[OF f q] show ?thesis by simp
qed

end
