(* ===== verification/Replicated_Table.thy ===== *)
theory Replicated_Table
  imports Sample_Codec Memory_Virtual_Log
begin

text \<open>
  The table store as one system: the client interface over the base engine, the table applicator,
  the in-memory store and a virtual log of in-memory loglets. The contracts proved for each part
  meet here: the virtual log is a loglet, the table applicator an applicator, so a server is a
  \<open>replica\<close>, and the applicator implements the abstract database, so the log means a database.
\<close>

section \<open>Servers\<close>

type_synonym table_server = "(memory_loglet virtual_log, unit) base_engine"

abbreviation table_engine :: "table_codecs \<Rightarrow> table_server engine_ops" where
  "table_engine c \<equiv> base_ops mvl_ops (table_apply c)"

interpretation server: replica mvl_ops mvl_rel "table_apply c" "table_sem c"
  by (rule replica.intro[OF mvl.chained.loglet_core_axioms table.applicator_axioms])

section \<open>The database that a log means\<close>

fun db_replay :: "table_codecs \<Rightarrow> entry list \<Rightarrow> database \<Rightarrow> database result" where
  "db_replay c [] D = Inr D"
| "db_replay c (e # es) D =
     and_then (command_from_bytes c (payload e)) (\<lambda>cmd.
     and_then (db_apply cmd D) (\<lambda>(resp, D'). db_replay c es D'))"

definition plain_log :: "table_codecs \<Rightarrow> entry list \<Rightarrow> bool" where
  "plain_log c es \<longleftrightarrow>
     (\<forall>e cmd. e \<in> set es \<and> command_from_bytes c (payload e) = Inr cmd \<longrightarrow> plain_name (command_table cmd))"

lemma db_replay_append: "db_replay c (es @ fs) D = and_then (db_replay c es D) (db_replay c fs)"
  by (induction es arbitrary: D) (auto simp: and_then_def split: sum.splits)

lemma table_sem_refines:
  assumes "codecs_ok c" "db_rel c m D" "command_from_bytes c (payload en) = Inr cmd"
    "plain_name (command_table cmd)" "db_apply cmd D = Inr (resp, D')"
  shows "\<exists>bs m'. table_sem c en p m = Inr (Data bs, m') \<and> response_from_bytes c bs = Inr resp \<and> db_rel c m' D'"
  using command_refines[OF assms(1,2,4)] assms(3,5) by (simp add: table_sem_def implements_def)

lemma replay_refines:
  assumes "codecs_ok c" "plain_log c es" "db_rel c m D" "db_replay c es D = Inr D'"
  shows "\<exists>m'. replay (table_sem c) p es m = Inr m' \<and> db_rel c m' D'"
  using assms(2-4)
proof (induction es arbitrary: p m D)
  case (Cons e es)
  from Cons.prems(3) obtain cmd resp D1 where
    cmd: "command_from_bytes c (payload e) = Inr cmd" "db_apply cmd D = Inr (resp, D1)" "db_replay c es D1 = Inr D'"
    by (auto simp: and_then_eq_Inr)
  have "plain_name (command_table cmd)" using Cons.prems(1) cmd(1) unfolding plain_log_def by force
  from table_sem_refines[OF assms(1) Cons.prems(2) cmd(1) this cmd(2)] obtain bs m1 where
    "table_sem c e (of_nat p) m = Inr (Data bs, m1)" "db_rel c m1 D1" by blast
  moreover have "plain_log c es" using Cons.prems(1) unfolding plain_log_def by auto
  ultimately show ?case
    using Cons.IH[OF _ db_rel_cursor cmd(3)] by simp
qed simp

text \<open>\<open>server_ok c be a n D\<close>: the server has applied the first \<open>n\<close> entries of its log \<open>a\<close>, the
  entries it still needs are not trimmed, and the whole log means the database \<open>D\<close>.\<close>

definition server_ok :: "table_codecs \<Rightarrow> table_server \<Rightarrow> alog \<Rightarrow> nat \<Rightarrow> database \<Rightarrow> bool" where
  "server_ok c be a n D \<longleftrightarrow> engine_inv mvl_rel (table_sem c) be a n \<and> al_trim a \<le> Suc n \<and>
     plain_log c (al_entries a) \<and> db_replay c (al_entries a) Map.empty = Inr D"

lemma server_okD:
  assumes "server_ok c be a n D"
  shows "engine_inv mvl_rel (table_sem c) be a n" "al_trim a \<le> Suc n" "plain_log c (al_entries a)"
    "db_replay c (al_entries a) Map.empty = Inr D" "\<not> al_sealed a"
  using assms by (simp_all add: server_ok_def engine_inv_def vl_rel_def)

lemma server_meaning:
  assumes "codecs_ok c" "server_ok c be a n D"
  shows "\<exists>m. replay (table_sem c) 1 (al_entries a) Map.empty = Inr m \<and> db_rel c m D"
  using replay_refines[OF assms(1) server_okD(3)[OF assms(2)] db_rel_empty server_okD(4)[OF assms(2)]] by simp

lemma server_synced:
  assumes "codecs_ok c" "server_ok c be a n D"
  shows "\<exists>be'. handle_sync mvl_ops (table_apply c) be = (Inr (of_nat (al_tail a)), be') \<and>
           server_ok c be' a (length (al_entries a)) D \<and> store_ok (be_store be') \<and>
           db_rel c (content (be_store be')) D \<and> be_log be' = be_log be"
proof -
  obtain m where m: "replay (table_sem c) 1 (al_entries a) Map.empty = Inr m" "db_rel c m D"
    using server_meaning[OF assms] by blast
  from server.sync_healthy[OF server_okD(1,2)[OF assms(2)] m(1)] obtain be' where
    b: "handle_sync mvl_ops (table_apply c) be = (Inr (of_nat (al_tail a)), be')"
      "engine_inv mvl_rel (table_sem c) be' a (length (al_entries a))" "content (be_store be') = m"
      "be_log be' = be_log be"
    by blast
  moreover have "n \<le> length (al_entries a)"
    using server_okD(1)[OF assms(2)] by (simp add: engine_inv_def replayed_def)
  ultimately show ?thesis
    using m(2) server_okD(2-4)[OF assms(2)]
    by (auto simp: server_ok_def engine_inv_def replayed_def)
qed

lemma fresh_server:
  assumes "vl_new memory_factory (meta_new (chain_new i)) = Inr v" "\<forall>k \<ge> 1. i \<noteq> loglet_name k"
  shows "\<exists>be. engine_new v memory_store_new x = Inr be \<and> engine_inv mvl_rel (table_sem c) be alog_new 0 \<and>
           be_log be = v \<and> be_store be = memory_store_new"
proof -
  obtain v' where "vl_new memory_factory (meta_new (chain_new i)) = Inr v'" "mvl_rel v' alog_new"
    using mvl.vl_new_spec[OF assms(2)] by blast
  then show ?thesis using server.new_engine[OF _ server.replayed_fresh] assms(1) by auto
qed

lemma fresh_server_ok:
  assumes "vl_new memory_factory (meta_new (chain_new i)) = Inr v" "\<forall>k \<ge> 1. i \<noteq> loglet_name k"
  shows "\<exists>be. engine_new v memory_store_new () = Inr be \<and> server_ok c be alog_new 0 Map.empty \<and> be_log be = v"
  using fresh_server[OF assms, of "()" c]
  by (auto simp: server_ok_def alog_new_def plain_log_def)

lemma table_write:
  assumes "codecs_ok c" "server_ok c be a n D" "plain_name (command_table cmd)" "Suc (al_tail a) < 2 ^ 64"
    "db_apply cmd D = Inr (resp, D')"
  shows "\<exists>be' en. propose_and_check c (table_engine c) cmd be = Some (check_response resp, be') \<and>
           command_to_bytes c cmd = Inr (payload en) \<and> server_ok c be' (al_push en a) (al_tail a) D'"
proof -
  have cok: "codec_ok (command_codec c)" using assms(1) by (simp add: codecs_ok_def)
  obtain pl where pl: "command_to_bytes c cmd = Inr pl"
    using encode_total[OF cok, of cmd] unfolding command_to_bytes_def ..
  have dec: "command_from_bytes c (payload (entry_new pl)) = Inr cmd"
    using decode_encode[OF cok] pl by (simp add: command_to_bytes_def command_from_bytes_def)
  obtain m where m: "replay (table_sem c) 1 (al_entries a) Map.empty = Inr m" "db_rel c m D"
    using server_meaning[OF assms(1,2)] by blast
  obtain bs m' where s: "table_sem c (entry_new pl) (of_nat (al_tail a)) m = Inr (Data bs, m')"
    "response_from_bytes c bs = Inr resp"
    using table_sem_refines[OF assms(1) m(2) dec assms(3,5)] by blast
  obtain be' where b: "handle_propose mvl_ops (table_apply c) (entry_new pl) be = Some (Inr (Data bs), be')"
    "engine_inv mvl_rel (table_sem c) be' (al_push (entry_new pl) a) (al_tail a)"
    using server.propose_healthy[OF server_okD(1,5)[OF assms(2)] assms(4) server_okD(2)[OF assms(2)] m(1) s(1)]
    by blast
  have "propose_and_check c (table_engine c) cmd be = Some (check_response resp, be')"
    using pl b(1) s(2) by (simp add: propose_and_check_def)
  moreover have "server_ok c be' (al_push (entry_new pl) a) (al_tail a) D'"
  proof -
    have "n \<le> length (al_entries a)"
      using server_okD(1)[OF assms(2)] by (simp add: engine_inv_def replayed_def)
    then have "al_trim a \<le> Suc (al_tail a)" using server_okD(2)[OF assms(2)] by (simp add: al_tail_def)
    moreover have "plain_log c (al_entries a @ [entry_new pl])"
      using server_okD(3)[OF assms(2)] dec assms(3) unfolding plain_log_def by auto
    moreover have "db_replay c (al_entries a @ [entry_new pl]) Map.empty = Inr D'"
      using server_okD(4)[OF assms(2)] dec assms(5) by (simp add: db_replay_append)
    ultimately show ?thesis using b(2) by (simp add: server_ok_def)
  qed
  ultimately show ?thesis using pl by (intro exI[of _ be'] exI[of _ "entry_new pl"]) simp
qed

lemma table_read:
  assumes "codecs_ok c" "server_ok c be a n D" "plain_name t"
  shows "\<exists>be'. dt_get c (table_engine c) be_store t key be = Some (Inr (db_row D t key), be') \<and>
           server_ok c be' a (length (al_entries a)) D"
proof -
  obtain be' where b: "handle_sync mvl_ops (table_apply c) be = (Inr (of_nat (al_tail a)), be')"
    "server_ok c be' a (length (al_entries a)) D" "store_ok (be_store be')" "db_rel c (content (be_store be')) D"
    using server_synced[OF assms(1,2)] by blast
  with read_row_rel[OF b(3,4) assms(3), of key] show ?thesis by (simp add: dt_get_def)
qed

lemma table_scan:
  assumes "codecs_ok c" "server_ok c be a n D" "plain_name t"
  shows "\<exists>keys be'. dt_scan c (table_engine c) be_store t be =
             Some (Inr (map (\<lambda>k. the (db_row D t k)) keys), be') \<and>
           distinct keys \<and> set keys = {k. db_row D t k \<noteq> None} \<and> server_ok c be' a (length (al_entries a)) D"
proof -
  obtain be' where b: "handle_sync mvl_ops (table_apply c) be = (Inr (of_nat (al_tail a)), be')"
    "server_ok c be' a (length (al_entries a)) D" "store_ok (be_store be')" "db_rel c (content (be_store be')) D"
    using server_synced[OF assms(1,2)] by blast
  with read_rows_rel[OF assms(1) b(3,4) assms(3)] show ?thesis by (auto simp: dt_scan_def)
qed

text \<open>Another server on the same log: it has applied some other prefix of it into its own store.\<close>

lemma other_server:
  assumes "server_ok c be a n D" "replayed (table_sem c) a' k s" "al_entries a = al_entries a' @ es"
    "al_trim a \<le> Suc k"
  shows "server_ok c \<lparr>be_log = be_log be, be_store = s, be_app = (), be_cursor = of_nat (Suc k)\<rparr> a k D"
proof -
  have "replayed (table_sem c) a k s"
    using assms(2,3) by (simp add: replayed_def)
  then show ?thesis
    using assms(1,4) by (simp add: server_ok_def engine_inv_def)
qed

section \<open>Properties of the table store\<close>

text \<open>The schema and rows of the demonstration in \<open>main.rs\<close>, for the witnesses.\<close>

definition users_schema :: table_schema where
  "users_schema = \<lparr>schema_name = ''users'',
     columns = [\<lparr>col_name = ''id'', col_type = TInt64, nullable = False\<rparr>,
       \<lparr>col_name = ''name'', col_type = TUtf8, nullable = False\<rparr>,
       \<lparr>col_name = ''email'', col_type = TUtf8, nullable = True\<rparr>],
     primary_key = [''id'']\<rparr>"

definition alice :: row where
  "alice = \<lparr>values = [Int64 1, Utf8 ''Alice'', Utf8 ''alice@example.com'']\<rparr>"

lemma demo_server: "\<exists>be. server_ok sample_codecs be alog_new 0 Map.empty"
proof -
  have "\<forall>k \<ge> 1. ''memory-0'' \<noteq> loglet_name k" using loglet_name_not_memory by metis
  moreover from this obtain v where "vl_new memory_factory (meta_new (chain_new ''memory-0'')) = Inr v"
    using mvl.vl_new_spec by blast
  ultimately show ?thesis using fresh_server_ok by blast
qed

definition demo_db :: database where
  "demo_db = [''users'' \<mapsto> \<lparr>db_schema = users_schema, db_rows = [[Int64 1] \<mapsto> alice]\<rparr>]"

lemma alice_pk: "extract_pk users_schema alice = Inr [Int64 1]"
  by (simp add: extract_pk_def users_schema_def alice_def)

lemma plain_users [simp]: "plain_name ''users''"
  by (simp add: plain_name_def)

lemma demo_server_row: "\<exists>be a. server_ok sample_codecs be a 2 demo_db \<and> al_tail a = 3 \<and> al_trim a = 1"
proof -
  obtain be where be: "server_ok sample_codecs be alog_new 0 Map.empty" using demo_server by blast
  have t0: "al_tail alog_new = 1" "al_trim alog_new = 1" by (simp_all add: al_tail_def alog_new_def)
  let ?D = "[''users'' \<mapsto> \<lparr>db_schema = users_schema, db_rows = Map.empty\<rparr>]"
  from table_write[OF sample_codecs_ok be, of "CreateTable users_schema" Ok ?D] t0 obtain be1 e1 where
    b1: "server_ok sample_codecs be1 (al_push e1 alog_new) 1 ?D"
    by (auto simp: users_schema_def)
  have ap: "db_apply (Put ''users'' alice) ?D = Inr (Ok, demo_db)"
    using alice_pk by (simp add: demo_db_def) (simp add: alice_def users_schema_def)
  have t1: "al_tail (al_push e1 alog_new) = 2" using t0 by simp
  from table_write[OF sample_codecs_ok b1 _ _ ap, unfolded t1] obtain be2 e2 where
    "server_ok sample_codecs be2 (al_push e2 (al_push e1 alog_new)) 2 demo_db"
    by auto
  then show ?thesis using t0 by (intro exI[of _ be2] exI[of _ "al_push e2 (al_push e1 alog_new)"]) simp
qed

text \<open>C7. Writes are linearised by the log: whatever prefix of the log this server has applied, a
  table command is answered exactly as the abstract database of the whole log answers it, and
  afterwards the log, one entry longer, means the database after the command. This covers
  creating, dropping, putting and deleting, and every error response (table exists, no such table,
  wrong number of values).\<close>

theorem write_linearised:
  assumes "codecs_ok c" and "server_ok c be a n D" and "plain_name (command_table cmd)"
    and "Suc (al_tail a) < 2 ^ 64" and "db_apply cmd D = Inr (resp, D')"
  shows "\<exists>be' en. propose_and_check c (table_engine c) cmd be = Some (check_response resp, be') \<and>
           command_to_bytes c cmd = Inr (payload en) \<and> server_ok c be' (al_push en a) (al_tail a) D'"
  by (rule table_write) fact+

theorem write_linearised_witness:
  "\<exists>be be' en. server_ok sample_codecs be alog_new 0 Map.empty \<and>
     propose_and_check sample_codecs (table_engine sample_codecs) (CreateTable users_schema) be = Some (Inr (), be') \<and>
     server_ok sample_codecs be' (al_push en alog_new) 1
       [''users'' \<mapsto> \<lparr>db_schema = users_schema, db_rows = Map.empty\<rparr>]"
proof -
  obtain be where be: "server_ok sample_codecs be alog_new 0 Map.empty" using demo_server by blast
  from write_linearised[OF sample_codecs_ok be, of "CreateTable users_schema" Ok] be show ?thesis
    by (auto simp: plain_name_def users_schema_def al_tail_def alog_new_def)
qed

text \<open>Reads are linearised: \<open>get\<close> returns the row that the database of the whole log holds for
  that key, however far behind the local store was.\<close>

theorem read_linearised:
  assumes "codecs_ok c" and "server_ok c be a n D" and "plain_name t"
  shows "\<exists>be'. dt_get c (table_engine c) be_store t key be = Some (Inr (db_row D t key), be') \<and>
           server_ok c be' a (length (al_entries a)) D"
  by (rule table_read) fact+

theorem read_linearised_witness:
  "\<exists>be a be'. server_ok sample_codecs be a 2 demo_db \<and>
     dt_get sample_codecs (table_engine sample_codecs) be_store ''users'' [Int64 1] be = Some (Inr (Some alice), be')"
proof -
  obtain be a where be: "server_ok sample_codecs be a 2 demo_db" using demo_server_row by blast
  from read_linearised[OF sample_codecs_ok be plain_users, of "[Int64 1]"] be show ?thesis
    by (auto simp: db_row_def demo_db_def)
qed

text \<open>A scan returns every row of the table exactly once and nothing else: the rows of the
  database of the whole log, one per primary key.\<close>

theorem scan_linearised:
  assumes "codecs_ok c" and "server_ok c be a n D" and "plain_name t"
  shows "\<exists>keys be'. dt_scan c (table_engine c) be_store t be =
             Some (Inr (map (\<lambda>k. the (db_row D t k)) keys), be') \<and>
           distinct keys \<and> set keys = {k. db_row D t k \<noteq> None} \<and> server_ok c be' a (length (al_entries a)) D"
  by (rule table_scan) fact+

theorem scan_linearised_witness:
  "\<exists>be a be'. server_ok sample_codecs be a 2 demo_db \<and>
     dt_scan sample_codecs (table_engine sample_codecs) be_store ''users'' be = Some (Inr [alice], be')"
proof -
  obtain be a where be: "server_ok sample_codecs be a 2 demo_db" using demo_server_row by blast
  from scan_linearised[OF sample_codecs_ok be plain_users] obtain keys be' where
    k: "dt_scan sample_codecs (table_engine sample_codecs) be_store ''users'' be =
        Some (Inr (map (\<lambda>k. the (db_row demo_db ''users'' k)) keys), be')"
      "distinct keys" "set keys = {k. db_row demo_db ''users'' k \<noteq> None}"
    by blast
  have "{k. db_row demo_db ''users'' k \<noteq> None} = {[Int64 1]}"
    by (auto simp: db_row_def demo_db_def)
  with k(2,3) have "keys = [[Int64 1]]"
    by (cases keys; cases "tl keys") auto
  with k(1) be show ?thesis by (auto simp: db_row_def demo_db_def)
qed

text \<open>What one server writes, every other server reads: after a put on one server, a get on any
  other server of the same log returns the row, whatever prefix of the log that server had
  applied and whatever is in its own store besides.\<close>

theorem read_your_writes_anywhere:
  assumes "codecs_ok c" and "server_ok c be a n D" and "D t = Some T"
    and "length (values r) = length (columns (db_schema T))" and "extract_pk (db_schema T) r = Inr pk"
    and "Suc (al_tail a) < 2 ^ 64"
    and "replayed (table_sem c) a k s" and "al_trim a \<le> Suc k"
  shows "\<exists>be1 be2. dt_put c (table_engine c) t r be = Some (Inr (), be1) \<and>
           dt_get c (table_engine c) be_store t pk
             \<lparr>be_log = be_log be1, be_store = s, be_app = (), be_cursor = of_nat (Suc k)\<rparr> = Some (Inr (Some r), be2)"
proof -
  have rel: "\<exists>m. db_rel c m D" using server_meaning[OF assms(1,2)] by blast
  then have plain: "plain_name t" using db_relD(2) assms(3) by fastforce
  define D' where "D' = D(t \<mapsto> T\<lparr>db_rows := (db_rows T)(pk \<mapsto> r)\<rparr>)"
  have "db_apply (Put t r) D = Inr (Ok, D')"
    using assms(3-5) by (simp add: D'_def)
  from table_write[OF assms(1,2) _ assms(6) this] plain obtain be1 en where
    w: "propose_and_check c (table_engine c) (Put t r) be = Some (Inr (), be1)"
      "server_ok c be1 (al_push en a) (al_tail a) D'" by auto
  have "server_ok c \<lparr>be_log = be_log be1, be_store = s, be_app = (), be_cursor = of_nat (Suc k)\<rparr> (al_push en a) k D'"
    using other_server[OF w(2) assms(7), of "[en]"] assms(8) by simp
  from table_read[OF assms(1) this plain, of pk] w(1) show ?thesis
    by (auto simp: dt_put_def db_row_def D'_def)
qed

theorem read_your_writes_anywhere_witness:
  "\<exists>be be1 be2. dt_put sample_codecs (table_engine sample_codecs) ''users'' alice be = Some (Inr (), be1) \<and>
     dt_get sample_codecs (table_engine sample_codecs) be_store ''users'' [Int64 1]
       \<lparr>be_log = be_log be1, be_store = memory_store_new, be_app = (), be_cursor = 1\<rparr> = Some (Inr (Some alice), be2)"
proof -
  obtain be a where be: "server_ok sample_codecs be a 2 demo_db" "al_tail a = 3" "al_trim a = 1"
    using demo_server_row by blast
  have T: "demo_db ''users'' = Some \<lparr>db_schema = users_schema, db_rows = [[Int64 1] \<mapsto> alice]\<rparr>"
    by (simp add: demo_db_def)
  have "length (values alice) = length (columns users_schema)" by (simp add: alice_def users_schema_def)
  with read_your_writes_anywhere[OF sample_codecs_ok be(1) T, of alice "[Int64 1]" 0 memory_store_new]
    alice_pk server.replayed_fresh be(2,3) show ?thesis by auto
qed

end
