(* ===== verification/Server_Life.thy ===== *)
theory Server_Life
  imports Replicated_Table
begin

text \<open>
  What holds over the whole life of a server (requests, entries appended by others, crashes and
  restarts), for the bare table applicator and under any stack of layers, and what goes wrong: a
  command that the applicator refuses, and table names that contain a slash.
\<close>

section \<open>Lives of servers\<close>

text \<open>C8. The local store is always the replay of a prefix of the log, with each entry applied
  exactly once, and the cursor in the store is the one in memory: over any life of a server that
  starts fresh, with its own requests, entries of others, and crashes at any point between two
  commits. Every such life completes.\<close>

theorem store_is_log_prefix:
  assumes "\<forall>k \<ge> 1. i \<noteq> loglet_name k" and "length (run_appended es) + 1 < 2 ^ 64"
  shows "\<exists>v be be' n. vl_new memory_factory (meta_new (chain_new i)) = Inr v \<and>
           engine_new v memory_store_new () = Inr be \<and>
           server_run mvl_ops (table_apply c) () es be = Some (Inr (), be') \<and>
           n \<le> length (run_appended es) \<and> be_cursor be' = of_nat (Suc n) \<and>
           read_cursor (be_store be') = Inr (be_cursor be') \<and>
           replay (table_sem c) 1 (take n (run_appended es)) Map.empty = Inr (content (be_store be'))"
proof -
  obtain v where v: "vl_new memory_factory (meta_new (chain_new i)) = Inr v"
    using mvl.vl_new_spec[OF assms(1)] by blast
  from fresh_server[OF v assms(1), of "()" c] obtain be where
    be: "engine_new v memory_store_new () = Inr be" "engine_inv mvl_rel (table_sem c) be alog_new 0" by blast
  have "\<not> al_sealed alog_new" "al_tail alog_new + length (run_appended es) < 2 ^ 64"
    "al_entries alog_new = []"
    using assms(2) by (simp_all add: alog_new_def al_tail_def)
  with server.server_run_spec[OF be(2), of es "()"] obtain be' n where
    b: "server_run mvl_ops (table_apply c) () es be = Some (Inr (), be')"
      "engine_inv mvl_rel (table_sem c) be' (alog_new\<lparr>al_entries := run_appended es\<rparr>) n"
    by auto
  then have r: "replayed (table_sem c) (alog_new\<lparr>al_entries := run_appended es\<rparr>) n (be_store be')"
    "be_cursor be' = of_nat (Suc n)"
    by (simp_all add: engine_inv_def)
  with v be(1) b(1) read_cursor_replayed[OF r(1)] show ?thesis
    by (auto simp: replayed_def)
qed

theorem store_is_log_prefix_witness:
  "\<exists>v be be' n. vl_new memory_factory (meta_new (chain_new ''memory-0'')) = Inr v \<and>
     engine_new v memory_store_new () = Inr be \<and>
     server_run mvl_ops (table_apply sample_codecs) () [Remote (entry_new []), Crash 1, Request Sync] be =
       Some (Inr (), be') \<and> n \<le> 1 \<and>
     replay (table_sem sample_codecs) 1 (take n [entry_new []]) Map.empty = Inr (content (be_store be'))"
proof -
  have "\<forall>k \<ge> 1. ''memory-0'' \<noteq> loglet_name k" using loglet_name_not_memory by metis
  from store_is_log_prefix[OF this, of "[Remote (entry_new []), Crash 1, Request Sync]" sample_codecs]
  show ?thesis by fastforce
qed

definition demo_stack ::
  "((memory_loglet virtual_log, stack_state) base_engine, stack_state) engine_stack_builder" where
  "demo_stack = stack_push (observer_middleware 1) (stack_push (batching_middleware sample_batch_codecs None)
     (stack_push (view_middleware sample_view_codec (\<lambda>_. False) 7) stack_new))"

text \<open>C9. Replicas converge: take any stack of layers that keep the applicator contract, over the
  table applicator, and two servers that start fresh on the same log. Whatever their lives (own
  requests, crashes, how far each got in between), if they saw the same sequence of entries and
  stand at the same cursor, their stores have the same content.\<close>

theorem replicas_converge:
  assumes "\<forall>w \<in> set (middlewares b). keeps_contract w"
    and "\<forall>k \<ge> 1. i \<noteq> loglet_name k" and "length (run_appended es) + 1 < 2 ^ 64"
    and "run_appended es = run_appended fs"
    and "vl_new memory_factory (meta_new (chain_new i)) = Inr v"
    and "engine_new v memory_store_new x = Inr be"
  shows "\<exists>be1 be2. server_run mvl_ops (stack_applicator b (table_apply c)) x es be = Some (Inr (), be1) \<and>
           server_run mvl_ops (stack_applicator b (table_apply c)) x fs be = Some (Inr (), be2) \<and>
           (be_cursor be1 = be_cursor be2 \<longrightarrow> content (be_store be1) = content (be_store be2))"
proof -
  obtain sem where app: "applicator (stack_applicator b (table_apply c)) sem"
    using stack_keeps_contract[OF assms(1) table.applicator_axioms] by blast
  note rep = replica.intro[OF mvl.chained.loglet_core_axioms app]
  have "mvl_rel v alog_new" using mvl.vl_new_spec[OF assms(2)] assms(5) by auto
  from replica.new_engine[OF rep this replica.replayed_fresh[OF rep], of x] assms(6)
  have inv: "engine_inv mvl_rel sem be alog_new 0" by auto
  have new: "\<not> al_sealed alog_new" "al_entries alog_new = []" "al_tail alog_new = 1"
    by (simp_all add: alog_new_def al_tail_def)
  let ?a = "alog_new\<lparr>al_entries := run_appended es\<rparr>"
  obtain be1 k1 where
    b1: "server_run mvl_ops (stack_applicator b (table_apply c)) x es be = Some (Inr (), be1)"
      "engine_inv mvl_rel sem be1 ?a k1"
    using replica.server_run_spec[OF rep inv new(1), of es x] assms(3) new by auto
  obtain be2 k2 where
    b2: "server_run mvl_ops (stack_applicator b (table_apply c)) x fs be = Some (Inr (), be2)"
      "engine_inv mvl_rel sem be2 ?a k2"
    using replica.server_run_spec[OF rep inv new(1), of fs x] assms(3,4) new by auto
  have "content (be_store be1) = content (be_store be2)" if "be_cursor be1 = be_cursor be2"
  proof -
    have k: "k1 \<le> length (run_appended es)" "k2 \<le> length (run_appended es)"
      using b1(2) b2(2) by (simp_all add: engine_inv_def replayed_def)
    have "Suc k1 = Suc k2"
      using that b1(2) b2(2) k assms(3) of_nat_pos_eq[of "Suc k1" "Suc k2"]
      by (simp add: engine_inv_def del: of_nat_Suc)
    then show ?thesis
      using b1(2) b2(2) replayed_det[of sem ?a k1] by (simp add: engine_inv_def)
  qed
  with b1(1) b2(1) show ?thesis by blast
qed

theorem replicas_converge_witness:
  "\<exists>v be be1 be2. vl_new memory_factory (meta_new (chain_new ''memory-0'')) = Inr v \<and>
     engine_new v memory_store_new stack_state_new = Inr be \<and>
     server_run mvl_ops (stack_applicator demo_stack (table_apply sample_codecs)) stack_state_new
       [Request (Propose (entry_new []))] be = Some (Inr (), be1) \<and>
     server_run mvl_ops (stack_applicator demo_stack (table_apply sample_codecs)) stack_state_new
       [Remote (entry_new []), Crash 0] be = Some (Inr (), be2) \<and>
     (be_cursor be1 = be_cursor be2 \<longrightarrow> content (be_store be1) = content (be_store be2))"
proof -
  have i: "\<forall>k \<ge> 1. ''memory-0'' \<noteq> loglet_name k" using loglet_name_not_memory by metis
  obtain v where v: "vl_new memory_factory (meta_new (chain_new ''memory-0'')) = Inr v"
    using mvl.vl_new_spec[OF i] by blast
  obtain be where be: "engine_new v memory_store_new stack_state_new = Inr be"
    using fresh_server[OF v i, of stack_state_new sample_codecs] by blast
  have k: "\<forall>w \<in> set (middlewares demo_stack). keeps_contract w"
    by (simp add: demo_stack_def stack_push_def stack_new_def layers_keep_contract)
  have "length (run_appended [Request (Propose (entry_new []))]) + 1 < 2 ^ 64"
    "run_appended [Request (Propose (entry_new []))] = run_appended [Remote (entry_new []), Crash 0]"
    by simp_all
  from replicas_converge[OF k i this v be, of sample_codecs] v be show ?thesis by blast
qed

section \<open>Commands that are refused\<close>

lemma command_entry:
  assumes "codecs_ok c"
  shows "\<exists>pl. command_to_bytes c cmd = Inr pl \<and> command_from_bytes c pl = Inr cmd"
proof -
  have cok: "codec_ok (command_codec c)" using assms by (simp add: codecs_ok_def)
  then show ?thesis
    using encode_total[OF cok, of cmd] decode_encode[OF cok]
    by (auto simp: command_to_bytes_def command_from_bytes_def)
qed

text \<open>Once an entry is refused, every call of the interface returns the error.\<close>

lemma refused_calls:
  assumes "codecs_ok c" "engine_inv mvl_rel (table_sem c) be a n" "refused (table_sem c) a n (be_store be) err"
    "Suc (al_tail a) < 2 ^ 64"
  shows "(\<exists>be1. dt_get c (table_engine c) be_store t key be = Some (Inl err, be1)) \<and>
    (\<exists>be2. propose_and_check c (table_engine c) cmd be = Some (Inl err, be2))"
proof -
  have open_log: "\<not> al_sealed a" using assms(2) by (simp add: engine_inv_def vl_rel_def)
  obtain pl where "command_to_bytes c cmd = Inr pl" using command_entry[OF assms(1)] by blast
  moreover obtain be1 where "handle_sync mvl_ops (table_apply c) be = (Inl err, be1)"
    using server.refused_requests(2)[OF assms(2,3)] by blast
  moreover obtain be2 where "handle_propose mvl_ops (table_apply c) (entry_new pl) be = Some (Inl err, be2)"
    using server.refused_requests(1)[OF assms(2,3) open_log assms(4)] by blast
  ultimately show ?thesis by (simp add: dt_get_def propose_and_check_def)
qed

text \<open>C23. A row that the schema cannot key blocks the server for ever: if the primary key of an
  existing table names a column that is not among its columns, a put of a row of the right length
  returns an error after its entry is in the log, and from then on, over any further life of the
  server with crashes and restarts, every get and every command on any table returns that error.\<close>

theorem bad_row_blocks_forever:
  assumes "codecs_ok c" and "server_ok c be a n D" and "D t = Some T"
    and "length (values r) = length (columns (db_schema T))" and "extract_pk (db_schema T) r = Inl err"
    and "al_tail a + length (run_appended es) + 2 < 2 ^ 64"
  shows "\<exists>be1 be2 be3 be4. dt_put c (table_engine c) t r be = Some (Inl err, be1) \<and>
           server_run mvl_ops (table_apply c) () es be1 = Some (Inr (), be2) \<and>
           dt_get c (table_engine c) be_store u key be2 = Some (Inl err, be3) \<and>
           propose_and_check c (table_engine c) cmd be2 = Some (Inl err, be4)"
proof -
  obtain m where m: "replay (table_sem c) 1 (al_entries a) Map.empty = Inr m" "db_rel c m D"
    using server_meaning[OF assms(1,2)] by blast
  obtain pl where pl: "command_to_bytes c (Put t r) = Inr pl" "command_from_bytes c pl = Inr (Put t r)"
    using command_entry[OF assms(1)] by blast
  have "table_sem c (entry_new pl) (of_nat (al_tail a)) m = Inl err"
    using pl(2) assms(3-5) by (simp add: table_sem_def schema_of_rel[OF m(2)])
  from server.propose_refused[OF server_okD(1,5)[OF assms(2)] _ server_okD(2)[OF assms(2)] m(1) this] assms(6)
  obtain be1 where
    b1: "handle_propose mvl_ops (table_apply c) (entry_new pl) be = Some (Inl err, be1)"
      "engine_inv mvl_rel (table_sem c) be1 (al_push (entry_new pl) a) (length (al_entries a))"
      "refused (table_sem c) (al_push (entry_new pl) a) (length (al_entries a)) (be_store be1) err"
    by auto
  let ?a = "(al_push (entry_new pl) a)\<lparr>al_entries := al_entries (al_push (entry_new pl) a) @ run_appended es\<rparr>"
  obtain be2 where
    b2: "server_run mvl_ops (table_apply c) () es be1 = Some (Inr (), be2)"
      "engine_inv mvl_rel (table_sem c) be2 ?a (length (al_entries a))"
      "refused (table_sem c) ?a (length (al_entries a)) (be_store be2) err"
    using server.refused_forever[OF b1(2,3), of es "()"] server_okD(5)[OF assms(2)] assms(6) by auto
  have "Suc (al_tail ?a) < 2 ^ 64" using assms(6) by (simp add: al_tail_def)
  from refused_calls[OF assms(1) b2(2,3) this, of u key cmd] obtain be3 be4 where
    "dt_get c (table_engine c) be_store u key be2 = Some (Inl err, be3)"
    "propose_and_check c (table_engine c) cmd be2 = Some (Inl err, be4)" by blast
  moreover have "dt_put c (table_engine c) t r be = Some (Inl err, be1)"
    using pl(1) b1(1) by (simp add: dt_put_def propose_and_check_def)
  ultimately show ?thesis using b2(1) by blast
qed

definition bad_schema :: table_schema where
  "bad_schema = \<lparr>schema_name = ''t'', columns = [\<lparr>col_name = ''a'', col_type = TInt64, nullable = False\<rparr>],
     primary_key = [''b'']\<rparr>"

theorem bad_row_blocks_forever_witness:
  "\<exists>be be1 be2 be3 err.
     dt_put sample_codecs (table_engine sample_codecs) ''t'' \<lparr>values = [Int64 1]\<rparr> be = Some (Inl err, be1) \<and>
     server_run mvl_ops (table_apply sample_codecs) () [Crash 0, Remote (entry_new []), Request Sync] be1 = Some (Inr (), be2) \<and>
     dt_get sample_codecs (table_engine sample_codecs) be_store ''users'' [Int64 1] be2 = Some (Inl err, be3)"
proof -
  obtain be where be: "server_ok sample_codecs be alog_new 0 Map.empty" using demo_server by blast
  have t0: "al_tail alog_new = 1" by (simp add: al_tail_def alog_new_def)
  let ?D = "[''t'' \<mapsto> \<lparr>db_schema = bad_schema, db_rows = Map.empty\<rparr>]"
  from table_write[OF sample_codecs_ok be, of "CreateTable bad_schema" Ok ?D, unfolded t0] obtain be1 e1 where
    b1: "server_ok sample_codecs be1 (al_push e1 alog_new) 1 ?D"
    by (auto simp: bad_schema_def plain_name_def)
  have T: "?D ''t'' = Some \<lparr>db_schema = bad_schema, db_rows = Map.empty\<rparr>" by simp
  obtain err where "extract_pk bad_schema \<lparr>values = [Int64 1]\<rparr> = Inl err"
    by (simp add: extract_pk_def bad_schema_def)
  with bad_row_blocks_forever[OF sample_codecs_ok b1 T, of "\<lparr>values = [Int64 1]\<rparr>" err
      "[Crash 0, Remote (entry_new []), Request Sync]" "''users''" "[Int64 1]" "DropTable ''t''"] t0
  show ?thesis by (force simp: bad_schema_def)
qed



end
