(* ===== verification/Server.thy ===== *)
theory Server
  imports Server_Life
begin

text \<open>
  The crate \<open>relos-server\<close>: the conversions between protobuf messages and table values and the six
  handlers of the service (\<open>grpc_service.rs\<close>, with the messages of \<open>proto/relos.proto\<close>), the
  configuration (\<open>config.rs\<close>), and the wiring and the demonstration of \<open>main.rs\<close>. A handler takes the
  decoded message and returns the response or a status, together with the state it leaves.
\<close>

section \<open>Messages\<close>

datatype proto_column_type = CUnspecified | CInt64 | CUtf8 | CBytes | CBool | CFloat64

datatype proto_kind =
    IsNull bool | Int64Value "64 word" | StringValue string | BytesValue bytes | BoolValue bool | Float64Value "64 word"

record proto_value =
  kind :: "proto_kind option"

record proto_column_def =
  p_name :: string
  p_column_type :: int
  p_nullable :: bool

record proto_schema =
  ps_name :: string
  ps_columns :: "proto_column_def list"
  ps_primary_key :: "string list"

record proto_row =
  p_values :: "proto_value list"

record get_response =
  found :: bool
  gr_row :: "proto_row option"

datatype status_code = CodeNotFound | CodeInvalidArgument | CodeInternal

record status =
  code :: status_code
  message :: string

text \<open>The numbers of the enumeration, and the conversion that the generated code derives from them.\<close>

fun column_type_number :: "proto_column_type \<Rightarrow> int" where
  "column_type_number CUnspecified = 0" | "column_type_number CInt64 = 1" | "column_type_number CUtf8 = 2"
| "column_type_number CBytes = 3" | "column_type_number CBool = 4" | "column_type_number CFloat64 = 5"

definition column_type_try_from :: "int \<Rightarrow> proto_column_type option" where
  "column_type_try_from ct =
     find (\<lambda>t. column_type_number t = ct) [CUnspecified, CInt64, CUtf8, CBytes, CBool, CFloat64]"

section \<open>Conversions\<close>

definition invalid_argument :: "string \<Rightarrow> status" where
  "invalid_argument m = \<lparr>code = CodeInvalidArgument, message = m\<rparr>"

definition internal_status :: "string \<Rightarrow> status" where
  "internal_status m = \<lparr>code = CodeInternal, message = m\<rparr>"

definition proto_column_type_to_relos :: "int \<Rightarrow> status + column_type" where
  "proto_column_type_to_relos ct =
     (case column_type_try_from ct of
        Some CInt64 \<Rightarrow> Inr TInt64
      | Some CUtf8 \<Rightarrow> Inr TUtf8
      | Some CBytes \<Rightarrow> Inr TBytes
      | Some CBool \<Rightarrow> Inr TBool
      | Some CFloat64 \<Rightarrow> Inr TFloat64
      | _ \<Rightarrow> Inl (invalid_argument ''unspecified or unknown column type''))"

fun relos_column_type_to_proto :: "column_type \<Rightarrow> proto_column_type" where
  "relos_column_type_to_proto TInt64 = CInt64" | "relos_column_type_to_proto TUtf8 = CUtf8"
| "relos_column_type_to_proto TBytes = CBytes" | "relos_column_type_to_proto TBool = CBool"
| "relos_column_type_to_proto TFloat64 = CFloat64"

definition proto_value_to_relos :: "proto_value \<Rightarrow> table_value" where
  "proto_value_to_relos v =
     (case kind v of
        None \<Rightarrow> Null
      | Some (IsNull b) \<Rightarrow> Null
      | Some (Int64Value n) \<Rightarrow> Int64 n
      | Some (StringValue s) \<Rightarrow> Utf8 s
      | Some (BytesValue b) \<Rightarrow> Bytes b
      | Some (BoolValue b) \<Rightarrow> Bool b
      | Some (Float64Value f) \<Rightarrow> Float64 f)"

definition relos_value_to_proto :: "table_value \<Rightarrow> proto_value" where
  "relos_value_to_proto v =
     \<lparr>kind = Some (case v of
        Null \<Rightarrow> IsNull True
      | Int64 n \<Rightarrow> Int64Value n
      | Utf8 s \<Rightarrow> StringValue s
      | Bytes b \<Rightarrow> BytesValue b
      | Bool b \<Rightarrow> BoolValue b
      | Float64 f \<Rightarrow> Float64Value f)\<rparr>"

definition proto_column_def_to_relos :: "proto_column_def \<Rightarrow> status + column_def" where
  "proto_column_def_to_relos cd =
     and_then (proto_column_type_to_relos (p_column_type cd)) (\<lambda>ty.
     Inr \<lparr>col_name = p_name cd, col_type = ty, nullable = p_nullable cd\<rparr>)"

definition relos_column_def_to_proto :: "column_def \<Rightarrow> proto_column_def" where
  "relos_column_def_to_proto cd =
     \<lparr>p_name = col_name cd, p_column_type = column_type_number (relos_column_type_to_proto (col_type cd)),
      p_nullable = nullable cd\<rparr>"

definition proto_schema_to_relos :: "proto_schema \<Rightarrow> status + table_schema" where
  "proto_schema_to_relos s =
     and_then (collect (map proto_column_def_to_relos (ps_columns s))) (\<lambda>cols.
     Inr \<lparr>schema_name = ps_name s, columns = cols, primary_key = ps_primary_key s\<rparr>)"

definition relos_schema_to_proto :: "table_schema \<Rightarrow> proto_schema" where
  "relos_schema_to_proto s =
     \<lparr>ps_name = schema_name s, ps_columns = map relos_column_def_to_proto (columns s),
      ps_primary_key = primary_key s\<rparr>"

definition proto_row_to_relos :: "proto_row \<Rightarrow> row" where
  "proto_row_to_relos r = \<lparr>values = map proto_value_to_relos (p_values r)\<rparr>"

definition relos_row_to_proto :: "row \<Rightarrow> proto_row" where
  "relos_row_to_proto r = \<lparr>p_values = map relos_value_to_proto (values r)\<rparr>"

definition relos_err_to_status :: "relos_error \<Rightarrow> status" where
  "relos_err_to_status e =
     (case e of
        NotFound msg \<Rightarrow> \<lparr>code = CodeNotFound, message = msg\<rparr>
      | InvalidOperation msg \<Rightarrow> invalid_argument msg
      | Serialization msg \<Rightarrow> internal_status (''serialization error: '' @ msg)
      | Store msg \<Rightarrow> internal_status (''store error: '' @ msg)
      | Internal msg \<Rightarrow> internal_status msg
      | other \<Rightarrow> internal_status (display_error other))"

section \<open>Handlers\<close>

text \<open>\<open>?\<close> after \<open>map_err(relos_err_to_status)\<close> on a call of the table.\<close>

definition on_table :: "('a result \<times> 's) option \<Rightarrow> ('a \<Rightarrow> 'b) \<Rightarrow> ((status + 'b) \<times> 's) option" where
  "on_table call f =
     map_option (\<lambda>(r, s). (and_then (map_err relos_err_to_status r) (\<lambda>x. Inr (f x)), s)) call"

definition empty_name_status :: status where
  "empty_name_status = invalid_argument ''table name must not be empty''"

definition grpc_create_table ::
  "table_codecs \<Rightarrow> 's engine_ops \<Rightarrow> proto_schema option \<Rightarrow> 's \<Rightarrow> ((status + unit) \<times> 's) option" where
  "grpc_create_table c engine req_schema s =
     (case and_then (ok_or (invalid_argument ''missing schema'') req_schema) proto_schema_to_relos of
        Inl st \<Rightarrow> Some (Inl st, s)
      | Inr relos_schema \<Rightarrow> on_table (dt_create_table c engine relos_schema s) (\<lambda>_. ()))"

definition grpc_drop_table ::
  "table_codecs \<Rightarrow> 's engine_ops \<Rightarrow> string \<Rightarrow> 's \<Rightarrow> ((status + unit) \<times> 's) option" where
  "grpc_drop_table c engine t s =
     (if t = [] then Some (Inl empty_name_status, s) else on_table (dt_drop_table c engine t s) (\<lambda>_. ()))"

definition grpc_put ::
  "table_codecs \<Rightarrow> 's engine_ops \<Rightarrow> string \<Rightarrow> proto_row option \<Rightarrow> 's \<Rightarrow> ((status + unit) \<times> 's) option" where
  "grpc_put c engine t req_row s =
     (if t = [] then Some (Inl empty_name_status, s)
      else (case ok_or (invalid_argument ''missing row'') req_row of
              Inl st \<Rightarrow> Some (Inl st, s)
            | Inr r \<Rightarrow> on_table (dt_put c engine t (proto_row_to_relos r) s) (\<lambda>_. ())))"

definition grpc_delete ::
  "table_codecs \<Rightarrow> 's engine_ops \<Rightarrow> string \<Rightarrow> proto_value list \<Rightarrow> 's \<Rightarrow> ((status + unit) \<times> 's) option" where
  "grpc_delete c engine t key s =
     (if t = [] then Some (Inl empty_name_status, s)
      else on_table (dt_delete c engine t (map proto_value_to_relos key) s) (\<lambda>_. ()))"

definition grpc_get ::
  "table_codecs \<Rightarrow> 's engine_ops \<Rightarrow> ('s \<Rightarrow> memory_store) \<Rightarrow> string \<Rightarrow> proto_value list \<Rightarrow> 's \<Rightarrow>
   ((status + get_response) \<times> 's) option" where
  "grpc_get c engine store_of t key s =
     (if t = [] then Some (Inl empty_name_status, s)
      else on_table (dt_get c engine store_of t (map proto_value_to_relos key) s) (\<lambda>maybe_row.
        case maybe_row of
          Some r \<Rightarrow> \<lparr>found = True, gr_row = Some (relos_row_to_proto r)\<rparr>
        | None \<Rightarrow> \<lparr>found = False, gr_row = None\<rparr>))"

definition grpc_scan ::
  "table_codecs \<Rightarrow> 's engine_ops \<Rightarrow> ('s \<Rightarrow> memory_store) \<Rightarrow> string \<Rightarrow> 's \<Rightarrow>
   ((status + proto_row list) \<times> 's) option" where
  "grpc_scan c engine store_of t s =
     (if t = [] then Some (Inl empty_name_status, s)
      else on_table (dt_scan c engine store_of t s) (map relos_row_to_proto))"

section \<open>Configuration and wiring\<close>

record server_config =
  listen_addr :: string
  grpc_port :: "16 word"
  node_id :: u64

definition default_config :: server_config where
  "default_config = \<lparr>listen_addr = ''127.0.0.1'', grpc_port = 9000, node_id = 1\<rparr>"

definition grpc_addr :: "server_config \<Rightarrow> string" where
  "grpc_addr cfg = listen_addr cfg @ '':'' @ decimal (unat (grpc_port cfg))"

definition build_server :: "table_server result" where
  "build_server =
     (let store = memory_store_new; initial_chain = chain_new ''memory-0''; meta_store = meta_new initial_chain
      in and_then (vl_new memory_factory meta_store) (\<lambda>log. engine_new log store ()))"

section \<open>The demonstration\<close>

text \<open>Sequencing of calls with \<open>?\<close>: the first error ends the demonstration.\<close>

definition call_then ::
  "('a result \<times> 's) option \<Rightarrow> ('a \<Rightarrow> 's \<Rightarrow> ('b result \<times> 's) option) \<Rightarrow> ('b result \<times> 's) option" where
  "call_then call f =
     (case call of
        None \<Rightarrow> None
      | Some (Inl err, s) \<Rightarrow> Some (Inl err, s)
      | Some (Inr x, s) \<Rightarrow> f x s)"

definition bob :: row where
  "bob = \<lparr>values = [Int64 2, Utf8 ''Bob'', Utf8 ''bob@example.com'']\<rparr>"

text \<open>The result is what the demonstration logs: the row it read, and the two scans.\<close>

definition demo ::
  "table_codecs \<Rightarrow> 's engine_ops \<Rightarrow> ('s \<Rightarrow> memory_store) \<Rightarrow> 's \<Rightarrow>
   ((row option \<times> row list \<times> row list) result \<times> 's) option" where
  "demo c engine store_of s =
     call_then (dt_create_table c engine users_schema s) (\<lambda>_ s.
     call_then (dt_put c engine ''users'' alice s) (\<lambda>_ s.
     call_then (dt_put c engine ''users'' bob s) (\<lambda>_ s.
     call_then (dt_get c engine store_of ''users'' [Int64 1] s) (\<lambda>r s.
     call_then (dt_scan c engine store_of ''users'' s) (\<lambda>all_rows s.
     call_then (dt_delete c engine ''users'' [Int64 2] s) (\<lambda>_ s.
     call_then (dt_scan c engine store_of ''users'' s) (\<lambda>rest s.
     Some (Inr (r, all_rows, rest), s))))))))"

section \<open>Properties\<close>

lemma value_round_trip [simp]: "proto_value_to_relos (relos_value_to_proto v) = v"
  by (cases v) (simp_all add: proto_value_to_relos_def relos_value_to_proto_def)

lemma column_type_round_trip [simp]:
  "proto_column_type_to_relos (column_type_number (relos_column_type_to_proto ty)) = Inr ty"
  by (cases ty) (simp_all add: proto_column_type_to_relos_def column_type_try_from_def)

lemma column_def_round_trip [simp]: "proto_column_def_to_relos (relos_column_def_to_proto cd) = Inr cd"
  by (simp add: proto_column_def_to_relos_def relos_column_def_to_proto_def)

text \<open>C38. Nothing is lost on the wire: every row, with every kind of value, and every schema converts to
  protobuf and back to itself.\<close>

theorem proto_round_trip:
  "proto_row_to_relos (relos_row_to_proto r) = r \<and> proto_schema_to_relos (relos_schema_to_proto s) = Inr s"
proof -
  have "collect (map proto_column_def_to_relos (map relos_column_def_to_proto (columns s))) = Inr (columns s)"
    by (simp add: collect_eq_Inr comp_def)
  then show ?thesis
    by (simp add: proto_row_to_relos_def relos_row_to_proto_def proto_schema_to_relos_def relos_schema_to_proto_def comp_def)
qed

text \<open>C37. The service stores what it is sent: after a successful put of a row, a get with the key values
  of that row finds it and returns the same values, a missing kind and either null flag being
  returned as null.\<close>

theorem grpc_put_then_get:
  assumes "codecs_ok c" and "server_ok c be a n D" and "D t = Some T" and "t \<noteq> []"
    and "length (p_values r) = length (columns (db_schema T))"
    and "extract_pk (db_schema T) (proto_row_to_relos r) = Inr (map proto_value_to_relos key)"
    and "Suc (al_tail a) < 2 ^ 64"
  shows "\<exists>be1 be2. grpc_put c (table_engine c) t (Some r) be = Some (Inr (), be1) \<and>
           grpc_get c (table_engine c) be_store t key be1 =
             Some (Inr \<lparr>found = True, gr_row = Some (relos_row_to_proto (proto_row_to_relos r))\<rparr>, be2)"
proof -
  have "\<exists>m. db_rel c m D" using server_meaning[OF assms(1,2)] by blast
  then have plain: "plain_name t" using db_relD(2) assms(3) by fastforce
  define D' where "D' = D(t \<mapsto> T\<lparr>db_rows := (db_rows T)(map proto_value_to_relos key \<mapsto> proto_row_to_relos r)\<rparr>)"
  have "db_apply (Put t (proto_row_to_relos r)) D = Inr (Ok, D')"
    using assms(3,5,6) by (simp add: D'_def) (simp add: proto_row_to_relos_def)
  from table_write[OF assms(1,2) _ assms(7) this] plain obtain be1 en where
    w: "propose_and_check c (table_engine c) (Put t (proto_row_to_relos r)) be = Some (Inr (), be1)"
      "server_ok c be1 (al_push en a) (al_tail a) D'" by auto
  from table_read[OF assms(1) w(2) plain, of "map proto_value_to_relos key"] obtain be2 where
    "dt_get c (table_engine c) be_store t (map proto_value_to_relos key) be1 = Some (Inr (Some (proto_row_to_relos r)), be2)"
    by (auto simp: db_row_def D'_def)
  with w(1) assms(4) show ?thesis
    by (simp add: grpc_put_def grpc_get_def on_table_def dt_put_def)
qed

theorem grpc_put_then_get_witness:
  "\<exists>be be1 be2. grpc_put sample_codecs (table_engine sample_codecs) ''users'' (Some (relos_row_to_proto alice)) be =
       Some (Inr (), be1) \<and>
     grpc_get sample_codecs (table_engine sample_codecs) be_store ''users'' [\<lparr>kind = Some (Int64Value 1)\<rparr>] be1 =
       Some (Inr \<lparr>found = True, gr_row = Some (relos_row_to_proto alice)\<rparr>, be2)"
proof -
  obtain be a where be: "server_ok sample_codecs be a 2 demo_db" "al_tail a = 3" using demo_server_row by blast
  have T: "demo_db ''users'' = Some \<lparr>db_schema = users_schema, db_rows = [[Int64 1] \<mapsto> alice]\<rparr>" by (simp add: demo_db_def)
  have r: "proto_row_to_relos (relos_row_to_proto alice) = alice"
    by (simp add: proto_row_to_relos_def relos_row_to_proto_def comp_def)
  have k: "map proto_value_to_relos [\<lparr>kind = Some (Int64Value 1)\<rparr>] = [Int64 1]" by (simp add: proto_value_to_relos_def)
  have "length (p_values (relos_row_to_proto alice)) = length (columns users_schema)"
    by (simp add: relos_row_to_proto_def alice_def users_schema_def)
  then show ?thesis
    using grpc_put_then_get[OF sample_codecs_ok be(1) T, of "relos_row_to_proto alice" "[\<lparr>kind = Some (Int64Value 1)\<rparr>]"]
      r k alice_pk be(2) by (auto simp del: list.map)
qed

text \<open>A missing table is reported to the client: a drop, a put and a delete on a table that the
  database does not have return the status of an invalid argument, with the table's message.\<close>

theorem grpc_reports_table_error:
  assumes "codecs_ok c" and "server_ok c be a n D" and "plain_name t" and "t \<noteq> []" and "D t = None"
    and "Suc (al_tail a) < 2 ^ 64"
  shows "\<exists>st be1 be2 be3. st = invalid_argument (''table '' @ [CHR 0x27] @ t @ [CHR 0x27] @ '' does not exist'') \<and>
           grpc_drop_table c (table_engine c) t be = Some (Inl st, be1) \<and>
           grpc_put c (table_engine c) t (Some r) be = Some (Inl st, be2) \<and>
           grpc_delete c (table_engine c) t key be = Some (Inl st, be3)"
proof -
  have "\<exists>be'. propose_and_check c (table_engine c) cmd be =
      Some (Inl (InvalidOperation (''table '' @ [CHR 0x27] @ t @ [CHR 0x27] @ '' does not exist'')), be')"
    if "db_apply cmd D = Inr (no_table_error t, D)" "command_table cmd = t" for cmd
    using table_write[OF assms(1,2) _ assms(6) that(1)] that(2) assms(3) by (auto simp: no_table_error_def)
  from this[of "DropTable t"] this[of "Put t (proto_row_to_relos r)"] this[of "Delete t (map proto_value_to_relos key)"]
  show ?thesis
    using assms(4,5)
    by (auto simp: grpc_drop_table_def grpc_put_def grpc_delete_def on_table_def dt_drop_table_def dt_put_def
      dt_delete_def relos_err_to_status_def)
qed

theorem grpc_reports_table_error_witness:
  "\<exists>be be1. server_ok sample_codecs be alog_new 0 Map.empty \<and>
     grpc_drop_table sample_codecs (table_engine sample_codecs) ''x'' be =
       Some (Inl (invalid_argument (''table '' @ [CHR 0x27] @ ''x'' @ [CHR 0x27] @ '' does not exist'')), be1)"
proof -
  obtain be where be: "server_ok sample_codecs be alog_new 0 Map.empty" using demo_server by blast
  have "plain_name ''x''" "Suc (al_tail alog_new) < 2 ^ 64" by (simp_all add: plain_name_def al_tail_def alog_new_def)
  with grpc_reports_table_error[OF sample_codecs_ok be, of "''x''" "relos_row_to_proto alice" "[]"] be
  show ?thesis by auto
qed

text \<open>A table with the empty name can be created but not used: unlike the other handlers,
  \<open>create_table\<close> does not check the name, and after it succeeds with an empty name every other
  handler refuses that table without consulting the database.\<close>

theorem empty_name_created_not_usable:
  assumes "codecs_ok c" and "server_ok c be a n D" and "D [] = None" and "Suc (al_tail a) < 2 ^ 64"
    and "proto_schema_to_relos sc = Inr schema" and "ps_name sc = []"
  shows "\<exists>be'. grpc_create_table c (table_engine c) (Some sc) be = Some (Inr (), be') \<and>
           grpc_drop_table c (table_engine c) [] be' = Some (Inl empty_name_status, be') \<and>
           grpc_put c (table_engine c) [] r be' = Some (Inl empty_name_status, be') \<and>
           grpc_get c (table_engine c) be_store [] key be' = Some (Inl empty_name_status, be')"
proof -
  have "schema_name schema = []"
    using assms(5,6) by (auto simp: proto_schema_to_relos_def and_then_eq_Inr)
  then have "db_apply (CreateTable schema) D = Inr (Ok, D([] \<mapsto> \<lparr>db_schema = schema, db_rows = Map.empty\<rparr>))"
    "plain_name (command_table (CreateTable schema))"
    using assms(3) by (simp_all add: plain_name_def)
  with table_write[OF assms(1,2) _ assms(4)] obtain be' where
    "propose_and_check c (table_engine c) (CreateTable schema) be = Some (Inr (), be')" by fastforce
  with assms(5) show ?thesis
    by (simp add: grpc_create_table_def grpc_drop_table_def grpc_put_def grpc_get_def on_table_def dt_create_table_def)
qed

theorem empty_name_created_not_usable_witness:
  "\<exists>be be'. server_ok sample_codecs be alog_new 0 Map.empty \<and>
     grpc_create_table sample_codecs (table_engine sample_codecs)
       (Some \<lparr>ps_name = [], ps_columns = [], ps_primary_key = []\<rparr>) be = Some (Inr (), be') \<and>
     grpc_drop_table sample_codecs (table_engine sample_codecs) [] be' = Some (Inl empty_name_status, be')"
proof -
  obtain be where be: "server_ok sample_codecs be alog_new 0 Map.empty" using demo_server by blast
  have "Suc (al_tail alog_new) < 2 ^ 64" by (simp add: al_tail_def alog_new_def)
  moreover have "proto_schema_to_relos \<lparr>ps_name = [], ps_columns = [], ps_primary_key = []\<rparr> =
      Inr \<lparr>schema_name = [], columns = [], primary_key = []\<rparr>"
    by (simp add: proto_schema_to_relos_def)
  ultimately show ?thesis
    using empty_name_created_not_usable[OF sample_codecs_ok be _ _ _ _, of _ _ None "[]"] be by fastforce
qed

lemma build_server_ok: "\<exists>be. build_server = Inr be \<and> server_ok c be alog_new 0 Map.empty"
proof -
  have i: "\<forall>k \<ge> 1. ''memory-0'' \<noteq> loglet_name k" using loglet_name_not_memory by metis
  obtain v where v: "vl_new memory_factory (meta_new (chain_new ''memory-0'')) = Inr v"
    using mvl.vl_new_spec[OF i] by blast
  from fresh_server_ok[OF v i, of c] v show ?thesis by (auto simp: build_server_def Let_def)
qed

lemma bob_pk: "extract_pk users_schema bob = Inr [Int64 2]"
  by (simp add: extract_pk_def users_schema_def bob_def)

definition users_db :: "(table_value list \<rightharpoonup> row) \<Rightarrow> database" where
  "users_db rows = [''users'' \<mapsto> \<lparr>db_schema = users_schema, db_rows = rows\<rparr>]"

lemma users_db_apply:
  "db_apply (CreateTable users_schema) Map.empty = Inr (Ok, users_db Map.empty)"
  "db_apply (Put ''users'' alice) (users_db m) = Inr (Ok, users_db (m([Int64 1] \<mapsto> alice)))"
  "db_apply (Put ''users'' bob) (users_db m) = Inr (Ok, users_db (m([Int64 2] \<mapsto> bob)))"
  "db_apply (Delete ''users'' k) (users_db m) = Inr (Ok, users_db (m(k := None)))"
  "db_row (users_db m) ''users'' = m"
  using alice_pk bob_pk
  by (simp_all add: users_db_def fun_eq_iff db_row_def)
   (simp_all add: users_schema_def alice_def bob_def)

text \<open>One write of the demonstration.\<close>

lemma demo_write:
  assumes "codecs_ok c" "server_ok c be a n D" "command_table cmd = ''users''" "Suc (al_tail a) < 2 ^ 64"
    "db_apply cmd D = Inr (Ok, D')"
  shows "\<exists>be' a' n'. propose_and_check c (table_engine c) cmd be = Some (Inr (), be') \<and>
     server_ok c be' a' n' D' \<and> al_tail a' = Suc (al_tail a)"
proof -
  have "plain_name (command_table cmd)" using assms(3) by simp
  from table_write[OF assms(1,2) this assms(4,5)] obtain be' en where
    "propose_and_check c (table_engine c) cmd be = Some (Inr (), be')" "server_ok c be' (al_push en a) (al_tail a) D'"
    by auto
  then show ?thesis by (intro exI[of _ be'] exI[of _ "al_push en a"]) auto
qed

definition both_rows :: "table_value list \<rightharpoonup> row" where
  "both_rows = [[Int64 1] \<mapsto> alice, [Int64 2] \<mapsto> bob]"

lemma both_rows_facts:
  "both_rows [Int64 1] = Some alice" "both_rows [Int64 2] = Some bob" "{k. both_rows k \<noteq> None} = {[Int64 1], [Int64 2]}"
  "both_rows([Int64 2] := None) = [[Int64 1] \<mapsto> alice]"
  by (auto simp: both_rows_def fun_eq_iff split: if_splits)

text \<open>One scan of the demonstration.\<close>

lemma demo_scan:
  assumes "codecs_ok c" "server_ok c be a n (users_db m)"
  shows "\<exists>ks be'. dt_scan c (table_engine c) be_store ''users'' be = Some (Inr (map (\<lambda>k. the (m k)) ks), be') \<and>
     distinct ks \<and> set ks = {k. m k \<noteq> None} \<and> server_ok c be' a (length (al_entries a)) (users_db m)"
  using table_scan[OF assms plain_users] unfolding users_db_apply(5) .

text \<open>The server starts and the demonstration runs as it says: the wiring of \<open>main\<close> gives a server
  with an empty database, and on it the demonstration completes without error, reads Alice's row
  back, scans exactly the two rows it put, and after the delete scans Alice's row only.\<close>

theorem demo_runs:
  assumes "codecs_ok c"
  shows "\<exists>be be' rows. build_server = Inr be \<and>
           demo c (table_engine c) be_store be = Some (Inr (Some alice, rows, [alice]), be') \<and>
           set rows = {alice, bob} \<and> length rows = 2"
proof -
  obtain be0 where b0: "build_server = Inr be0" "server_ok c be0 alog_new 0 Map.empty"
    using build_server_ok by blast
  have t0: "al_tail alog_new = 1" by (simp add: al_tail_def alog_new_def)
  from demo_write[OF assms b0(2) _ _ users_db_apply(1)] t0 obtain be1 a1 n1 where
    b1: "dt_create_table c (table_engine c) users_schema be0 = Some (Inr (), be1)"
      "server_ok c be1 a1 n1 (users_db Map.empty)" "al_tail a1 = 2"
    by (auto simp: dt_create_table_def users_schema_def)
  from demo_write[OF assms b1(2) _ _ users_db_apply(2)] b1(3) obtain be2 a2 n2 where
    b2: "dt_put c (table_engine c) ''users'' alice be1 = Some (Inr (), be2)"
      "server_ok c be2 a2 n2 (users_db [[Int64 1] \<mapsto> alice])" "al_tail a2 = 3"
    by (auto simp: dt_put_def)
  from demo_write[OF assms b2(2) _ _ users_db_apply(3)] b2(3) obtain be3 a3 n3 where
    b3: "dt_put c (table_engine c) ''users'' bob be2 = Some (Inr (), be3)"
      "server_ok c be3 a3 n3 (users_db both_rows)" "al_tail a3 = 4"
    by (auto simp: dt_put_def both_rows_def)
  obtain be4 n4 where
    b4: "dt_get c (table_engine c) be_store ''users'' [Int64 1] be3 = Some (Inr (Some alice), be4)"
      "server_ok c be4 a3 n4 (users_db both_rows)"
    using table_read[OF assms b3(2) plain_users, of "[Int64 1]"] unfolding users_db_apply(5) both_rows_facts by blast
  obtain ks be5 n5 where
    b5: "dt_scan c (table_engine c) be_store ''users'' be4 = Some (Inr (map (\<lambda>k. the (both_rows k)) ks), be5)"
      "distinct ks" "set ks = {[Int64 1], [Int64 2]}" "server_ok c be5 a3 n5 (users_db both_rows)"
    using demo_scan[OF assms b4(2)] unfolding both_rows_facts by blast
  from demo_write[OF assms b5(4) _ _ users_db_apply(4)[of "[Int64 2]", unfolded both_rows_facts]] b3(3) obtain be6 a6 n6 where
    b6: "dt_delete c (table_engine c) ''users'' [Int64 2] be5 = Some (Inr (), be6)"
      "server_ok c be6 a6 n6 (users_db [[Int64 1] \<mapsto> alice])"
    by (auto simp: dt_delete_def both_rows_facts)
  obtain ks' be7 where
    b7: "dt_scan c (table_engine c) be_store ''users'' be6 = Some (Inr (map (\<lambda>k. the (([[Int64 1] \<mapsto> alice]) k)) ks'), be7)"
      "distinct ks'" "set ks' = {k. ([[Int64 1] \<mapsto> alice]) k \<noteq> None}"
    using demo_scan[OF assms b6(2)] by blast
  have "set ks' = {[Int64 1]}" using b7(3) by (auto split: if_splits)
  then have "ks' = [[Int64 1]]" using b7(2) by (cases ks'; cases "tl ks'") auto
  then have "demo c (table_engine c) be_store be0 =
      Some (Inr (Some alice, map (\<lambda>k. the (both_rows k)) ks, [alice]), be7)"
    using b1(1) b2(1) b3(1) b4(1) b5(1) b6(1) b7(1) by (simp add: demo_def call_then_def)
  moreover have "length (map (\<lambda>k. the (both_rows k)) ks) = 2" using distinct_card[OF b5(2)] b5(3) by simp
  moreover have "set (map (\<lambda>k. the (both_rows k)) ks) = {alice, bob}" using b5(3) by (simp add: both_rows_facts)
  ultimately show ?thesis using b0(1) by blast
qed

theorem demo_runs_witness:
  "\<exists>be be' rows. build_server = Inr be \<and>
     demo sample_codecs (table_engine sample_codecs) be_store be = Some (Inr (Some alice, rows, [alice]), be') \<and>
     set rows = {alice, bob} \<and> length rows = 2"
  by (rule demo_runs[OF sample_codecs_ok])

end
