(* ===== verification/Server_Main.thy ===== *)
theory Server_Main
  imports Server "HOL-Library.Monad_Syntax"
begin

text \<open>
  The function \<open>main\<close> of \<open>relos-server/src/main.rs\<close>: the command line, the two modes of the program, and
  the address the service listens on. \<open>tonic\<close>, which serves the requests, is the parameter \<open>serve\<close>: it
  takes the address and the table of the service and gives a transport error or returns. What the service
  does with a request is in \<open>Server\<close>.
\<close>

section \<open>Socket addresses\<close>

text \<open>\<open>str::parse\<close> for a \<open>SocketAddr\<close>, in the form \<open>a.b.c.d:port\<close> of the configuration: octets
  without leading zeros, a port with any number of digits, and nothing after it. The standard library tries
  this form first, and the IPv6 form, which \<open>ServerConfig::default\<close> never has, after it.\<close>

datatype socket_addr = SocketAddrV4 "8 word list" "16 word"

definition is_digit :: "char \<Rightarrow> bool" where
  "is_digit ch \<longleftrightarrow> 48 \<le> (of_char ch :: nat) \<and> (of_char ch :: nat) \<le> 57"

definition number_value :: "string \<Rightarrow> nat" where
  "number_value ds = foldl (\<lambda>n ch. 10 * n + (of_char ch - 48)) 0 ds"

definition read_number :: "nat option \<Rightarrow> bool \<Rightarrow> nat \<Rightarrow> string \<Rightarrow> (nat \<times> string) option" where
  "read_number max_digits allow_zero_prefix limit s =
     (let ds = takeWhile is_digit s
      in if ds = [] \<or> (case max_digits of Some m \<Rightarrow> m < length ds | None \<Rightarrow> False) \<or>
            \<not> allow_zero_prefix \<and> 1 < length ds \<and> hd ds = CHR ''0'' \<or> limit \<le> number_value ds
         then None else Some (number_value ds, dropWhile is_digit s))"

definition read_given_char :: "char \<Rightarrow> string \<Rightarrow> string option" where
  "read_given_char ch s = (if s \<noteq> [] \<and> hd s = ch then Some (tl s) else None)"

fun read_octets :: "nat \<Rightarrow> string \<Rightarrow> (8 word list \<times> string) option" where
  "read_octets 0 s = Some ([], s)"
| "read_octets (Suc n) s = do {
     (o1, s1) \<leftarrow> read_number (Some 3) False 256 s;
     s2 \<leftarrow> (if n = 0 then Some s1 else read_given_char CHR ''.'' s1);
     (os, s3) \<leftarrow> read_octets n s2;
     Some (of_nat o1 # os, s3)
   }"

definition parse_socket_addr :: "string \<Rightarrow> socket_addr option" where
  "parse_socket_addr s = do {
     (os, s1) \<leftarrow> read_octets 4 s;
     s2 \<leftarrow> read_given_char CHR '':'' s1;
     (port, s3) \<leftarrow> read_number None True 65536 s2;
     (if s3 = [] then Some (SocketAddrV4 os (of_nat port)) else None)
   }"

section \<open>The program\<close>

datatype 'e main_error = RelosErr relos_error | AddrParseError | TransportError 'e

definition server_main ::
  "table_codecs \<Rightarrow> (socket_addr \<Rightarrow> table_server \<Rightarrow> 'e + unit) \<Rightarrow> string list \<Rightarrow> ('e main_error + unit) option" where
  "server_main c serve args =
     (let config = default_config; demo_mode = list_ex (\<lambda>a. a = ''--demo'') args
      in case build_server of
           Inl err \<Rightarrow> Some (Inl (RelosErr err))
         | Inr table \<Rightarrow>
             (if demo_mode then
                (case demo c (table_engine c) be_store table of
                   None \<Rightarrow> None
                 | Some (Inl err, _) \<Rightarrow> Some (Inl (RelosErr err))
                 | Some (Inr _, _) \<Rightarrow> Some (Inr ()))
              else
                (case parse_socket_addr (grpc_addr config) of
                   None \<Rightarrow> Some (Inl AddrParseError)
                 | Some addr \<Rightarrow> (case serve addr table of Inl err \<Rightarrow> Some (Inl (TransportError err)) | Inr _ \<Rightarrow> Some (Inr ())))))"

section \<open>Reading back a rendered address\<close>

lemma digit_char_digit: "d < 10 \<Longrightarrow> is_digit (digit_char d) \<and> of_char (digit_char d) - 48 = d"
  by (auto simp: is_digit_def digit_char_def of_char_of take_bit_eq_mod)

lemma decimal_digits: "ch \<in> set (decimal n) \<Longrightarrow> is_digit ch"
proof (induction n rule: less_induct)
  case (less n)
  then show ?case using less.IH[of "n div 10"] by (cases "n < 10") (auto simp: decimal_small decimal_large digit_char_digit)
qed

lemma number_value_decimal [simp]: "number_value (decimal n) = n"
proof (induction n rule: less_induct)
  case (less n)
  then show ?case
    by (cases "n < 10") (simp_all add: decimal_small decimal_large number_value_def digit_char_digit)
qed

lemma digit_char_zero: "digit_char 0 = CHR ''0''"
  by code_simp

lemma decimal_no_zero: "0 < n \<Longrightarrow> hd (decimal n) \<noteq> CHR ''0''"
proof (induction n rule: less_induct)
  case (less n)
  have "digit_char n \<noteq> CHR ''0''" if "n < 10"
    using that less.prems digit_char_inject[of n 0] digit_char_zero by simp
  moreover have "hd (decimal (n div 10)) \<noteq> CHR ''0''" if "\<not> n < 10" using less.IH[of "n div 10"] that by simp
  ultimately show ?case by (cases "n < 10") (simp_all add: decimal_small decimal_large)
qed

lemma decimal_octet: "n < 256 \<Longrightarrow> length (decimal n) \<le> 3"
  by (cases "n < 10"; cases "n < 100") (simp_all add: decimal_small decimal_large)

lemma takeWhile_decimal:
  assumes "r = [] \<or> \<not> is_digit (hd r)"
  shows "takeWhile is_digit (decimal n @ r) = decimal n" "dropWhile is_digit (decimal n @ r) = r"
  using assms decimal_digits by (cases r; auto simp: takeWhile_append dropWhile_append)+

lemma read_number_decimal:
  assumes "r = [] \<or> \<not> is_digit (hd r)" and "n < limit" and "\<And>k. m = Some k \<Longrightarrow> length (decimal n) \<le> k"
  shows "read_number m z limit (decimal n @ r) = Some (n, r)"
proof -
  have "hd (decimal n) \<noteq> CHR ''0''" if "1 < length (decimal n)"
    using that decimal_no_zero[of n] by (cases n) (auto simp: decimal_small)
  then show ?thesis
    using assms(2,3) by (cases m) (auto simp: read_number_def takeWhile_decimal[OF assms(1)] Let_def)
qed

fun dotted :: "8 word list \<Rightarrow> string" where
  "dotted [] = []"
| "dotted [w] = decimal (unat w)"
| "dotted (w # ws) = decimal (unat w) @ ''.'' @ dotted ws"

lemma no_digits: "\<not> is_digit CHR ''.''" "\<not> is_digit CHR '':''" by (simp_all add: is_digit_def)

lemma read_octets_next:
  assumes "read_number (Some 3) False 256 s = Some (o1, CHR ''.'' # s2)" "read_octets (Suc n) s2 = Some (os, s3)"
  shows "read_octets (Suc (Suc n)) s = Some (of_nat o1 # os, s3)"
  by (subst read_octets.simps(2)) (simp add: assms read_given_char_def del: read_octets.simps)

lemma read_octets_dotted:
  assumes "ws \<noteq> []"
  shows "read_octets (length ws) (dotted ws @ '':'' @ r) = Some (ws, '':'' @ r)"
  using assms
proof (induction ws rule: dotted.induct)
  case (2 w)
  have "unat w < 256" using unsigned_less[of w] by simp
  then show ?case using read_number_decimal[of "'':'' @ r" "unat w" 256 "Some 3" False] decimal_octet[of "unat w"]
    by (simp add: no_digits)
next
  case (3 w w' ws)
  have "unat w < 256" using unsigned_less[of w] by simp
  then show ?case
    using 3 read_octets_next[OF read_number_decimal[of "''.'' @ dotted (w' # ws) @ '':'' @ r" "unat w" 256 "Some 3" False, simplified]]
      decimal_octet[of "unat w"]
    by (simp add: no_digits del: read_octets.simps)
qed simp

lemma grpc_addr_parses:
  assumes "listen_addr cfg = dotted ws" "length ws = 4"
  shows "parse_socket_addr (grpc_addr cfg) = Some (SocketAddrV4 ws (grpc_port cfg))"
proof -
  have "ws \<noteq> []" using assms(2) by auto
  moreover have "unat (grpc_port cfg) < 65536" using unsigned_less[of "grpc_port cfg"] by simp
  ultimately show ?thesis
    using read_octets_dotted[of ws "decimal (unat (grpc_port cfg))"] assms
      read_number_decimal[of "[]" "unat (grpc_port cfg)" 65536 None True]
    by (simp add: parse_socket_addr_def grpc_addr_def read_given_char_def)
qed

lemma default_addr: "parse_socket_addr (grpc_addr default_config) = Some (SocketAddrV4 [127, 0, 0, 1] 9000)"
proof -
  have "listen_addr default_config = dotted [127, 0, 0, 1]"
    by code_simp
  from grpc_addr_parses[OF this] show ?thesis by (simp add: default_config_def)
qed

section \<open>Properties\<close>

text \<open>C36. The program runs: with \<open>--demo\<close> on the command line \<open>main\<close> completes without error, the demonstration
  having read Alice's row back, scanned exactly the two rows it put and, after the delete, Alice's row only;
  without it \<open>main\<close> serves an empty database at 127.0.0.1:9000 and ends only as the transport ends.\<close>

theorem main_runs:
  assumes "codecs_ok c"
  shows "\<exists>be be' rows. build_server = Inr be \<and> server_ok c be alog_new 0 Map.empty \<and>
    demo c (table_engine c) be_store be = Some (Inr (Some alice, rows, [alice]), be') \<and> set rows = {alice, bob} \<and> length rows = 2 \<and>
    server_main c serve args =
      (if ''--demo'' \<in> set args then Some (Inr ())
       else Some (map_sum TransportError id (serve (SocketAddrV4 [127, 0, 0, 1] 9000) be)))"
proof -
  obtain be be' rows where b: "build_server = Inr be"
    "demo c (table_engine c) be_store be = Some (Inr (Some alice, rows, [alice]), be')" "set rows = {alice, bob}" "length rows = 2"
    using demo_runs[OF assms] by blast
  have "server_ok c be alog_new 0 Map.empty" using build_server_ok[of c] b(1) by (metis Inr_inject)
  moreover have "list_ex (\<lambda>a. a = ''--demo'') args \<longleftrightarrow> ''--demo'' \<in> set args" by (auto simp: list_ex_iff)
  ultimately have "server_main c serve args =
      (if ''--demo'' \<in> set args then Some (Inr ())
       else Some (map_sum TransportError id (serve (SocketAddrV4 [127, 0, 0, 1] 9000) be)))"
    unfolding server_main_def Let_def b(1)
    using b(2) by (cases "serve (SocketAddrV4 [127, 0, 0, 1] 9000) be") (simp_all add: default_addr)
  with b \<open>server_ok c be alog_new 0 Map.empty\<close> show ?thesis by blast
qed

theorem main_runs_witness:
  "\<exists>be be' rows. build_server = Inr be \<and>
     demo sample_codecs (table_engine sample_codecs) be_store be = Some (Inr (Some alice, rows, [alice]), be') \<and>
     server_main sample_codecs (\<lambda>addr table. Inl addr) [''relos-server''] = Some (Inl (TransportError (SocketAddrV4 [127, 0, 0, 1] 9000))) \<and>
     server_main sample_codecs (\<lambda>addr table. Inl addr) [''relos-server'', ''--demo''] = Some (Inr ())"
  using main_runs[OF sample_codecs_ok, of "\<lambda>addr table. Inl addr" "[''relos-server'']"]
    main_runs[OF sample_codecs_ok, of "\<lambda>addr table. Inl addr" "[''relos-server'', ''--demo'']"] by auto

end
