(* ===== verification/Layer_Properties.thy ===== *)
theory Layer_Properties
  imports Replicated_Table
begin

text \<open>
  The properties of the three layers and of the stack builder: what batching preserves and what it
  does to results, what the view map records, that observing changes nothing, and in which order a
  stack composes its layers.
\<close>

section \<open>Batching\<close>

lemma flush_loop_closed:
  assumes "flush_loop c d max_batch (is @ [Closed]) (p0, s0) = Some (reps, pending, s')" "Closed \<notin> set is"
  shows "\<exists>r1 p1 s1 r2. flush_loop c d max_batch is (p0, s0) = Some (r1, p1, s1) \<and>
      flush_step c d max_batch Closed (p1, s1) = Some (r2, pending, s') \<and> reps = r1 @ r2"
  using assms
proof (induction "is" arbitrary: p0 s0 reps)
  case Nil
  then show ?case by (auto simp del: flush_step.simps split: option.splits)
next
  case (Cons i "is")
  from Cons.prems obtain q p1 s1 rest where
    "flush_step c d max_batch i (p0, s0) = Some (q, p1, s1)"
    "flush_loop c d max_batch (is @ [Closed]) (p1, s1) = Some (rest, pending, s')" "reps = q @ rest"
    by (auto simp del: flush_step.simps split: option.splits)
  with Cons.IH[of p1 s1 rest] Cons.prems(2) show ?case by (auto simp del: flush_step.simps)
qed


text \<open>C24. A batch means its proposals: the entry that a flush proposes downstream, when it is
  applied, has exactly the effect of applying the pending payloads one after the other in the order
  they were submitted, and every caller of the batch is answered with the one result of the
  downstream proposal.\<close>

theorem batch_applies_payloads:
  assumes "codec_ok (meta_codec c)" and "codec_ok (payloads_codec c)" and "pending \<noteq> []"
    and "length pending < 2 ^ 64"
  shows "\<exists>en. flush_batch c d pending s =
             map_option (\<lambda>(r, s'). (reply_all pending r, s')) (eng_propose d en s) \<and>
           batching_apply c inner en pos txn x = apply_payloads inner pos (map pp_payload pending) Success txn x"
proof -
  obtain bp where bp: "encode (payloads_codec c) (map pp_payload pending) = Inr bp"
    using encode_total[OF assms(2)] ..
  obtain hb where hb: "encode (meta_codec c) \<lparr>batch_count = of_nat (length pending)\<rparr> = Inr hb"
    using encode_total[OF assms(1)] ..
  let ?en = "with_header (entry_new bp) BATCHING_HEADER hb"
  have "flush_batch c d pending s = map_option (\<lambda>(r, s'). (reply_all pending r, s')) (eng_propose d ?en s)"
    using assms(3) bp hb by (auto simp: flush_batch_def split: option.splits)
  moreover have "batching_apply c inner ?en pos txn x = apply_payloads inner pos (map pp_payload pending) Success txn x"
    using decode_encode[OF assms(1) hb] decode_encode[OF assms(2) bp] unat_of_nat_pos[OF assms(4)]
    by (simp add: batching_apply_def)
  ultimately show ?thesis by blast
qed

theorem batch_applies_payloads_witness:
  "\<exists>en. batching_apply sample_batch_codecs (table_apply sample_codecs) en 5
      \<lparr>working = [], committed = False\<rparr> () =
      apply_payloads (table_apply sample_codecs) 5 [[1], [2]] Success \<lparr>working = [], committed = False\<rparr> ()"
proof -
  let ?p = "[\<lparr>pp_payload = [1], pp_result_tx = 0\<rparr>, \<lparr>pp_payload = [2], pp_result_tx = 1\<rparr>]"
  have "?p \<noteq> []" "length ?p < 2 ^ 64" by simp_all
  from batch_applies_payloads[OF sample_batch_codecs_ok this, where d = "undefined :: unit engine_ops" and s = "()"
      and inner = "table_apply sample_codecs" and pos = 5 and txn = "\<lparr>working = [], committed = False\<rparr>" and x = "()"]
  show ?thesis by auto
qed

text \<open>C25. No request is lost, answered twice or reordered by the flush loop: when the channel closes
  after any sequence of proposals, synchronisations and timeouts, the replies are exactly the
  requests received, in order, and nothing is left pending; and before it closes fewer proposals
  than the batch limit are pending.\<close>

theorem every_request_answered:
  assumes "flush_loop c d max_batch (is @ [Closed]) ([], s) = Some (reps, pending, s')"
    and "Closed \<notin> set is" and "0 < max_batch"
  shows "map reply_tx reps = concat (map input_tx is) \<and> pending = [] \<and>
         (\<exists>reps1 pending1 s1. flush_loop c d max_batch is ([], s) = Some (reps1, pending1, s1) \<and>
            length pending1 < max_batch)"
proof -
  from flush_loop_closed[OF assms(1,2)] obtain r1 p1 s1 r2 where
    r: "flush_loop c d max_batch is ([], s) = Some (r1, p1, s1)"
      "flush_step c d max_batch Closed (p1, s1) = Some (r2, pending, s')" "reps = r1 @ r2"
    by blast
  have "pending = []" using r(2) by auto
  moreover have "map reply_tx r1 @ map pp_result_tx p1 = concat (map input_tx is)"
    using flush_loop_replies[OF r(1) assms(2)] by simp
  moreover have "map reply_tx r2 = map pp_result_tx p1"
    using flush_step_replies[OF r(2)] \<open>pending = []\<close> by simp
  ultimately show ?thesis using r(1,3) flush_loop_pending[OF r(1) _ assms(2)] assms(3) by simp
qed

definition counting_engine :: "nat engine_ops" where
  "counting_engine = \<lparr>eng_propose = (\<lambda>en n. Some (Inr Success, Suc n)), eng_sync = (\<lambda>n. Some (Inr (of_nat n), n))\<rparr>"

theorem every_request_answered_witness:
  "\<exists>reps s'. flush_loop sample_batch_codecs counting_engine 2
      [Received (BPropose \<lparr>pp_payload = [1], pp_result_tx = 10\<rparr>), Received (BPropose \<lparr>pp_payload = [2], pp_result_tx = 11\<rparr>),
       Received (BPropose \<lparr>pp_payload = [3], pp_result_tx = 12\<rparr>), Received (BSync 13), Closed] ([], 0) =
      Some (reps, [], s') \<and> map reply_tx reps = [10, 11, 12, 13]"
proof -
  let ?is = "[Received (BPropose \<lparr>pp_payload = [1], pp_result_tx = 10\<rparr>), Received (BPropose \<lparr>pp_payload = [2], pp_result_tx = 11\<rparr>),
       Received (BPropose \<lparr>pp_payload = [3], pp_result_tx = 12\<rparr>), Received (BSync 13)]"
  have "\<exists>reps s'. flush_loop sample_batch_codecs counting_engine 2 (?is @ [Closed]) ([], 0) = Some (reps, [], s')"
    by (simp add: counting_engine_def flush_batch_def encode_def sample_batch_codecs_def codec_from_def run_enc_def Let_def)
  then obtain reps s' where
    f: "flush_loop sample_batch_codecs counting_engine 2 (?is @ [Closed]) ([], 0) = Some (reps, [], s')" by blast
  from every_request_answered[OF f] have "map reply_tx reps = [10, 11, 12, 13]" by simp
  with f show ?thesis by auto
qed



text \<open>Batching drops the headers that the layers above put into an entry: a proposal with a header
  is handled exactly as one without it.\<close>

theorem batching_drops_headers:
  "batching_propose c max_batch d (with_header en k h) s = batching_propose c max_batch d en s"
  by (simp add: batching_propose_def)

section \<open>View tracking\<close>

lemma fold_min:
  fixes p :: "'a::linorder"
  shows "fold min ps p \<in> insert p (set ps) \<and> (\<forall>q \<in> insert p (set ps). fold min ps p \<le> q)"
proof (induction ps arbitrary: p)
  case (Cons q ps)
  from Cons.IH[of "min q p"] show ?case by (auto simp: min_def split: if_splits)
qed simp

text \<open>The trim prefix is the smallest recorded view: it is the view of some server and no server's
  view is below it.\<close>

theorem trim_prefix_minimum:
  "(trim_prefix vs = None \<longleftrightarrow> vs = []) \<and>
   (trim_prefix vs = Some p \<longleftrightarrow> vs \<noteq> [] \<and> is_arg_min id (\<lambda>q. q \<in> snd ` set vs) p)"
proof (cases vs)
  case (Cons v ws)
  have f: "fold min (map snd ws) (snd v) \<in> snd ` set vs" "\<forall>q \<in> snd ` set vs. fold min (map snd ws) (snd v) \<le> q"
    using fold_min[of "map snd ws" "snd v"] Cons by auto
  then have "p = fold min (map snd ws) (snd v) \<longleftrightarrow> is_arg_min id (\<lambda>q. q \<in> snd ` set vs) p"
    by (auto simp: is_arg_min_linorder intro: antisym)
  with Cons show ?thesis by (auto simp: trim_prefix_def)
qed (simp add: trim_prefix_def)

text \<open>The view of a server is the position of its last entry, not the cursor it sent: applying an
  entry with a view header records the entry's own position for the sending server, whatever
  cursor the header carries, and changes nothing about the result or the transaction. When it is
  the first view, the trim prefix then lies beyond the playback cursor that the server reported.\<close>

theorem view_ignores_reported_cursor:
  assumes "codec_ok vc" and "encode vc \<lparr>vt_server_id = sid, vt_cursor = cur\<rparr> = Inr h"
    and "\<not> busy pos" and "views x = bt_empty" and "cur < pos"
  shows "\<exists>x'. view_apply vc busy (table_apply c) (with_header en VIEW_TRACKING_HEADER h) pos t x =
             (fst (table_apply c en pos t x), fst (snd (table_apply c en pos t x)), x') \<and>
           bt_get (views x') = [sid \<mapsto> pos] \<and> trim_prefix (views x') = Some pos \<and> \<not> pos \<le> cur"
proof -
  have "decode vc h = Inr \<lparr>vt_server_id = sid, vt_cursor = cur\<rparr>"
    using decode_encode[OF assms(1,2)] .
  moreover have "table_apply c (with_header en VIEW_TRACKING_HEADER h) pos t y =
      (fst (table_apply c en pos t x), fst (snd (table_apply c en pos t x)), y)" for y :: "'a view_state_scheme"
    by (simp add: table_apply_def split: sum.splits prod.splits)
  ultimately show ?thesis
    using assms(3-5) by (simp add: view_apply_def record_view_def bt_empty_def bt_get_map_of trim_prefix_def)
qed

theorem view_ignores_reported_cursor_witness:
  "\<exists>h x'. view_apply sample_view_codec (\<lambda>_. False) (table_apply sample_codecs)
      (with_header (entry_new []) VIEW_TRACKING_HEADER h) 5 \<lparr>working = [], committed = False\<rparr> \<lparr>views = bt_empty\<rparr> =
      (fst (table_apply sample_codecs (entry_new []) 5 \<lparr>working = [], committed = False\<rparr> \<lparr>views = bt_empty\<rparr>),
       fst (snd (table_apply sample_codecs (entry_new []) 5 \<lparr>working = [], committed = False\<rparr> \<lparr>views = bt_empty\<rparr>)), x') \<and>
      trim_prefix (views x') = Some 5"
proof -
  obtain h where "encode sample_view_codec \<lparr>vt_server_id = 7, vt_cursor = 0\<rparr> = Inr h"
    using encode_total[OF sample_view_codec_ok] ..
  from view_ignores_reported_cursor[OF sample_view_codec_ok this, of "\<lambda>_. False" 5 "\<lparr>views = bt_empty\<rparr>"
      sample_codecs "entry_new []" "\<lparr>working = [], committed = False\<rparr>"]
  show ?thesis by auto
qed

section \<open>The stack\<close>

text \<open>Layers nest: pushing a layer onto a stack makes its engine the outermost one, the first to
  see a proposal, and its applicator the innermost one, the last layer to see an entry before the
  application; an error while the base engine starts is passed through.\<close>

theorem stack_layers_nest:
  "stack_build (stack_push w b) ops log store app x =
   map_sum id (\<lambda>(engine, be). (wrap_engine w engine, be)) (stack_build b ops log store (wrap_applicator w app) x)"
  by (cases "engine_new log store x")
    (simp_all add: stack_build_def stack_applicator_push stack_engine_push)

end
