(* ===== verification/Native_Loglet.thy ===== *)
theory Native_Loglet
  imports Loglet Ordered_Map
begin

text \<open>
  \<open>NativeLoglet\<close> (\<open>relos-log/src/native_loglet.rs\<close>): a sequencer that hands out positions, and log
  servers that store entries; an append succeeds when a majority of the servers has stored it. The
  sequencer and each log server are tasks that serve one request at a time, so a request is a
  function on the task's state.

  The operations here are the loglet's as one caller runs them while the tasks are alive, with the
  replies collected from all servers; \<open>native\<close> shows that they meet the contract of a loglet. How
  concurrent callers interleave is the subject of \<open>Native_Concurrent\<close>.
\<close>

section \<open>The sequencer\<close>

record sequencer =
  sq_next_pos :: LogPos
  sq_sealed :: bool

definition sequencer_new :: sequencer where
  "sequencer_new = \<lparr>sq_next_pos = LOG_POS_BEGIN, sq_sealed = False\<rparr>"

definition seq_next_pos :: "sequencer \<Rightarrow> LogPos option \<times> sequencer" where
  "seq_next_pos q =
     (if sq_sealed q then (None, q)
      else (Some (sq_next_pos q), q\<lparr>sq_next_pos := sq_next_pos q + 1\<rparr>))"

definition seq_seal :: "sequencer \<Rightarrow> LogPos \<times> sequencer" where
  "seq_seal q = (sq_next_pos q, q\<lparr>sq_sealed := True\<rparr>)"

definition seq_check_tail :: "sequencer \<Rightarrow> LogPos" where
  "seq_check_tail q = sq_next_pos q"

section \<open>Log servers\<close>

datatype read_result = REntry entry | RTrimmed | RNotFound

record log_server =
  ls_entries :: "(LogPos, entry) btree"
  ls_sealed :: bool
  ls_trim_pos :: LogPos
  ls_tail :: LogPos

definition log_server_new :: log_server where
  "log_server_new = \<lparr>ls_entries = bt_empty, ls_sealed = False, ls_trim_pos = LOG_POS_BEGIN, ls_tail = LOG_POS_BEGIN\<rparr>"

text \<open>The left reply is the one of a sealed server, with its tail.\<close>

definition ls_store :: "LogPos \<Rightarrow> entry \<Rightarrow> log_server \<Rightarrow> (LogPos + bool) \<times> log_server" where
  "ls_store pos en s =
     (if ls_sealed s then (Inl (ls_tail s), s)
      else if bt_get (ls_entries s) pos \<noteq> None then (Inr False, s)
      else (Inr True, s\<lparr>ls_entries := bt_insert pos en (ls_entries s),
              ls_tail := (if pos \<ge> ls_tail s then pos + 1 else ls_tail s)\<rparr>))"

definition ls_read :: "LogPos \<Rightarrow> log_server \<Rightarrow> read_result" where
  "ls_read pos s =
     (if pos < ls_trim_pos s then RTrimmed
      else (case bt_get (ls_entries s) pos of Some en \<Rightarrow> REntry en | None \<Rightarrow> RNotFound))"

definition ls_seal :: "log_server \<Rightarrow> LogPos \<times> log_server" where
  "ls_seal s = (ls_tail s, s\<lparr>ls_sealed := True\<rparr>)"

definition ls_trim :: "LogPos \<Rightarrow> log_server \<Rightarrow> log_server" where
  "ls_trim pos s =
     (if pos > ls_trim_pos s then
        (let to_remove = map fst (bt_range_to pos (ls_entries s))
         in s\<lparr>ls_trim_pos := pos, ls_entries := fold bt_remove to_remove (ls_entries s)\<rparr>)
      else s)"

section \<open>The loglet\<close>

record native_loglet =
  nl_sequencer :: sequencer
  nl_servers :: "log_server list"
  nl_quorum_size :: nat
  nl_sealed :: bool

text \<open>\<open>NativeLoglet::new\<close> asserts that there is a server; \<open>None\<close> is the failed assertion.\<close>

definition native_loglet_new :: "nat \<Rightarrow> native_loglet option" where
  "native_loglet_new num_servers =
     (if num_servers > 0 then
        Some \<lparr>nl_sequencer = sequencer_new, nl_servers = replicate num_servers log_server_new,
              nl_quorum_size = num_servers div 2 + 1, nl_sealed = False\<rparr>
      else None)"

definition with_defaults :: native_loglet where
  "with_defaults = the (native_loglet_new 3)"

definition fan_out_store :: "LogPos \<Rightarrow> entry \<Rightarrow> log_server list \<Rightarrow> (LogPos + bool) list \<times> log_server list" where
  "fan_out_store pos en ss = (map (fst \<circ> ls_store pos en) ss, map (snd \<circ> ls_store pos en) ss)"

definition fan_out_seal :: "log_server list \<Rightarrow> LogPos list \<times> log_server list" where
  "fan_out_seal ss = (map (fst \<circ> ls_seal) ss, map (snd \<circ> ls_seal) ss)"

definition fan_out_trim :: "LogPos \<Rightarrow> log_server list \<Rightarrow> log_server list" where
  "fan_out_trim pos ss = map (ls_trim pos) ss"

text \<open>The counting loop of \<open>append\<close>: acknowledgements, and the tail of the last server that answered
  that it is sealed.\<close>

fun count_acks :: "(LogPos + bool) list \<Rightarrow> nat \<Rightarrow> LogPos option \<Rightarrow> nat \<times> LogPos option" where
  "count_acks [] ack_count seal_tail = (ack_count, seal_tail)"
| "count_acks (Inr _ # rs) ack_count seal_tail = count_acks rs (ack_count + 1) seal_tail"
| "count_acks (Inl tail # rs) ack_count seal_tail = count_acks rs ack_count (Some tail)"

definition append_outcome :: "nat \<Rightarrow> LogPos \<Rightarrow> (LogPos + bool) list \<Rightarrow> LogPos result" where
  "append_outcome quorum_size pos replies =
     (case count_acks replies 0 None of
        (ack_count, seal_tail) \<Rightarrow>
          if ack_count \<ge> quorum_size then Inr pos
          else (case seal_tail of
                  Some tail \<Rightarrow> Inl (Sealed tail)
                | None \<Rightarrow> Inl (Internal ''failed to reach quorum for append'')))"

definition nl_append :: "entry \<Rightarrow> native_loglet \<Rightarrow> LogPos result \<times> native_loglet" where
  "nl_append en l =
     (if nl_sealed l then (Inl (Sealed (seq_check_tail (nl_sequencer l))), l)
      else
        (case seq_next_pos (nl_sequencer l) of
           (None, q) \<Rightarrow> (Inl (Sealed (seq_check_tail q)), l\<lparr>nl_sequencer := q, nl_sealed := True\<rparr>)
         | (Some pos, q) \<Rightarrow>
             (case fan_out_store pos en (nl_servers l) of
                (replies, ss) \<Rightarrow>
                  (let l' = l\<lparr>nl_sequencer := q, nl_servers := ss\<rparr> in
                   case append_outcome (nl_quorum_size l) pos replies of
                     Inr pos \<Rightarrow> (Inr pos, l')
                   | Inl err \<Rightarrow> (Inl err, if is_Sealed err then l'\<lparr>nl_sealed := True\<rparr> else l')))))"

definition nl_check_tail :: "native_loglet \<Rightarrow> LogPos result" where
  "nl_check_tail l = Inr (seq_check_tail (nl_sequencer l))"

fun read_servers :: "LogPos \<Rightarrow> log_server list \<Rightarrow> entry option result" where
  "read_servers pos [] = Inr None"
| "read_servers pos (s # ss) =
     (case ls_read pos s of
        REntry en \<Rightarrow> Inr (Some en)
      | RTrimmed \<Rightarrow> Inl (Trimmed pos)
      | RNotFound \<Rightarrow> read_servers pos ss)"

definition nl_read :: "LogPos \<Rightarrow> native_loglet \<Rightarrow> entry option result" where
  "nl_read pos l = read_servers pos (nl_servers l)"

definition nl_trim :: "LogPos \<Rightarrow> native_loglet \<Rightarrow> unit result \<times> native_loglet" where
  "nl_trim pos l = (Inr (), l\<lparr>nl_servers := fan_out_trim pos (nl_servers l)\<rparr>)"

definition seal_outcome :: "nat \<Rightarrow> LogPos \<Rightarrow> LogPos list \<Rightarrow> LogPos result" where
  "seal_outcome quorum_size sequencer_tail tails =
     (let sealed_count = length tails;
          max_tail = fold (\<lambda>tail m. if tail > m then tail else m) tails LOG_POS_BEGIN
      in if sealed_count < quorum_size then Inl (Internal ''failed to reach quorum for seal'')
         else Inr (max sequencer_tail max_tail))"

definition nl_seal :: "native_loglet \<Rightarrow> LogPos result \<times> native_loglet" where
  "nl_seal l =
     (case seq_seal (nl_sequencer l) of
        (sequencer_tail, q) \<Rightarrow>
          (case fan_out_seal (nl_servers l) of
             (tails, ss) \<Rightarrow>
               (let l' = l\<lparr>nl_sequencer := q, nl_servers := ss\<rparr> in
                case seal_outcome (nl_quorum_size l) sequencer_tail tails of
                  Inl err \<Rightarrow> (Inl err, l')
                | Inr final_tail \<Rightarrow> (Inr final_tail, l'\<lparr>nl_sealed := True\<rparr>))))"

definition native_ops :: "native_loglet loglet_ops" where
  "native_ops = \<lparr>lg_append = (\<lambda>e l. Some (nl_append e l)), lg_check_tail = nl_check_tail,
     lg_read = nl_read, lg_trim = nl_trim, lg_seal = nl_seal\<rparr>"

definition native_factory :: "nat \<Rightarrow> string \<Rightarrow> native_loglet result" where
  "native_factory num_servers i = Inr (the (native_loglet_new num_servers))"

section \<open>The log it represents\<close>

text \<open>Between the operations of one caller all servers agree.\<close>

definition server_rel :: "alog \<Rightarrow> log_server \<Rightarrow> bool" where
  "server_rel a s \<longleftrightarrow> bt_ok (ls_entries s) \<and> ls_sealed s = al_sealed a \<and> unat (ls_trim_pos s) = al_trim a \<and>
     ls_tail s = of_nat (al_tail a) \<and>
     (\<forall>p. bt_get (ls_entries s) p =
        (if al_trim a \<le> unat p \<and> unat p < al_tail a then Some (al_at a (unat p)) else None))"

definition nl_rel :: "native_loglet \<Rightarrow> alog \<Rightarrow> bool" where
  "nl_rel l a \<longleftrightarrow> nl_servers l \<noteq> [] \<and> nl_quorum_size l = length (nl_servers l) div 2 + 1 \<and>
     sq_next_pos (nl_sequencer l) = of_nat (al_tail a) \<and> sq_sealed (nl_sequencer l) = al_sealed a \<and>
     (nl_sealed l \<longrightarrow> al_sealed a) \<and> 1 \<le> al_trim a \<and> al_trim a \<le> al_tail a \<and> al_tail a < 2 ^ 64 \<and>
     (\<forall>s \<in> set (nl_servers l). server_rel a s)"

lemma native_ops_sel [simp]:
  "lg_append native_ops e l = Some (nl_append e l)" "lg_check_tail native_ops = nl_check_tail"
  "lg_read native_ops = nl_read" "lg_trim native_ops = nl_trim" "lg_seal native_ops = nl_seal"
  by (simp_all add: native_ops_def)

lemma nl_rel_new: "0 < n \<Longrightarrow> nl_rel (the (native_loglet_new n)) alog_new"
  by (auto simp: nl_rel_def native_loglet_new_def server_rel_def log_server_new_def sequencer_new_def
    alog_new_def al_tail_def LOG_POS_BEGIN_def bt_ok_empty bt_get_empty)

text \<open>A majority of one or more servers is no more than all of them.\<close>

lemma quorum_le: "0 < n \<Longrightarrow> n div 2 + 1 \<le> (n :: nat)"
  by simp

lemma count_acks_all:
  "(\<forall>r \<in> set rs. \<exists>b. r = Inr b) \<Longrightarrow> count_acks rs n t = (n + length rs, t)"
proof (induction rs arbitrary: n)
  case (Cons r rs)
  then show ?case by (cases r) auto
qed simp

lemma server_rel_store:
  assumes "server_rel a s" "\<not> al_sealed a" "Suc (al_tail a) < 2 ^ 64" "al_trim a \<le> al_tail a" "1 \<le> al_trim a"
  shows "fst (ls_store (of_nat (al_tail a)) e s) = Inr True \<and> server_rel (al_push e a) (snd (ls_store (of_nat (al_tail a)) e s))"
proof -
  have u: "unat (of_nat (al_tail a) :: u64) = al_tail a"
    using assms(3) by (intro unat_of_nat_pos) simp
  have eq: "p = of_nat (al_tail a) \<longleftrightarrow> unat p = al_tail a" for p :: u64
    using u by (metis word_unat_eq_iff)
  have at: "al_at (al_push e a) (unat p) = (if unat p = al_tail a then e else al_at a (unat p))"
    if "unat p < Suc (al_tail a)" "1 \<le> unat p" for p :: u64
    using that by (auto simp: al_at_def nth_append al_tail_def)
  have "\<not> ls_sealed s" "bt_get (ls_entries s) (of_nat (al_tail a)) = None" "ls_tail s = of_nat (al_tail a)"
    "bt_ok (ls_entries s)"
    using assms(1,2) u by (simp_all add: server_rel_def)
  then have "ls_store (of_nat (al_tail a)) e s =
      (Inr True, s\<lparr>ls_entries := bt_insert (of_nat (al_tail a)) e (ls_entries s), ls_tail := of_nat (al_tail a) + 1\<rparr>)"
    by (simp add: ls_store_def)
  moreover have "bt_get (bt_insert (of_nat (al_tail a)) e (ls_entries s)) p =
      (if al_trim a \<le> unat p \<and> unat p < Suc (al_tail a) then Some (al_at (al_push e a) (unat p)) else None)" for p
    using assms(1,4,5) at[of p] eq[of p] by (auto simp: server_rel_def bt_get_insert)
  ultimately show ?thesis
    using assms(1) by (simp add: server_rel_def bt_ok_insert add.commute)
qed

lemma server_rel_trim:
  assumes "server_rel a s"
  shows "server_rel (a\<lparr>al_trim := max (al_trim a) (unat p)\<rparr>) (ls_trim p s)"
proof (cases "ls_trim_pos s < p")
  case True
  then have t: "max (al_trim a) (unat p) = unat p" using assms by (simp add: server_rel_def word_less_nat_alt)
  have ok: "bt_ok (ls_entries s)" using assms by (simp add: server_rel_def)
  have "q \<in> set (map fst (bt_range_to p (ls_entries s))) \<longleftrightarrow> q < p \<and> bt_get (ls_entries s) q \<noteq> None" for q
    unfolding bt_range_to_filter[OF ok] using bt.in_entries_iff[OF ok, of q] by force
  then have "bt_get (fold bt_remove (map fst (bt_range_to p (ls_entries s))) (ls_entries s)) q =
      (if q < p then None else bt_get (ls_entries s) q)" for q
    using bt.look_rem_all[OF ok, of "map fst (bt_range_to p (ls_entries s))" q] by auto
  moreover have "bt_ok (fold bt_remove (map fst (bt_range_to p (ls_entries s))) (ls_entries s))"
    by (rule bt.ok_rem_all[OF ok])
  ultimately show ?thesis
    using assms True t by (auto simp: ls_trim_def Let_def server_rel_def word_less_nat_alt)
next
  case False
  then have "max (al_trim a) (unat p) = al_trim a"
    using assms by (simp add: server_rel_def word_less_nat_alt)
  then show ?thesis using assms False by (simp add: ls_trim_def)
qed

lemma server_rel_seal: "server_rel a s \<Longrightarrow> server_rel (a\<lparr>al_sealed := True\<rparr>) (snd (ls_seal s))"
  by (simp add: server_rel_def ls_seal_def al_at_def)

lemma nl_append_open:
  assumes "nl_rel l a" "\<not> al_sealed a" "Suc (al_tail a) < 2 ^ 64"
  shows "\<exists>l'. nl_append e l = (Inr (of_nat (al_tail a)), l') \<and> nl_rel l' (al_push e a)"
proof -
  let ?p = "of_nat (al_tail a) :: u64" and ?ss = "nl_servers l"
  have st: "fst (ls_store ?p e s) = Inr True" "server_rel (al_push e a) (snd (ls_store ?p e s))" if "s \<in> set ?ss" for s
    using server_rel_store[of a s e] assms that by (auto simp: nl_rel_def)
  have "count_acks (map (fst \<circ> ls_store ?p e) ?ss) 0 None = (length ?ss, None)"
    by (subst count_acks_all) (use st(1) in auto)
  moreover have "nl_quorum_size l \<le> length ?ss"
    using assms(1) quorum_le[of "length ?ss"] by (simp add: nl_rel_def)
  ultimately have "append_outcome (nl_quorum_size l) ?p (map (fst \<circ> ls_store ?p e) ?ss) = Inr ?p"
    by (simp add: append_outcome_def)
  then show ?thesis
    using assms st(2) by (auto simp: nl_append_def nl_rel_def seq_next_pos_def fan_out_store_def Let_def add.commute)
qed

lemma nl_read_trimmed:
  assumes "nl_rel l a" "unat p < al_trim a"
  shows "nl_read p l = Inl (Trimmed p)"
proof (cases "nl_servers l")
  case (Cons s ss)
  then have "p < ls_trim_pos s" using assms by (simp add: nl_rel_def server_rel_def word_less_nat_alt)
  then show ?thesis using Cons by (simp add: nl_read_def ls_read_def)
qed (use assms in \<open>simp add: nl_rel_def\<close>)

lemma nl_read_entry:
  assumes "nl_rel l a" "al_trim a \<le> unat p" "unat p < al_tail a"
  shows "nl_read p l = Inr (Some (al_at a (unat p)))"
proof (cases "nl_servers l")
  case (Cons s ss)
  then have "\<not> p < ls_trim_pos s" "bt_get (ls_entries s) p = Some (al_at a (unat p))"
    using assms by (simp_all add: nl_rel_def server_rel_def word_less_nat_alt)
  then show ?thesis using Cons by (simp add: nl_read_def ls_read_def)
qed (use assms in \<open>simp add: nl_rel_def\<close>)

lemma nl_read_beyond:
  assumes "nl_rel l a" "al_trim a \<le> unat p" "al_tail a \<le> unat p"
  shows "nl_read p l = Inr None"
proof -
  have "read_servers p ss = Inr None" if "\<forall>s \<in> set ss. server_rel a s" for ss
    using that
  proof (induction ss)
    case (Cons s ss)
    then have "\<not> p < ls_trim_pos s" "bt_get (ls_entries s) p = None"
      using assms(2,3) by (simp_all add: server_rel_def word_less_nat_alt)
    then show ?case using Cons by (simp add: ls_read_def)
  qed simp
  then show ?thesis using assms(1) by (simp add: nl_read_def nl_rel_def)
qed

lemma fold_max_tails:
  "(\<forall>t \<in> set ts. t = T) \<Longrightarrow> m \<le> (T :: u64) \<Longrightarrow> max T (fold (\<lambda>t m. if t > m then t else m) ts m) = T"
  by (induction ts arbitrary: m) (auto simp: max_absorb1)

lemma nl_seal_rel:
  assumes "nl_rel l a"
  shows "\<exists>l'. nl_seal l = (Inr (of_nat (al_tail a)), l') \<and> nl_rel l' (a\<lparr>al_sealed := True\<rparr>)"
proof -
  let ?ss = "nl_servers l" and ?T = "of_nat (al_tail a) :: u64"
  have tails: "\<forall>t \<in> set (map (fst \<circ> ls_seal) ?ss). t = ?T"
    using assms by (auto simp: nl_rel_def server_rel_def ls_seal_def)
  have "LOG_POS_BEGIN \<le> ?T"
    using assms al_tail_pos[of a] by (auto simp: LOG_POS_BEGIN_def word_le_nat_alt nl_rel_def unat_of_nat_pos Suc_le_eq)
  from fold_max_tails[OF tails this] assms quorum_le[of "length ?ss"]
  have "seal_outcome (nl_quorum_size l) ?T (map (fst \<circ> ls_seal) ?ss) = Inr ?T"
    by (simp add: seal_outcome_def nl_rel_def)
  moreover have "\<forall>s \<in> set ?ss. server_rel (a\<lparr>al_sealed := True\<rparr>) (snd (ls_seal s))"
    using assms server_rel_seal by (simp add: nl_rel_def)
  ultimately show ?thesis
    using assms by (auto simp: nl_seal_def seq_seal_def fan_out_seal_def nl_rel_def Let_def)
qed

interpretation native: loglet native_ops nl_rel
proof unfold_locales
  fix l a and e :: entry and p :: LogPos
  assume rel: "nl_rel l a"
  show "1 \<le> al_trim a \<and> al_tail a < 2 ^ 64" using rel by (simp add: nl_rel_def)
  show "lg_check_tail native_ops l = Inr (of_nat (al_tail a))"
    using rel by (simp add: nl_check_tail_def seq_check_tail_def nl_rel_def)
  show "\<exists>q. lg_read native_ops p l = Inl (Trimmed q)" if "unat p < al_trim a"
    using nl_read_trimmed[OF rel that] by simp
  show "lg_read native_ops p l = Inr None" if "al_trim a \<le> unat p" "al_tail a \<le> unat p"
    using nl_read_beyond[OF rel that] by simp
  show "lg_read native_ops p l = Inr (Some (al_at a (unat p)))" if "al_trim a \<le> unat p" "unat p < al_tail a"
    using nl_read_entry[OF rel that] by simp
  show "\<exists>l'. lg_trim native_ops p l = (Inr (), l') \<and> nl_rel l' (a\<lparr>al_trim := max (al_trim a) (unat p)\<rparr>)"
    if "unat p \<le> al_tail a"
    using rel that server_rel_trim by (auto simp: nl_trim_def nl_rel_def fan_out_trim_def)
  show "\<exists>l'. lg_append native_ops e l = Some (Inr (of_nat (al_tail a)), l') \<and> nl_rel l' (al_push e a)"
    if "\<not> al_sealed a" "Suc (al_tail a) < 2 ^ 64"
    using nl_append_open[OF rel that, of e] by auto
  show "\<exists>l'. lg_seal native_ops l = (Inr (of_nat (al_tail a)), l') \<and> nl_rel l' (a\<lparr>al_sealed := True\<rparr>)"
    using nl_seal_rel[OF rel] by simp
  show "\<exists>t l'. lg_append native_ops e l = Some (Inl (Sealed t), l') \<and> nl_rel l' a" if "al_sealed a"
    using rel that by (auto simp: nl_append_def nl_rel_def seq_next_pos_def)
qed

end
