(* ===== verification/Native_Concurrent.thy ===== *)
theory Native_Concurrent
  imports Native_Loglet
begin

text \<open>
  The native loglet under concurrent callers. An append is a task with several steps: it reads the
  seal flag, asks the sequencer for a position, each log server handles its store request at some
  moment, and when all have answered the task counts the acknowledgements. A seal first seals the
  sequencer, then each server handles its seal request, then the task collects the tails. A server
  may also handle trim requests at any moment. \<open>native_step\<close> interleaves all of these freely.

  \<open>ns_assigned\<close> is history: the entry for which the sequencer gave out each position. No server task
  dies, and the sequencer does not run past the last 64-bit position.
\<close>

section \<open>State\<close>

datatype append_phase = Loaded | Storing LogPos "nat \<rightharpoonup> LogPos + bool" | Finished "LogPos result"

datatype seal_phase = Sealing LogPos "nat \<rightharpoonup> LogPos" | SealFinished "LogPos result"

record native_sys =
  ns_seq :: sequencer
  ns_servers :: "log_server list"
  ns_quorum :: nat
  ns_flag :: bool
  ns_appends :: "nat \<rightharpoonup> entry \<times> append_phase"
  ns_seals :: "nat \<rightharpoonup> seal_phase"
  ns_assigned :: "LogPos \<rightharpoonup> entry"

definition native_init :: "nat \<Rightarrow> native_sys" where
  "native_init n = \<lparr>ns_seq = sequencer_new, ns_servers = replicate n log_server_new, ns_quorum = n div 2 + 1,
     ns_flag = False, ns_appends = Map.empty, ns_seals = Map.empty, ns_assigned = Map.empty\<rparr>"

definition set_append :: "nat \<Rightarrow> entry \<Rightarrow> append_phase \<Rightarrow> native_sys \<Rightarrow> native_sys" where
  "set_append c en ph y = y\<lparr>ns_appends := (ns_appends y)(c \<mapsto> (en, ph))\<rparr>"

definition set_seal :: "nat \<Rightarrow> seal_phase \<Rightarrow> native_sys \<Rightarrow> native_sys" where
  "set_seal c ph y = y\<lparr>ns_seals := (ns_seals y)(c \<mapsto> ph)\<rparr>"

definition set_server :: "nat \<Rightarrow> log_server \<Rightarrow> native_sys \<Rightarrow> native_sys" where
  "set_server i s y = y\<lparr>ns_servers := (ns_servers y)[i := s]\<rparr>"

definition all_replies :: "nat \<Rightarrow> (nat \<rightharpoonup> 'r) \<Rightarrow> 'r list" where
  "all_replies n rs = map (the \<circ> rs) [0..<n]"

definition raise_flag :: "'r result \<Rightarrow> bool \<Rightarrow> bool" where
  "raise_flag r flag = (flag \<or> (case r of Inl err \<Rightarrow> is_Sealed err | Inr _ \<Rightarrow> False))"

section \<open>Steps\<close>

inductive native_step :: "native_sys \<Rightarrow> native_sys \<Rightarrow> bool" where
  append_load: "ns_appends y c = None \<Longrightarrow> \<not> ns_flag y \<Longrightarrow> native_step y (set_append c en Loaded y)"
| append_fast_fail: "ns_appends y c = None \<Longrightarrow> ns_flag y \<Longrightarrow>
    native_step y (set_append c en (Finished (Inl (Sealed (seq_check_tail (ns_seq y))))) y)"
| append_position: "ns_appends y c = Some (en, Loaded) \<Longrightarrow> seq_next_pos (ns_seq y) = (Some pos, q) \<Longrightarrow>
    pos + 1 \<noteq> 0 \<Longrightarrow>
    native_step y (set_append c en (Storing pos Map.empty)
      (y\<lparr>ns_seq := q, ns_assigned := (ns_assigned y)(pos \<mapsto> en)\<rparr>))"
| append_refused: "ns_appends y c = Some (en, Loaded) \<Longrightarrow> seq_next_pos (ns_seq y) = (None, q) \<Longrightarrow>
    native_step y (set_append c en (Finished (Inl (Sealed (seq_check_tail q)))) (y\<lparr>ns_seq := q, ns_flag := True\<rparr>))"
| server_store: "ns_appends y c = Some (en, Storing pos rs) \<Longrightarrow> i < length (ns_servers y) \<Longrightarrow> rs i = None \<Longrightarrow>
    ls_store pos en (ns_servers y ! i) = (r, s) \<Longrightarrow>
    native_step y (set_append c en (Storing pos (rs(i \<mapsto> r))) (set_server i s y))"
| append_finish: "ns_appends y c = Some (en, Storing pos rs) \<Longrightarrow> \<forall>i < length (ns_servers y). rs i \<noteq> None \<Longrightarrow>
    r = append_outcome (ns_quorum y) pos (all_replies (length (ns_servers y)) rs) \<Longrightarrow>
    native_step y (set_append c en (Finished r) (y\<lparr>ns_flag := raise_flag r (ns_flag y)\<rparr>))"
| seal_sequencer: "ns_seals y c = None \<Longrightarrow> seq_seal (ns_seq y) = (tail, q) \<Longrightarrow>
    native_step y (set_seal c (Sealing tail Map.empty) (y\<lparr>ns_seq := q\<rparr>))"
| server_seal: "ns_seals y c = Some (Sealing tail rs) \<Longrightarrow> i < length (ns_servers y) \<Longrightarrow> rs i = None \<Longrightarrow>
    ls_seal (ns_servers y ! i) = (t, s) \<Longrightarrow>
    native_step y (set_seal c (Sealing tail (rs(i \<mapsto> t))) (set_server i s y))"
| seal_finish: "ns_seals y c = Some (Sealing tail rs) \<Longrightarrow> \<forall>i < length (ns_servers y). rs i \<noteq> None \<Longrightarrow>
    r = seal_outcome (ns_quorum y) tail (all_replies (length (ns_servers y)) rs) \<Longrightarrow>
    native_step y (set_seal c (SealFinished r) (y\<lparr>ns_flag := (ns_flag y \<or> \<not> isl r)\<rparr>))"
| server_trim: "i < length (ns_servers y) \<Longrightarrow> native_step y (set_server i (ls_trim p (ns_servers y ! i)) y)"

definition native_reach :: "native_sys \<Rightarrow> native_sys \<Rightarrow> bool" where
  "native_reach = native_step\<^sup>*\<^sup>*"

section \<open>Invariant\<close>

definition held :: "LogPos \<Rightarrow> entry \<Rightarrow> log_server \<Rightarrow> bool" where
  "held p en s \<longleftrightarrow> p < ls_trim_pos s \<or> bt_get (ls_entries s) p = Some en"

definition holders :: "native_sys \<Rightarrow> LogPos \<Rightarrow> entry \<Rightarrow> nat set" where
  "holders y p en = {i. i < length (ns_servers y) \<and> held p en (ns_servers y ! i)}"

text \<open>The position of an append that has one and has not failed.\<close>

fun phase_pos :: "append_phase \<Rightarrow> LogPos option" where
  "phase_pos Loaded = None"
| "phase_pos (Storing pos rs) = Some pos"
| "phase_pos (Finished (Inr pos)) = Some pos"
| "phase_pos (Finished (Inl err)) = None"

fun phase_ok :: "native_sys \<Rightarrow> entry \<Rightarrow> append_phase \<Rightarrow> bool" where
  "phase_ok y en Loaded = True"
| "phase_ok y en (Storing pos rs) =
     (ns_assigned y pos = Some en \<and> (\<forall>i b. i < length (ns_servers y) \<and> rs i = Some (Inr b) \<longrightarrow> i \<in> holders y pos en))"
| "phase_ok y en (Finished (Inr pos)) = (ns_assigned y pos = Some en \<and> ns_quorum y \<le> card (holders y pos en))"
| "phase_ok y en (Finished (Inl err)) = True"

fun seal_ok :: "native_sys \<Rightarrow> seal_phase \<Rightarrow> bool" where
  "seal_ok y (Sealing tail rs) =
     (sq_sealed (ns_seq y) \<and> tail = sq_next_pos (ns_seq y) \<and> (\<forall>i t. rs i = Some t \<longrightarrow> t \<le> sq_next_pos (ns_seq y)))"
| "seal_ok y (SealFinished (Inr final)) = (sq_sealed (ns_seq y) \<and> final = sq_next_pos (ns_seq y))"
| "seal_ok y (SealFinished (Inl err)) = True"

definition servers_ok :: "native_sys \<Rightarrow> bool" where
  "servers_ok y \<longleftrightarrow> (\<forall>s \<in> set (ns_servers y). bt_ok (ls_entries s) \<and> ls_tail s \<le> sq_next_pos (ns_seq y) \<and>
     (\<forall>p e. bt_get (ls_entries s) p = Some e \<longrightarrow> ns_assigned y p = Some e))"

definition positions_ok :: "native_sys \<Rightarrow> bool" where
  "positions_ok y \<longleftrightarrow> LOG_POS_BEGIN \<le> sq_next_pos (ns_seq y) \<and>
     (\<forall>p. ns_assigned y p \<noteq> None \<longleftrightarrow> LOG_POS_BEGIN \<le> p \<and> p < sq_next_pos (ns_seq y)) \<and>
     (\<forall>c d en ph en' ph' p. ns_appends y c = Some (en, ph) \<and> ns_appends y d = Some (en', ph') \<and>
        phase_pos ph = Some p \<and> phase_pos ph' = Some p \<longrightarrow> c = d)"

definition native_inv :: "native_sys \<Rightarrow> bool" where
  "native_inv y \<longleftrightarrow> servers_ok y \<and> positions_ok y \<and> 0 < ns_quorum y \<and>
     (\<forall>c en ph. ns_appends y c = Some (en, ph) \<longrightarrow> phase_ok y en ph) \<and>
     (\<forall>c ph. ns_seals y c = Some ph \<longrightarrow> seal_ok y ph)"

section \<open>Preservation\<close>

text \<open>What a step of another task never takes away.\<close>

definition extends :: "native_sys \<Rightarrow> native_sys \<Rightarrow> bool" where
  "extends y y' \<longleftrightarrow> length (ns_servers y') = length (ns_servers y) \<and> ns_quorum y' = ns_quorum y \<and>
     (\<forall>p e. ns_assigned y p = Some e \<longrightarrow> ns_assigned y' p = Some e) \<and>
     (\<forall>p e. holders y p e \<subseteq> holders y' p e) \<and>
     (sq_sealed (ns_seq y) \<longrightarrow> ns_seq y' = ns_seq y)"

lemma finite_holders [simp]: "finite (holders y p en)"
  by (simp add: holders_def)

lemma phase_ok_extends: "extends y y' \<Longrightarrow> phase_ok y en ph \<Longrightarrow> phase_ok y' en ph"
proof (induction y en ph rule: phase_ok.induct)
  case (2 y en pos rs)
  then have "holders y pos en \<subseteq> holders y' pos en" by (simp add: extends_def)
  with 2 show ?case unfolding extends_def phase_ok.simps by (metis subsetD)
next
  case (3 y en pos)
  then have "card (holders y pos en) \<le> card (holders y' pos en)"
    by (intro card_mono) (auto simp: extends_def)
  with 3 show ?case by (auto simp: extends_def)
qed (auto simp: extends_def)

lemma seal_ok_extends: "extends y y' \<Longrightarrow> seal_ok y ph \<Longrightarrow> seal_ok y' ph"
  by (cases "(y, ph)" rule: seal_ok.cases) (auto simp: extends_def)

lemma set_sel [simp]:
  "ns_seq (set_append c en ph y) = ns_seq y" "ns_servers (set_append c en ph y) = ns_servers y"
  "ns_quorum (set_append c en ph y) = ns_quorum y" "ns_assigned (set_append c en ph y) = ns_assigned y"
  "ns_appends (set_append c en ph y) = (ns_appends y)(c \<mapsto> (en, ph))" "ns_seals (set_append c en ph y) = ns_seals y"
  "ns_seq (set_seal c sp y) = ns_seq y" "ns_servers (set_seal c sp y) = ns_servers y"
  "ns_quorum (set_seal c sp y) = ns_quorum y" "ns_assigned (set_seal c sp y) = ns_assigned y"
  "ns_appends (set_seal c sp y) = ns_appends y" "ns_seals (set_seal c sp y) = (ns_seals y)(c \<mapsto> sp)"
  "ns_seq (set_server i s y) = ns_seq y" "ns_servers (set_server i s y) = (ns_servers y)[i := s]"
  "ns_quorum (set_server i s y) = ns_quorum y" "ns_assigned (set_server i s y) = ns_assigned y"
  "ns_appends (set_server i s y) = ns_appends y" "ns_seals (set_server i s y) = ns_seals y"
  by (simp_all add: set_append_def set_seal_def set_server_def)

lemma holders_set [simp]:
  "holders (set_append c en ph y) = holders y" "holders (set_seal c sp y) = holders y"
  "holders (y\<lparr>ns_seq := q\<rparr>) = holders y" "holders (y\<lparr>ns_flag := f\<rparr>) = holders y"
  "holders (y\<lparr>ns_assigned := g\<rparr>) = holders y"
  by (simp_all add: holders_def fun_eq_iff)

lemma phase_ok_set [simp]:
  "phase_ok (set_append c en ph y) e p = phase_ok y e p" "phase_ok (set_seal c sp y) e p = phase_ok y e p"
  by (cases "(y, e, p)" rule: phase_ok.cases; simp)+

lemma seal_ok_set [simp]:
  "seal_ok (set_append c en ph y) sp = seal_ok y sp" "seal_ok (set_seal c sp' y) sp = seal_ok y sp"
  "seal_ok (set_server i s y) sp = seal_ok y sp"
  by (cases "(y, sp)" rule: seal_ok.cases; simp)+

lemma servers_ok_set [simp]:
  "servers_ok (set_append c en ph y) = servers_ok y" "servers_ok (set_seal c sp y) = servers_ok y"
  "servers_ok (y\<lparr>ns_flag := f\<rparr>) = servers_ok y"
  by (simp_all add: servers_ok_def)

text \<open>Distinct positions survive when a task keeps its position, drops it, or takes a new one.\<close>

lemma positions_ok_append:
  assumes "positions_ok y" "ns_assigned y' = ns_assigned y" "ns_seq y' = ns_seq y" "ns_appends y' = ns_appends y"
    "phase_pos ph = None \<or> (\<exists>ph0. ns_appends y c = Some (en, ph0) \<and> phase_pos ph0 = phase_pos ph)"
  shows "positions_ok (set_append c en ph y')"
proof -
  have d: "c1 = d1" if "ns_appends y c1 = Some (e1, ph1)" "ns_appends y d1 = Some (e2, ph2)"
    "phase_pos ph1 = Some p" "phase_pos ph2 = Some p" for c1 d1 e1 e2 ph1 ph2 p
    using assms(1) that unfolding positions_ok_def by blast
  have "c1 = d1" if "ns_appends (set_append c en ph y') c1 = Some (e1, ph1)"
    "ns_appends (set_append c en ph y') d1 = Some (e2, ph2)"
    "phase_pos ph1 = Some p" "phase_pos ph2 = Some p" for c1 d1 e1 e2 ph1 ph2 p
    using that assms(4,5) d[of c1 e1 ph1 d1 e2 ph2 p] d[of c1 e1 ph1 c en _ p] d[of c en _ d1 e2 ph2 p]
    by (auto split: if_splits)
  then show ?thesis using assms(1-3) unfolding positions_ok_def by (simp del: fun_upd_apply)
qed

lemma positions_ok_other:
  assumes "positions_ok y" "ns_assigned y' = ns_assigned y" "sq_next_pos (ns_seq y') = sq_next_pos (ns_seq y)"
    "ns_appends y' = ns_appends y"
  shows "positions_ok y'"
  using assms unfolding positions_ok_def by simp

lemma inv_append:
  assumes "native_inv y" "extends y y'" "ns_appends y' = ns_appends y" "ns_seals y' = ns_seals y"
    "servers_ok y'" "positions_ok (set_append c en ph y')" "phase_ok y' en ph"
  shows "native_inv (set_append c en ph y')"
  using assms phase_ok_extends[OF assms(2)] seal_ok_extends[OF assms(2)]
  unfolding native_inv_def by (auto simp: extends_def split: if_splits)

lemma inv_seal:
  assumes "native_inv y" "extends y y'" "ns_appends y' = ns_appends y" "ns_seals y' = ns_seals y"
    "servers_ok y'" "positions_ok (set_seal c sp y')" "seal_ok y' sp"
  shows "native_inv (set_seal c sp y')"
  using assms phase_ok_extends[OF assms(2)] seal_ok_extends[OF assms(2)]
  unfolding native_inv_def by (auto simp: extends_def split: if_splits)

lemma native_invD:
  assumes "native_inv y"
  shows "servers_ok y" "positions_ok y" "0 < ns_quorum y" "ns_appends y c = Some (en, ph) \<Longrightarrow> phase_ok y en ph"
    "ns_seals y c = Some sp \<Longrightarrow> seal_ok y sp"
  using assms unfolding native_inv_def by blast+

lemma seal_again: "sq_sealed q \<Longrightarrow> q\<lparr>sq_sealed := True\<rparr> = q"
  by (cases q) simp

subsection \<open>Server requests\<close>

lemma ls_store_facts:
  assumes "bt_ok (ls_entries s)" "ls_store p e s = (r, s')"
  shows "bt_ok (ls_entries s')" "ls_tail s' = ls_tail s \<or> ls_tail s' = p + 1"
    "held q d s \<Longrightarrow> held q d s'"
    "bt_get (ls_entries s') q = Some d \<Longrightarrow> bt_get (ls_entries s) q = Some d \<or> (q = p \<and> d = e)"
    "r = Inr b \<Longrightarrow> bt_get (ls_entries s') p \<noteq> None"
  using assms
  by (auto simp: ls_store_def held_def bt_ok_insert bt_get_insert split: if_splits)

lemma ls_trim_facts:
  assumes "bt_ok (ls_entries s)"
  shows "bt_ok (ls_entries (ls_trim p s))" "ls_tail (ls_trim p s) = ls_tail s"
    "held q d s \<Longrightarrow> held q d (ls_trim p s)"
    "bt_get (ls_entries (ls_trim p s)) q = Some d \<Longrightarrow> bt_get (ls_entries s) q = Some d"
proof -
  let ?ks = "map fst (bt_range_to p (ls_entries s))"
  have low: "k < p" if "k \<in> set ?ks" for k
    using that unfolding bt_range_to_filter[OF assms] by auto
  note get = bt.look_rem_all[OF assms, of ?ks]
  show "bt_ok (ls_entries (ls_trim p s))"
    using assms bt.ok_rem_all[OF assms] by (simp add: ls_trim_def Let_def)
  show "ls_tail (ls_trim p s) = ls_tail s" by (simp add: ls_trim_def Let_def)
  show "held q d s \<Longrightarrow> held q d (ls_trim p s)"
    using get[of q] low[of q] by (auto simp: held_def ls_trim_def Let_def)
  show "bt_get (ls_entries (ls_trim p s)) q = Some d \<Longrightarrow> bt_get (ls_entries s) q = Some d"
    using get[of q] by (auto simp: ls_trim_def Let_def split: if_splits)
qed

lemma extends_server:
  assumes "i < length (ns_servers y)" "\<And>q d. held q d (ns_servers y ! i) \<Longrightarrow> held q d s"
  shows "extends y (set_server i s y)"
  unfolding extends_def using assms by (auto simp: holders_def nth_list_update)

lemma servers_ok_server:
  assumes "servers_ok y" "bt_ok (ls_entries s)" "ls_tail s \<le> sq_next_pos (ns_seq y)"
    "\<And>p e. bt_get (ls_entries s) p = Some e \<Longrightarrow> ns_assigned y p = Some e"
  shows "servers_ok (set_server i s y)"
  using assms set_update_subset_insert[of "ns_servers y" i s] unfolding servers_ok_def by auto

lemma servers_okD:
  assumes "servers_ok y" "i < length (ns_servers y)"
  shows "bt_ok (ls_entries (ns_servers y ! i))" "ls_tail (ns_servers y ! i) \<le> sq_next_pos (ns_seq y)"
    "bt_get (ls_entries (ns_servers y ! i)) p = Some e \<Longrightarrow> ns_assigned y p = Some e"
  using assms nth_mem[OF assms(2)] unfolding servers_ok_def by blast+

subsection \<open>Outcomes\<close>

lemma count_acks_fst: "fst (count_acks rs n t) = n + length (filter (\<lambda>r. \<not> isl r) rs)"
  by (induction rs n t rule: count_acks.induct) auto

lemma append_outcome_ok:
  assumes "append_outcome q pos (all_replies n rs) = Inr pos'"
  shows "pos' = pos \<and> q \<le> card {i. i < n \<and> \<not> isl (the (rs i))}"
proof -
  have "length (filter (\<lambda>r. \<not> isl r) (all_replies n rs)) = card {i. i < n \<and> \<not> isl (the (rs i))}"
    unfolding all_replies_def by (simp add: length_filter_conv_card cong: conj_cong)
  with assms count_acks_fst[of "all_replies n rs" 0 None] show ?thesis
    by (auto simp: append_outcome_def split: prod.splits if_splits option.splits)
qed

lemma fold_max_le:
  "(\<forall>t \<in> set ts. t \<le> T) \<Longrightarrow> m \<le> (T :: u64) \<Longrightarrow> fold (\<lambda>t m. if t > m then t else m) ts m \<le> T"
  by (induction ts arbitrary: m) auto

lemma seal_outcome_ok:
  assumes "seal_outcome q T ts = Inr final" "\<forall>t \<in> set ts. t \<le> T" "LOG_POS_BEGIN \<le> T"
  shows "final = T"
  using assms fold_max_le[OF assms(2,3)] by (auto simp: seal_outcome_def Let_def max_absorb1 split: if_splits)

subsection \<open>Steps\<close>

lemma extends_flag [simp]: "extends y (y\<lparr>ns_flag := f\<rparr>)"
  by (simp add: extends_def)

lemma inv_position:
  assumes inv: "native_inv y" and t: "ns_appends y c = Some (en, Loaded)"
    and q: "seq_next_pos (ns_seq y) = (Some pos, q)" and nw: "pos + 1 \<noteq> 0"
  shows "native_inv (set_append c en (Storing pos Map.empty) (y\<lparr>ns_seq := q, ns_assigned := (ns_assigned y)(pos \<mapsto> en)\<rparr>))"
proof -
  let ?y = "y\<lparr>ns_seq := q, ns_assigned := (ns_assigned y)(pos \<mapsto> en)\<rparr>"
  have pos: "pos = sq_next_pos (ns_seq y)" "sq_next_pos q = pos + 1" "\<not> sq_sealed (ns_seq y)"
    using q by (auto simp: seq_next_pos_def split: if_splits)
  have p: "positions_ok y" and s: "servers_ok y" using inv by (auto simp: native_inv_def)
  have un: "unat (pos + 1) = Suc (unat pos)" using nw by (simp add: unatSuc add.commute)
  have lt: "p < pos + 1 \<longleftrightarrow> p < pos \<or> p = pos" for p
    unfolding word_less_nat_alt un by (auto simp: less_Suc_eq word_unat_eq_iff)
  have fresh: "ns_assigned y pos = None"
    using p pos(1) unfolding positions_ok_def by (metis less_irrefl)
  have ext: "extends y ?y" using fresh pos(3) by (auto simp: extends_def holders_def)
  have "phase_pos ph \<noteq> Some pos" if "ns_appends y d = Some (e, ph)" for d e ph
  proof
    assume "phase_pos ph = Some pos"
    moreover have "phase_ok y e ph" using inv that by (auto simp: native_inv_def)
    ultimately show False using fresh by (cases "(y, e, ph)" rule: phase_ok.cases) auto
  qed
  then have "c1 = d1" if "ns_appends (set_append c en (Storing pos Map.empty) ?y) c1 = Some (e1, ph1)"
    "ns_appends (set_append c en (Storing pos Map.empty) ?y) d1 = Some (e2, ph2)"
    "phase_pos ph1 = Some p1" "phase_pos ph2 = Some p1" for c1 d1 e1 e2 ph1 ph2 p1
    using that p unfolding positions_ok_def by (auto split: if_splits)
  moreover have beg: "LOG_POS_BEGIN \<le> pos" using p pos(1) by (simp add: positions_ok_def)
  moreover have "LOG_POS_BEGIN \<le> pos + 1" using beg un unfolding word_le_nat_alt by simp
  moreover have "((ns_assigned y)(pos \<mapsto> en)) p1 \<noteq> None \<longleftrightarrow> LOG_POS_BEGIN \<le> p1 \<and> p1 < pos + 1" for p1
    using p pos(1) lt[of p1] beg unfolding positions_ok_def by auto
  ultimately have "positions_ok (set_append c en (Storing pos Map.empty) ?y)"
    using pos(2) unfolding positions_ok_def by (simp del: fun_upd_apply)
  moreover have "servers_ok ?y"
    using s fresh pos(1,2) un unfolding servers_ok_def by (force simp: word_le_nat_alt)
  ultimately show ?thesis using ext inv by (intro inv_append[OF inv]) auto
qed

lemma inv_store:
  assumes inv: "native_inv y" and t: "ns_appends y c = Some (en, Storing pos rs)"
    and i: "i < length (ns_servers y)" and r: "ls_store pos en (ns_servers y ! i) = (r, s)"
  shows "native_inv (set_append c en (Storing pos (rs(i \<mapsto> r))) (set_server i s y))"
proof -
  have p: "positions_ok y" and so: "servers_ok y" and ph: "phase_ok y en (Storing pos rs)"
    using native_invD(1,2)[OF inv] native_invD(4)[OF inv t] by blast+
  note sv = servers_okD[OF so i] and st = ls_store_facts[OF servers_okD(1)[OF so i] r]
  have asg: "ns_assigned y pos = Some en" using ph by simp
  then have "pos < sq_next_pos (ns_seq y)" using p unfolding positions_ok_def by auto
  then have "pos + 1 \<le> sq_next_pos (ns_seq y)" by (rule inc_le)
  with st(2) sv(2) have "ls_tail s \<le> sq_next_pos (ns_seq y)" by auto
  moreover have entries: "ns_assigned y p = Some e" if "bt_get (ls_entries s) p = Some e" for p e
    using st(4)[OF that] sv(3) asg by auto
  ultimately have so': "servers_ok (set_server i s y)"
    using servers_ok_server[OF so st(1)] by blast
  have ext: "extends y (set_server i s y)" using extends_server[OF i st(3)] .
  have "held pos en s" if "r = Inr b" for b
    using st(5)[OF that] entries[of pos] asg by (auto simp: held_def)
  then have "phase_ok (set_server i s y) en (Storing pos (rs(i \<mapsto> r)))"
    using phase_ok_extends[OF ext ph] i by (auto simp: holders_def)
  with so' ext show ?thesis
    using t by (intro inv_append[OF inv] positions_ok_append[OF p]) auto
qed

lemma inv_finish:
  assumes inv: "native_inv y" and t: "ns_appends y c = Some (en, Storing pos rs)"
    and d: "\<forall>i < length (ns_servers y). rs i \<noteq> None"
    and r: "r = append_outcome (ns_quorum y) pos (all_replies (length (ns_servers y)) rs)"
  shows "native_inv (set_append c en (Finished r) (y\<lparr>ns_flag := f\<rparr>))"
proof -
  have p: "positions_ok y" and so: "servers_ok y" and ph: "phase_ok y en (Storing pos rs)"
    using native_invD(1,2)[OF inv] native_invD(4)[OF inv t] by blast+
  have "phase_ok y en (Finished r) \<and> (phase_pos (Finished r) = None \<or> phase_pos (Finished r) = Some pos)"
  proof (cases r)
    case (Inr pos')
    then have o: "pos' = pos" "ns_quorum y \<le> card {i. i < length (ns_servers y) \<and> \<not> isl (the (rs i))}"
      using append_outcome_ok[of "ns_quorum y" pos "length (ns_servers y)" rs pos'] r by simp_all
    have "{i. i < length (ns_servers y) \<and> \<not> isl (the (rs i))} \<subseteq> holders y pos en"
    proof
      fix i assume "i \<in> {i. i < length (ns_servers y) \<and> \<not> isl (the (rs i))}"
      moreover from this obtain v where "rs i = Some v" using d by auto
      ultimately show "i \<in> holders y pos en" using ph by (cases v) auto
    qed
    from card_mono[OF _ this] o ph Inr show ?thesis by simp
  qed simp
  then have "phase_ok (y\<lparr>ns_flag := f\<rparr>) en (Finished r)"
    "phase_pos (Finished r) = None \<or> phase_pos (Finished r) = Some pos"
    using phase_ok_extends[OF extends_flag] by auto
  with so t show ?thesis
    by (intro inv_append[OF inv] positions_ok_append[OF p]) auto
qed

lemma native_inv_step: "native_step y y' \<Longrightarrow> native_inv y \<Longrightarrow> native_inv y'"
proof (induction rule: native_step.induct)
  case (append_load y c en)
  then show ?case
    by (intro inv_append positions_ok_append[of y]) (auto simp: native_inv_def extends_def)
next
  case (append_fast_fail y c en)
  then show ?case
    by (intro inv_append positions_ok_append[of y]) (auto simp: native_inv_def extends_def)
next
  case (append_position y c en pos q)
  then show ?case by (intro inv_position)
next
  case (append_refused y c en q)
  then have "q = ns_seq y" by (auto simp: seq_next_pos_def split: if_splits)
  then have "y\<lparr>ns_seq := q, ns_flag := True\<rparr> = y\<lparr>ns_flag := True\<rparr>" by simp
  moreover have "native_inv (set_append c en (Finished (Inl (Sealed (seq_check_tail q)))) (y\<lparr>ns_flag := True\<rparr>))"
    using append_refused by (intro inv_append[of y] positions_ok_append[of y]) (auto simp: native_inv_def)
  ultimately show ?case by simp
next
  case (server_store y c en pos rs i r s)
  then show ?case by (intro inv_store)
next
  case (append_finish y c en pos rs r)
  then show ?case by (intro inv_finish)
next
  case (seal_sequencer y c tail q)
  then have q: "tail = sq_next_pos (ns_seq y)" "q = (ns_seq y)\<lparr>sq_sealed := True\<rparr>" by (auto simp: seq_seal_def)
  have "extends y (y\<lparr>ns_seq := q\<rparr>)" using q(2) by (simp add: extends_def seal_again)
  moreover have "positions_ok (set_seal c (Sealing tail Map.empty) (y\<lparr>ns_seq := q\<rparr>))"
    by (rule positions_ok_other[OF native_invD(2)[OF seal_sequencer(3)]]) (simp_all add: q(2))
  moreover have "servers_ok (y\<lparr>ns_seq := q\<rparr>)"
    using native_invD(1)[OF seal_sequencer(3)] q(2) by (simp add: servers_ok_def)
  ultimately show ?case using seal_sequencer q by (intro inv_seal) auto
next
  case (server_seal y c tail rs i t s)
  then have so: "servers_ok y" and sl: "seal_ok y (Sealing tail rs)" using native_invD by blast+
  have s: "t = ls_tail (ns_servers y ! i)" "s = (ns_servers y ! i)\<lparr>ls_sealed := True\<rparr>"
    using server_seal by (auto simp: ls_seal_def)
  note sv = servers_okD[OF so server_seal(2)]
  have "extends y (set_server i s y)"
    using server_seal(2) s by (intro extends_server) (auto simp: held_def)
  moreover have "servers_ok (set_server i s y)"
    using servers_ok_server[OF so, of s] sv s by auto
  moreover have "positions_ok (set_seal c (Sealing tail (rs(i \<mapsto> t))) (set_server i s y))"
    by (rule positions_ok_other[OF native_invD(2)[OF server_seal(5)]]) simp_all
  ultimately show ?case
    using server_seal(5) sl sv(2) s by (intro inv_seal) auto
next
  case (seal_finish y c tail rs r)
  then have sl: "seal_ok y (Sealing tail rs)" and p: "positions_ok y" using native_invD by blast+
  have "t \<le> tail" if "t \<in> set (all_replies (length (ns_servers y)) rs)" for t
  proof -
    from that obtain i where "i < length (ns_servers y)" "t = the (rs i)" by (auto simp: all_replies_def)
    moreover from this obtain v where "rs i = Some v" using seal_finish(2) by auto
    ultimately show ?thesis using sl by auto
  qed
  then have "r = Inr final \<Longrightarrow> final = tail" for final
    using seal_outcome_ok[of "ns_quorum y" tail _ final] seal_finish(3) sl p by (auto simp: positions_ok_def)
  then have "seal_ok y (SealFinished r)" using sl by (cases r) auto
  then have "seal_ok (y\<lparr>ns_flag := (ns_flag y \<or> \<not> isl r)\<rparr>) (SealFinished r)"
    by (rule seal_ok_extends[OF extends_flag])
  moreover have "positions_ok (set_seal c (SealFinished r) (y\<lparr>ns_flag := (ns_flag y \<or> \<not> isl r)\<rparr>))"
    by (rule positions_ok_other[OF p]) simp_all
  ultimately show ?case using seal_finish(4) by (intro inv_seal) (auto simp: native_inv_def)
next
  case (server_trim i y p)
  then have so: "servers_ok y" by (simp add: native_inv_def)
  note tf = ls_trim_facts[OF servers_okD(1)[OF so server_trim(1)]] and sv = servers_okD[OF so server_trim(1)]
  have ext: "extends y (set_server i (ls_trim p (ns_servers y ! i)) y)"
    using extends_server[OF server_trim(1) tf(3)] .
  moreover have "servers_ok (set_server i (ls_trim p (ns_servers y ! i)) y)"
    using servers_ok_server[OF so tf(1)] tf(2) tf(4) sv by auto
  moreover have "positions_ok (set_server i (ls_trim p (ns_servers y ! i)) y)"
    by (rule positions_ok_other[OF native_invD(2)[OF server_trim(2)]]) simp_all
  ultimately show ?case
    using server_trim(2) phase_ok_extends[OF ext] seal_ok_extends[OF ext] unfolding native_inv_def by auto
qed

lemma native_inv_init: "0 < n \<Longrightarrow> native_inv (native_init n)"
  by (auto simp: native_inv_def native_init_def servers_ok_def positions_ok_def sequencer_new_def
    log_server_new_def bt_ok_empty bt_get_empty LOG_POS_BEGIN_def)

lemma native_reach_inv:
  assumes "native_reach (native_init n) y" "0 < n"
  shows "native_inv y"
  using assms(1) unfolding native_reach_def
  by (induction rule: rtranclp_induct) (use native_inv_init[OF assms(2)] native_inv_step in blast)+

section \<open>Schedules\<close>

text \<open>The steps as a function, so that a schedule can be run.\<close>

datatype native_event =
    ELoad nat entry | EPosition nat | EStore nat nat | EFinish nat
  | ESealSequencer nat | ESealServer nat nat | ESealFinish nat

fun native_exec :: "native_event \<Rightarrow> native_sys \<Rightarrow> native_sys option" where
  "native_exec (ELoad c en) y =
     (if ns_appends y c = None then
        Some (if ns_flag y then set_append c en (Finished (Inl (Sealed (seq_check_tail (ns_seq y))))) y
              else set_append c en Loaded y)
      else None)"
| "native_exec (EPosition c) y =
     (case ns_appends y c of
        Some (en, Loaded) \<Rightarrow>
          (case seq_next_pos (ns_seq y) of
             (Some pos, q) \<Rightarrow>
               if pos + 1 \<noteq> 0 then Some (set_append c en (Storing pos Map.empty)
                 (y\<lparr>ns_seq := q, ns_assigned := (ns_assigned y)(pos \<mapsto> en)\<rparr>)) else None
           | (None, q) \<Rightarrow> Some (set_append c en (Finished (Inl (Sealed (seq_check_tail q))))
               (y\<lparr>ns_seq := q, ns_flag := True\<rparr>)))
      | _ \<Rightarrow> None)"
| "native_exec (EStore c i) y =
     (case ns_appends y c of
        Some (en, Storing pos rs) \<Rightarrow>
          (if i < length (ns_servers y) \<and> rs i = None then
             (case ls_store pos en (ns_servers y ! i) of
                (r, s) \<Rightarrow> Some (set_append c en (Storing pos (rs(i \<mapsto> r))) (set_server i s y)))
           else None)
      | _ \<Rightarrow> None)"
| "native_exec (EFinish c) y =
     (case ns_appends y c of
        Some (en, Storing pos rs) \<Rightarrow>
          (if \<forall>i \<in> set [0..<length (ns_servers y)]. rs i \<noteq> None then
             (let r = append_outcome (ns_quorum y) pos (all_replies (length (ns_servers y)) rs)
              in Some (set_append c en (Finished r) (y\<lparr>ns_flag := raise_flag r (ns_flag y)\<rparr>)))
           else None)
      | _ \<Rightarrow> None)"
| "native_exec (ESealSequencer c) y =
     (if ns_seals y c = None then
        (case seq_seal (ns_seq y) of (tail, q) \<Rightarrow> Some (set_seal c (Sealing tail Map.empty) (y\<lparr>ns_seq := q\<rparr>)))
      else None)"
| "native_exec (ESealServer c i) y =
     (case ns_seals y c of
        Some (Sealing tail rs) \<Rightarrow>
          (if i < length (ns_servers y) \<and> rs i = None then
             (case ls_seal (ns_servers y ! i) of
                (t, s) \<Rightarrow> Some (set_seal c (Sealing tail (rs(i \<mapsto> t))) (set_server i s y)))
           else None)
      | _ \<Rightarrow> None)"
| "native_exec (ESealFinish c) y =
     (case ns_seals y c of
        Some (Sealing tail rs) \<Rightarrow>
          (if \<forall>i \<in> set [0..<length (ns_servers y)]. rs i \<noteq> None then
             (let r = seal_outcome (ns_quorum y) tail (all_replies (length (ns_servers y)) rs)
              in Some (set_seal c (SealFinished r) (y\<lparr>ns_flag := (ns_flag y \<or> \<not> isl r)\<rparr>)))
           else None)
      | _ \<Rightarrow> None)"

fun native_schedule :: "native_event list \<Rightarrow> native_sys \<Rightarrow> native_sys option" where
  "native_schedule [] y = Some y"
| "native_schedule (e # es) y = Option.bind (native_exec e y) (native_schedule es)"

lemma native_exec_step: "native_exec e y = Some y' \<Longrightarrow> native_step y y'"
  by (induction e y rule: native_exec.induct)
    (auto simp: Let_def split: option.splits prod.splits append_phase.splits seal_phase.splits if_splits
      intro: native_step.intros)

lemma native_schedule_reach: "native_schedule es y = Some y' \<Longrightarrow> native_reach y y'"
proof (induction es arbitrary: y)
  case (Cons e es)
  then obtain y1 where "native_exec e y = Some y1" "native_schedule es y1 = Some y'"
    by (auto simp: bind_eq_Some_conv)
  with Cons.IH native_exec_step show ?case
    unfolding native_reach_def by (meson converse_rtranclp_into_rtranclp)
qed (simp add: native_reach_def)

section \<open>Properties\<close>

text \<open>A finished task stays finished, and the number of servers and the quorum never change.\<close>

lemma finished_step:
  "native_step y y' \<Longrightarrow> ns_appends y c = Some (en, Finished r) \<Longrightarrow> ns_appends y' c = Some (en, Finished r)"
  by (induction rule: native_step.induct) auto

lemma seal_finished_step:
  "native_step y y' \<Longrightarrow> ns_seals y c = Some (SealFinished r) \<Longrightarrow> ns_seals y' c = Some (SealFinished r)"
  by (induction rule: native_step.induct) auto

lemma quorum_step: "native_step y y' \<Longrightarrow> ns_quorum y' = ns_quorum y"
  by (induction rule: native_step.induct) auto

lemma finished_reach:
  assumes "native_reach y y'"
  shows "ns_appends y c = Some (en, Finished r) \<Longrightarrow> ns_appends y' c = Some (en, Finished r)"
    and "ns_seals y d = Some (SealFinished q) \<Longrightarrow> ns_seals y' d = Some (SealFinished q)"
    and "ns_quorum y' = ns_quorum y"
  using assms unfolding native_reach_def
  by (induction rule: rtranclp_induct) (auto dest: finished_step seal_finished_step quorum_step)

lemma native_reach_trans: "native_reach x y \<Longrightarrow> native_reach y z \<Longrightarrow> native_reach x z"
  by (simp add: native_reach_def)

lemma read_held:
  assumes "\<forall>s \<in> set ss. \<forall>e. bt_get (ls_entries s) p = Some e \<longrightarrow> e = en" "\<exists>s \<in> set ss. held p en s"
  shows "read_servers p ss \<in> {Inr (Some en), Inl (Trimmed p)}"
  using assms by (induction ss) (auto simp: ls_read_def held_def split: option.splits if_splits)

text \<open>A schedule in which one append is acknowledged and the loglet is then sealed.\<close>

definition good_schedule :: "native_event list" where
  "good_schedule = [ELoad 0 (entry_new [7]), EPosition 0, EStore 0 2, EStore 0 0, EStore 0 1, EFinish 0,
     ESealSequencer 0, ESealServer 0 1, ESealServer 0 0, ESealServer 0 2, ESealFinish 0]"

lemmas schedule_simps = native_init_def sequencer_new_def log_server_new_def LOG_POS_BEGIN_def
  set_append_def set_seal_def set_server_def seq_next_pos_def seq_seal_def seq_check_tail_def ls_store_def ls_seal_def
  bt_empty_def bt_get_def append_outcome_def seal_outcome_def all_replies_def raise_flag_def upt_rec

lemma good_run:
  "\<exists>y. native_schedule good_schedule (native_init 3) = Some y \<and>
     ns_appends y 0 = Some (entry_new [7], Finished (Inr 1)) \<and> ns_seals y 0 = Some (SealFinished (Inr 2))"
  by (simp add: good_schedule_def schedule_simps numeral_3_eq_3)


definition ghost_schedule :: "native_event list" where
  "ghost_schedule = [ELoad 0 (entry_new [7]), EPosition 0, ESealSequencer 0, EStore 0 0, ESealServer 0 0,
     ESealServer 0 1, ESealServer 0 2, ESealFinish 0, EStore 0 1, EStore 0 2, EFinish 0]"

text \<open>C16. An acknowledged append is durable and reads agree: once an append has returned a position, in
  every later state a majority of the servers has its entry at that position (or has trimmed it),
  and a read of the position returns that entry, or reports the trim; never another entry, and
  never nothing. This holds under every interleaving of appends, seals and trims.\<close>

theorem acked_append_durable:
  assumes "0 < n" and "native_reach (native_init n) y" and "ns_appends y c = Some (en, Finished (Inr pos))"
    and "native_reach y y'"
  shows "n div 2 + 1 \<le> card (holders y' pos en) \<and>
         read_servers pos (ns_servers y') \<in> {Inr (Some en), Inl (Trimmed pos)}"
proof -
  have r: "native_reach (native_init n) y'" using native_reach_trans[OF assms(2,4)] .
  have inv: "native_inv y'" using native_reach_inv[OF r assms(1)] .
  have q: "ns_quorum y' = n div 2 + 1" using finished_reach(3)[OF r] by (simp add: native_init_def)
  have ok: "phase_ok y' en (Finished (Inr pos))"
    using native_invD(4)[OF inv finished_reach(1)[OF assms(4,3)]] .
  then have card: "n div 2 + 1 \<le> card (holders y' pos en)" and asg: "ns_assigned y' pos = Some en"
    using q by simp_all
  from card have "holders y' pos en \<noteq> {}" by (intro notI) simp
  then have "\<exists>s \<in> set (ns_servers y'). held pos en s" by (auto simp: holders_def)
  moreover have "\<forall>s \<in> set (ns_servers y'). \<forall>e. bt_get (ls_entries s) pos = Some e \<longrightarrow> e = en"
    using native_invD(1)[OF inv] asg unfolding servers_ok_def by fastforce
  ultimately show ?thesis using card read_held by blast
qed

theorem acked_append_durable_witness:
  "\<exists>y. native_reach (native_init 3) y \<and> 2 \<le> card (holders y 1 (entry_new [7])) \<and>
     read_servers 1 (ns_servers y) \<in> {Inr (Some (entry_new [7])), Inl (Trimmed 1)}"
proof -
  obtain y where y: "native_schedule good_schedule (native_init 3) = Some y"
    "ns_appends y 0 = Some (entry_new [7], Finished (Inr 1))"
    using good_run by blast
  have "native_reach (native_init 3) y" "native_reach y y"
    using native_schedule_reach[OF y(1)] by (simp_all add: native_reach_def)
  with acked_append_durable[OF _ this(1) y(2) this(2)] show ?thesis by auto
qed

text \<open>C35. The sequencer gives no position twice: two appends that were both acknowledged have
  different positions, and these lie between the first position and the sequencer's tail.\<close>

theorem acked_positions_distinct:
  assumes "0 < n" and "native_reach (native_init n) y" and "ns_appends y c = Some (en, Finished (Inr pos))"
    and "ns_appends y d = Some (en', Finished (Inr pos'))" and "c \<noteq> d"
  shows "pos \<noteq> pos' \<and> LOG_POS_BEGIN \<le> pos \<and> pos < seq_check_tail (ns_seq y)"
proof -
  have inv: "native_inv y" using native_reach_inv[OF assms(2,1)] .
  have "pos \<noteq> pos'"
  proof
    assume "pos = pos'"
    then have "phase_pos (Finished (Inr pos)) = Some pos" "phase_pos (Finished (Inr pos')) = Some pos" by simp_all
    with native_invD(2)[OF inv] assms(3-5) show False unfolding positions_ok_def by blast
  qed
  moreover have "ns_assigned y pos \<noteq> None" using native_invD(4)[OF inv assms(3)] by simp
  ultimately show ?thesis
    using native_invD(2)[OF inv] unfolding positions_ok_def seq_check_tail_def by blast
qed

definition two_appends :: "native_event list" where
  "two_appends = [ELoad 0 (entry_new [7]), ELoad 1 (entry_new [8]), EPosition 1, EPosition 0, EStore 0 0, EStore 1 0,
     EFinish 1, EFinish 0]"

theorem acked_positions_distinct_witness:
  "\<exists>y. native_reach (native_init 1) y \<and> ns_appends y 0 = Some (entry_new [7], Finished (Inr 2)) \<and>
     ns_appends y 1 = Some (entry_new [8], Finished (Inr 1)) \<and> (2::u64) \<noteq> 1 \<and> 2 < seq_check_tail (ns_seq y)"
proof -
  have "\<exists>y. native_schedule two_appends (native_init 1) = Some y \<and>
      ns_appends y 0 = Some (entry_new [7], Finished (Inr 2)) \<and> ns_appends y 1 = Some (entry_new [8], Finished (Inr 1))"
    by (simp add: two_appends_def schedule_simps)
  then obtain y where y: "native_schedule two_appends (native_init 1) = Some y"
    "ns_appends y 0 = Some (entry_new [7], Finished (Inr 2))" "ns_appends y 1 = Some (entry_new [8], Finished (Inr 1))"
    by blast
  from acked_positions_distinct[OF _ native_schedule_reach[OF y(1)] y(2,3)] y native_schedule_reach[OF y(1)]
  show ?thesis by auto
qed

text \<open>C17. A completed seal is final: from then on, under every interleaving, the sequencer's tail is the
  position the seal returned, every append that was or will be acknowledged lies below it, and
  every other seal that completes returns the same tail.\<close>

theorem seal_is_final:
  assumes "0 < n" and "native_reach (native_init n) y" and "ns_seals y d = Some (SealFinished (Inr T))"
    and "native_reach y y'"
  shows "seq_check_tail (ns_seq y') = T \<and>
         (\<forall>c en pos. ns_appends y' c = Some (en, Finished (Inr pos)) \<longrightarrow> pos < T) \<and>
         (\<forall>e T'. ns_seals y' e = Some (SealFinished (Inr T')) \<longrightarrow> T' = T)"
proof -
  have inv: "native_inv y'" using native_reach_inv[OF native_reach_trans[OF assms(2,4)] assms(1)] .
  have t: "T = sq_next_pos (ns_seq y')"
    using native_invD(5)[OF inv finished_reach(2)[OF assms(4,3)]] by simp
  have "pos < T" if "ns_appends y' c = Some (en, Finished (Inr pos))" for c en pos
    using native_invD(4)[OF inv that] native_invD(2)[OF inv] t unfolding positions_ok_def by auto
  moreover have "T' = T" if "ns_seals y' e = Some (SealFinished (Inr T'))" for e T'
    using native_invD(5)[OF inv that] t by simp
  ultimately show ?thesis using t by (auto simp: seq_check_tail_def)
qed

theorem seal_is_final_witness:
  "\<exists>y. native_reach (native_init 3) y \<and> ns_seals y 0 = Some (SealFinished (Inr 2)) \<and> seq_check_tail (ns_seq y) = 2"
proof -
  obtain y where y: "native_schedule good_schedule (native_init 3) = Some y"
    "ns_seals y 0 = Some (SealFinished (Inr 2))"
    using good_run by blast
  have r: "native_reach (native_init 3) y" "native_reach y y"
    using native_schedule_reach[OF y(1)] by (simp_all add: native_reach_def)
  have "seq_check_tail (ns_seq y) = 2" using seal_is_final[OF _ r(1) y(2) r(2)] by simp
  with r y show ?thesis by blast
qed


text \<open>An append that failed can still be in the log: there is an interleaving in which one server
  stores the entry before it is sealed and the others refuse it; the append returns \<open>Sealed\<close>, on
  which the virtual log appends the entry again, but a read of its position returns the entry.\<close>

theorem failed_append_visible:
  "\<exists>y. native_reach (native_init 3) y \<and> ns_seals y 0 = Some (SealFinished (Inr 2)) \<and>
     ns_appends y = [0 \<mapsto> (entry_new [7], Finished (Inl (Sealed 1)))] \<and>
     read_servers 1 (ns_servers y) = Inr (Some (entry_new [7]))"
proof -
  have "\<exists>y. native_schedule ghost_schedule (native_init 3) = Some y \<and> ns_seals y 0 = Some (SealFinished (Inr 2)) \<and>
      ns_appends y = [0 \<mapsto> (entry_new [7], Finished (Inl (Sealed 1)))] \<and>
      read_servers 1 (ns_servers y) = Inr (Some (entry_new [7]))"
    by (simp add: ghost_schedule_def schedule_simps numeral_3_eq_3 ls_read_def)
  then show ?thesis using native_schedule_reach by blast
qed

end
