(* ===== verification/Native_Virtual_Log.thy ===== *)
theory Native_Virtual_Log
  imports Native_Concurrent Virtual_Log_Concurrent
begin

text \<open>
  A virtual log over native loglets, as \<open>NativeLogletFactory\<close> makes them (three log servers by
  default): since a native loglet meets the contract of a loglet, the same history theorem holds.
\<close>

interpretation nvl: chained_log native_ops nl_rel "native_factory 3"
  by unfold_locales (simp add: native_factory_def nl_rel_new)

text \<open>C22. One log out of many replicated loglets: on a virtual log over native loglets with three log
  servers, any history of appends, with seals of the active loglet anywhere in between, completes;
  the appends get consecutive positions, the tail is one past the last, and every position reads
  back the entry appended there, across all reconfigurations.\<close>

theorem native_virtual_log_total_order:
  assumes "\<forall>k \<ge> 1. i \<noteq> loglet_name k" and "length (appended es) + 1 < 2 ^ 64"
  shows "\<exists>v v'. vl_new (native_factory 3) (meta_new (chain_new i)) = Inr v \<and>
           log_run (vl_ops native_ops (native_factory 3)) es v =
             Some (Inr (map of_nat [1..<Suc (length (appended es))]), v') \<and>
           vl_check_tail native_ops v' = Inr (of_nat (Suc (length (appended es)))) \<and>
           (\<forall>k < length (appended es). vl_read native_ops (of_nat (Suc k)) v' = Inr (Some (appended es ! k)))"
  by (rule nvl.history_spec) fact+

theorem native_virtual_log_total_order_witness:
  "\<exists>v v'. vl_new (native_factory 3) (meta_new (chain_new ''memory-0'')) = Inr v \<and>
     log_run (vl_ops native_ops (native_factory 3)) [Append (entry_new [7]), Seal, Append (entry_new [8])] v =
       Some (Inr [1, 2], v') \<and> vl_check_tail native_ops v' = Inr 3"
proof -
  have "\<forall>k \<ge> 1. ''memory-0'' \<noteq> loglet_name k" using loglet_name_not_memory by metis
  from native_virtual_log_total_order[OF this, of "[Append (entry_new [7]), Seal, Append (entry_new [8])]"]
  show ?thesis by auto
qed

end
