(* ===== verification/Native_Faults.thy ===== *)
theory Native_Faults
  imports Native_Concurrent
begin

text \<open>
  The native loglet when its tasks die (\<open>native_loglet.rs\<close>). The sequencer and the log servers are
  tasks behind channels: a call finds the channel of a dead task closed, and when a task dies with a
  request in its channel the reply is dropped. \<open>Native_Loglet\<close> has the operations while every task
  lives; here each call also gets the fate of every task it talks to, and a dead task is \<open>None\<close>, its
  memory lost.
\<close>

section \<open>Tasks\<close>

text \<open>What happens to a task around one request: it handles it, it is found dead, or it dies with the
  request unanswered.\<close>

datatype fate = Handles | DiesBefore | DiesAfter

record native_tasks =
  nt_sequencer :: "sequencer option"
  nt_servers :: "log_server option list"
  nt_quorum_size :: nat
  nt_sealed :: bool

definition nt_new :: "nat \<Rightarrow> native_tasks option" where
  "nt_new num_servers =
     (if num_servers > 0 then
        Some \<lparr>nt_sequencer = Some sequencer_new, nt_servers = replicate num_servers (Some log_server_new),
              nt_quorum_size = num_servers div 2 + 1, nt_sealed = False\<rparr>
      else None)"

text \<open>The fates of one call: of the sequencer at each of its requests, and of each log server.\<close>

record faults =
  seq_fate :: "nat \<Rightarrow> fate"
  server_fate :: "nat \<Rightarrow> fate"

definition no_faults :: faults where
  "no_faults = \<lparr>seq_fate = (\<lambda>_. Handles), server_fate = (\<lambda>_. Handles)\<rparr>"

text \<open>Sending a request: \<open>None\<close> is the error of a closed channel, and the reply is missing when it was
  dropped.\<close>

definition send :: "fate \<Rightarrow> ('s \<Rightarrow> 'r \<times> 's) \<Rightarrow> 's option \<Rightarrow> 'r option option \<times> 's option" where
  "send ft f task =
     (case task of
        None \<Rightarrow> (None, None)
      | Some s \<Rightarrow>
          (case ft of
             DiesBefore \<Rightarrow> (None, None)
           | DiesAfter \<Rightarrow> (Some None, None)
           | Handles \<Rightarrow> (case f s of (r, s') \<Rightarrow> (Some (Some r), Some s'))))"

section \<open>The handles\<close>

definition ask_sequencer :: "fate \<Rightarrow> (sequencer \<Rightarrow> 'r \<times> sequencer) \<Rightarrow> sequencer option \<Rightarrow> 'r result \<times> sequencer option" where
  "ask_sequencer ft f q =
     (case send ft f q of
        (None, q') \<Rightarrow> (Inl (Internal ''sequencer task gone''), q')
      | (Some None, q') \<Rightarrow> (Inl (Internal ''sequencer reply dropped''), q')
      | (Some (Some r), q') \<Rightarrow> (Inr r, q'))"

definition handle_next_pos :: "fate \<Rightarrow> sequencer option \<Rightarrow> LogPos option result \<times> sequencer option" where
  "handle_next_pos ft q = ask_sequencer ft seq_next_pos q"

definition handle_seal :: "fate \<Rightarrow> sequencer option \<Rightarrow> LogPos result \<times> sequencer option" where
  "handle_seal ft q = ask_sequencer ft seq_seal q"

definition handle_check_tail :: "fate \<Rightarrow> sequencer option \<Rightarrow> LogPos result \<times> sequencer option" where
  "handle_check_tail ft q = ask_sequencer ft (\<lambda>s. (seq_check_tail s, s)) q"

definition handle_read :: "fate \<Rightarrow> LogPos \<Rightarrow> log_server option \<Rightarrow> read_result result \<times> log_server option" where
  "handle_read ft pos t =
     (case send ft (\<lambda>s. (ls_read pos s, s)) t of
        (None, t') \<Rightarrow> (Inl (Internal ''log server task gone''), t')
      | (Some None, t') \<Rightarrow> (Inl (Internal ''log server reply dropped''), t')
      | (Some (Some r), t') \<Rightarrow> (Inr r, t'))"

text \<open>The requests of a fan-out are sent in order and the first closed channel ends it; the servers
  that were reached before handle their request all the same.\<close>

fun fan_out :: "(log_server \<Rightarrow> 'r \<times> log_server) \<Rightarrow> (nat \<Rightarrow> fate) \<Rightarrow> nat \<Rightarrow> log_server option list \<Rightarrow>
  'r option list result \<times> log_server option list" where
  "fan_out f ft i [] = (Inr [], [])"
| "fan_out f ft i (t # ts) =
     (case send (ft i) f t of
        (None, t') \<Rightarrow> (Inl (Internal ''log server task gone''), t' # ts)
      | (Some r, t') \<Rightarrow>
          (case fan_out f ft (Suc i) ts of
             (Inl err, ts') \<Rightarrow> (Inl err, t' # ts')
           | (Inr rs, ts') \<Rightarrow> (Inr (r # rs), t' # ts')))"

definition received :: "'r option list \<Rightarrow> 'r list" where
  "received rs = List.map_filter (\<lambda>r. r) rs"

section \<open>The loglet\<close>

definition fail_sealed :: "fate \<Rightarrow> native_tasks \<Rightarrow> LogPos result \<times> native_tasks" where
  "fail_sealed ft l =
     (case handle_check_tail ft (nt_sequencer l) of
        (Inl err, q) \<Rightarrow> (Inl err, l\<lparr>nt_sequencer := q\<rparr>)
      | (Inr tail, q) \<Rightarrow> (Inl (Sealed tail), l\<lparr>nt_sequencer := q\<rparr>))"

definition nt_append :: "faults \<Rightarrow> entry \<Rightarrow> native_tasks \<Rightarrow> LogPos result \<times> native_tasks" where
  "nt_append fl en l =
     (if nt_sealed l then fail_sealed (seq_fate fl 0) l
      else
        (case handle_next_pos (seq_fate fl 0) (nt_sequencer l) of
           (Inl err, q) \<Rightarrow> (Inl err, l\<lparr>nt_sequencer := q\<rparr>)
         | (Inr None, q) \<Rightarrow> fail_sealed (seq_fate fl 1) (l\<lparr>nt_sequencer := q, nt_sealed := True\<rparr>)
         | (Inr (Some pos), q) \<Rightarrow>
             (case fan_out (ls_store pos en) (server_fate fl) 0 (nt_servers l) of
                (Inl err, ts) \<Rightarrow> (Inl err, l\<lparr>nt_sequencer := q, nt_servers := ts\<rparr>)
              | (Inr replies, ts) \<Rightarrow>
                  (let l' = l\<lparr>nt_sequencer := q, nt_servers := ts\<rparr> in
                   case append_outcome (nt_quorum_size l) pos (received replies) of
                     Inr pos \<Rightarrow> (Inr pos, l')
                   | Inl err \<Rightarrow> (Inl err, if is_Sealed err then l'\<lparr>nt_sealed := True\<rparr> else l')))))"

definition nt_check_tail :: "faults \<Rightarrow> native_tasks \<Rightarrow> LogPos result \<times> native_tasks" where
  "nt_check_tail fl l =
     (case handle_check_tail (seq_fate fl 0) (nt_sequencer l) of (r, q) \<Rightarrow> (r, l\<lparr>nt_sequencer := q\<rparr>))"

fun read_tasks :: "LogPos \<Rightarrow> (nat \<Rightarrow> fate) \<Rightarrow> nat \<Rightarrow> log_server option list \<Rightarrow> entry option result \<times> log_server option list" where
  "read_tasks pos ft i [] = (Inr None, [])"
| "read_tasks pos ft i (t # ts) =
     (case handle_read (ft i) pos t of
        (Inl err, t') \<Rightarrow> (Inl err, t' # ts)
      | (Inr (REntry en), t') \<Rightarrow> (Inr (Some en), t' # ts)
      | (Inr RTrimmed, t') \<Rightarrow> (Inl (Trimmed pos), t' # ts)
      | (Inr RNotFound, t') \<Rightarrow> (case read_tasks pos ft (Suc i) ts of (r, ts') \<Rightarrow> (r, t' # ts')))"

definition nt_read :: "faults \<Rightarrow> LogPos \<Rightarrow> native_tasks \<Rightarrow> entry option result \<times> native_tasks" where
  "nt_read fl pos l =
     (case read_tasks pos (server_fate fl) 0 (nt_servers l) of (r, ts) \<Rightarrow> (r, l\<lparr>nt_servers := ts\<rparr>))"

definition nt_trim :: "faults \<Rightarrow> LogPos \<Rightarrow> native_tasks \<Rightarrow> unit result \<times> native_tasks" where
  "nt_trim fl pos l =
     (case fan_out (\<lambda>s. ((), ls_trim pos s)) (server_fate fl) 0 (nt_servers l) of
        (Inl err, ts) \<Rightarrow> (Inl err, l\<lparr>nt_servers := ts\<rparr>)
      | (Inr replies, ts) \<Rightarrow>
          (if None \<in> set replies then Inl (Internal ''log server reply dropped'') else Inr (), l\<lparr>nt_servers := ts\<rparr>))"

definition nt_seal :: "faults \<Rightarrow> native_tasks \<Rightarrow> LogPos result \<times> native_tasks" where
  "nt_seal fl l =
     (case handle_seal (seq_fate fl 0) (nt_sequencer l) of
        (Inl err, q) \<Rightarrow> (Inl err, l\<lparr>nt_sequencer := q\<rparr>)
      | (Inr sequencer_tail, q) \<Rightarrow>
          (case fan_out ls_seal (server_fate fl) 0 (nt_servers l) of
             (Inl err, ts) \<Rightarrow> (Inl err, l\<lparr>nt_sequencer := q, nt_servers := ts\<rparr>)
           | (Inr tails, ts) \<Rightarrow>
               (let l' = l\<lparr>nt_sequencer := q, nt_servers := ts\<rparr> in
                case seal_outcome (nt_quorum_size l) sequencer_tail (received tails) of
                  Inl err \<Rightarrow> (Inl err, l')
                | Inr final_tail \<Rightarrow> (Inr final_tail, l'\<lparr>nt_sealed := True\<rparr>))))"

section \<open>Sequences of calls\<close>

datatype native_call = AskAppend entry | AskRead LogPos | AskTrim LogPos | AskSeal | AskTail

datatype native_answer =
    Appended "LogPos result" | ReadAt "entry option result" | TrimmedTo "unit result" | SealedAt "LogPos result"
  | TailAt "LogPos result"

fun nt_call :: "faults \<Rightarrow> native_call \<Rightarrow> native_tasks \<Rightarrow> native_answer \<times> native_tasks" where
  "nt_call fl (AskAppend en) l = map_prod Appended id (nt_append fl en l)"
| "nt_call fl (AskRead pos) l = map_prod ReadAt id (nt_read fl pos l)"
| "nt_call fl (AskTrim pos) l = map_prod TrimmedTo id (nt_trim fl pos l)"
| "nt_call fl AskSeal l = map_prod SealedAt id (nt_seal fl l)"
| "nt_call fl AskTail l = map_prod TailAt id (nt_check_tail fl l)"

fun nt_run :: "(faults \<times> native_call) list \<Rightarrow> native_tasks \<Rightarrow> native_answer list \<times> native_tasks" where
  "nt_run [] l = ([], l)"
| "nt_run ((fl, c) # calls) l =
     (case nt_call fl c l of (ans, l1) \<Rightarrow> (case nt_run calls l1 of (rest, l2) \<Rightarrow> (ans # rest, l2)))"

section \<open>Without failures\<close>

definition spawned :: "native_loglet \<Rightarrow> native_tasks" where
  "spawned l = \<lparr>nt_sequencer = Some (nl_sequencer l), nt_servers = map Some (nl_servers l),
     nt_quorum_size = nl_quorum_size l, nt_sealed = nl_sealed l\<rparr>"


lemma received_Some [simp]: "received (map (Some \<circ> g) xs) = map g xs" "received [] = []"
  "received (Some x # rs) = x # received rs" "received (None # rs) = received rs"
  by (simp_all add: received_def map_filter_simps) (induction xs, simp_all add: map_filter_simps)


lemma spawned_sel [simp]:
  "nt_sequencer (spawned l) = Some (nl_sequencer l)" "nt_servers (spawned l) = map Some (nl_servers l)"
  "nt_quorum_size (spawned l) = nl_quorum_size l" "nt_sealed (spawned l) = nl_sealed l"
  by (simp_all add: spawned_def)


lemmas task_defs = nt_append_def nt_check_tail_def nt_read_def nt_trim_def nt_seal_def fail_sealed_def
  handle_next_pos_def handle_seal_def handle_check_tail_def ask_sequencer_def send_def

section \<open>A dead log server\<close>

lemma send_dead [simp]: "send ft f None = (None, None)"
  by (simp add: send_def)

text \<open>A dead task stays dead, and a fan-out that meets one fails.\<close>

lemma fan_out_dead:
  "None \<in> set ts \<Longrightarrow> \<exists>ts'. fan_out f ft i ts = (Inl (Internal ''log server task gone''), ts') \<and> None \<in> set ts'"
proof (induction ts arbitrary: i)
  case (Cons t ts)
  show ?case
  proof (cases "send (ft i) f t")
    case (Pair r t')
    show ?thesis
    proof (cases r)
      case None
      then have "t' = None" using Pair by (auto simp: send_def split: option.splits fate.splits prod.splits)
      with None Pair show ?thesis by simp
    next
      case (Some ro)
      then have "t \<noteq> None" using Pair by (cases t) simp_all
      with Cons obtain ts' where "fan_out f ft (Suc i) ts = (Inl (Internal ''log server task gone''), ts')" "None \<in> set ts'"
        by auto
      with Some Pair show ?thesis by simp
    qed
  qed
qed simp

lemma read_tasks_dead: "None \<in> set ts \<Longrightarrow> None \<in> set (snd (read_tasks p ft i ts))"
  by (induction ts arbitrary: i)
    (auto simp: handle_read_def send_def split: option.splits fate.splits prod.splits read_result.splits,
      (metis snd_conv)+)

fun made_progress :: "native_answer \<Rightarrow> bool" where
  "made_progress (Appended r) \<longleftrightarrow> \<not> isl r"
| "made_progress (TrimmedTo r) \<longleftrightarrow> \<not> isl r"
| "made_progress (SealedAt r) \<longleftrightarrow> \<not> isl r"
| "made_progress _ \<longleftrightarrow> False"

lemma fail_sealed_facts:
  "isl (fst (fail_sealed ft l))" "nt_servers (snd (fail_sealed ft l)) = nt_servers l"
  "nt_quorum_size (snd (fail_sealed ft l)) = nt_quorum_size l"
  by (auto simp: fail_sealed_def split: prod.splits sum.splits)

lemma dead_call:
  assumes "None \<in> set (nt_servers l)"
  shows "\<not> made_progress (fst (nt_call fl c l)) \<and> None \<in> set (nt_servers (snd (nt_call fl c l)))"
proof -
  have f: "fst (fan_out g ft i (nt_servers l)) = Inl (Internal ''log server task gone'')"
    "None \<in> set (snd (fan_out g ft i (nt_servers l)))" for g :: "log_server \<Rightarrow> 'r \<times> log_server" and ft i
    using fan_out_dead[OF assms, of g ft i] by auto
  note d = f assms read_tasks_dead[OF assms] fail_sealed_facts
  show ?thesis
    by (cases c) (simp_all add: nt_append_def nt_read_def nt_trim_def nt_seal_def nt_check_tail_def case_prod_beta d Let_def
      split: sum.splits option.splits)
qed

lemma dead_run: "None \<in> set (nt_servers l) \<Longrightarrow> \<forall>ans \<in> set (fst (nt_run calls l)). \<not> made_progress ans"
proof (induction calls arbitrary: l)
  case (Cons x calls)
  obtain fl c where "x = (fl, c)" by (cases x)
  with Cons.IH[of "snd (nt_call fl c l)"] dead_call[OF Cons.prems, of fl c] show ?case
    by (auto split: prod.splits)
qed simp

section \<open>What failures do not break\<close>

text \<open>\<open>asg\<close> is the entry for which each position was handed out and \<open>ack\<close> those that were acknowledged;
  \<open>k\<close> positions have been handed out.\<close>

definition held_task :: "LogPos \<Rightarrow> entry \<Rightarrow> log_server option \<Rightarrow> bool" where
  "held_task p e t = (case t of None \<Rightarrow> True | Some s \<Rightarrow> held p e s)"

definition server_task_ok :: "(LogPos \<rightharpoonup> entry) \<Rightarrow> log_server option \<Rightarrow> bool" where
  "server_task_ok asg t = (case t of None \<Rightarrow> True
     | Some s \<Rightarrow> bt_ok (ls_entries s) \<and> (\<forall>p e. bt_get (ls_entries s) p = Some e \<longrightarrow> asg p = Some e))"

definition tasks_inv :: "nat \<Rightarrow> (LogPos \<rightharpoonup> entry) \<Rightarrow> (LogPos \<rightharpoonup> entry) \<Rightarrow> native_tasks \<Rightarrow> bool" where
  "tasks_inv k asg ack l \<longleftrightarrow> 0 < nt_quorum_size l \<and>
     (\<forall>q. nt_sequencer l = Some q \<longrightarrow> sq_next_pos q = of_nat (Suc k)) \<and>
     (\<forall>p e. asg p = Some e \<longrightarrow> unat p \<le> k) \<and> (\<forall>t \<in> set (nt_servers l). server_task_ok asg t) \<and>
     (\<forall>p e. ack p = Some e \<longrightarrow> asg p = Some e \<and> (\<exists>t \<in> set (nt_servers l). held_task p e t))"

lemma task_ok_Some:
  "server_task_ok asg (Some s) \<longleftrightarrow> bt_ok (ls_entries s) \<and> (\<forall>p e. bt_get (ls_entries s) p = Some e \<longrightarrow> asg p = Some e)"
  by (simp add: server_task_ok_def)

lemma inv_task:
  assumes "tasks_inv k asg ack l" "Some s \<in> set (nt_servers l)"
  shows "bt_ok (ls_entries s) \<and> (\<forall>p e. bt_get (ls_entries s) p = Some e \<longrightarrow> asg p = Some e)"
  using assms unfolding tasks_inv_def task_ok_Some[symmetric] by blast

text \<open>One task after a request, and all of them after a fan-out or a read.\<close>

definition after_request :: "(log_server \<Rightarrow> 'r \<times> log_server) \<Rightarrow> log_server option \<Rightarrow> log_server option \<Rightarrow> bool" where
  "after_request f t t' \<longleftrightarrow> t' = None \<or> t' = t \<or> (\<exists>s. t = Some s \<and> t' = Some (snd (f s)))"

lemma after_refl [simp]: "after_request f t t"
  by (simp add: after_request_def)

lemma after_all_refl [simp]: "list_all2 (after_request f) ts ts"
  by (simp add: list_all2_refl)

lemma send_after: "send ft f t = (r, t') \<Longrightarrow> after_request f t t'"
  by (auto simp: send_def after_request_def split: option.splits fate.splits prod.splits)

lemma fan_out_after: "fan_out f ft i ts = (res, ts') \<Longrightarrow> list_all2 (after_request f) ts ts'"
  by (induction f ft i ts arbitrary: res ts' rule: fan_out.induct)
    (auto split: prod.splits option.splits sum.splits dest: send_after)

lemma read_tasks_after: "list_all2 (after_request (\<lambda>s. (ls_read p s, s))) ts (snd (read_tasks p ft i ts))"
  by (induction p ft i ts rule: read_tasks.induct)
    (auto simp: handle_read_def split: prod.splits option.splits sum.splits read_result.splits dest: send_after)

lemma fan_out_reply:
  "fan_out f ft i ts = (Inr rs, ts') \<Longrightarrow> r \<in> set (received rs) \<Longrightarrow>
   \<exists>s. Some s \<in> set ts \<and> fst (f s) = r \<and> Some (snd (f s)) \<in> set ts'"
proof (induction f ft i ts arbitrary: rs ts' rule: fan_out.induct)
  case (2 f ft i t ts)
  then obtain ro t' rs1 ts1 where s: "send (ft i) f t = (Some ro, t')" "fan_out f ft (Suc i) ts = (Inr rs1, ts1)"
    "rs = ro # rs1" "ts' = t' # ts1"
    by (auto split: prod.splits option.splits sum.splits)
  from 2(1)[OF s(1)[symmetric] refl s(2)] have IH: "r \<in> set (received rs1) \<Longrightarrow>
      \<exists>s. Some s \<in> set ts \<and> fst (f s) = r \<and> Some (snd (f s)) \<in> set ts1" by simp
  show ?case
  proof (cases "ro = Some r")
    case True
    with s(1) have "\<exists>s. t = Some s \<and> fst (f s) = r \<and> t' = Some (snd (f s))"
      by (auto simp: send_def split: option.splits fate.splits prod.splits)
    then show ?thesis using s(4) by auto
  next
    case False
    with 2(3) s(3) have "r \<in> set (received rs1)" by (cases ro) auto
    with IH s(4) show ?thesis by auto
  qed
qed simp

lemma append_outcome_ack:
  assumes "append_outcome q pos rs = Inr pos'" "0 < q"
  shows "pos' = pos \<and> (\<exists>b. Inr b \<in> set rs)"
proof -
  have "q \<le> length (filter (\<lambda>r. \<not> isl r) rs)" "pos' = pos"
    using assms(1) count_acks_fst[of rs 0 None] by (auto simp: append_outcome_def split: prod.splits if_splits option.splits)
  then have "filter (\<lambda>r. \<not> isl r) rs \<noteq> []" using assms(2) by auto
  then obtain r where "r \<in> set rs" "\<not> isl r" by (auto simp: filter_empty_conv)
  then have "Inr (projr r) \<in> set rs" by simp
  then show ?thesis using \<open>pos' = pos\<close> by blast
qed

text \<open>Requests that keep what a server holds keep the invariant.\<close>

definition keeps_entries :: "(log_server \<Rightarrow> 'r \<times> log_server) \<Rightarrow> bool" where
  "keeps_entries f \<longleftrightarrow> (\<forall>s. bt_ok (ls_entries s) \<longrightarrow> bt_ok (ls_entries (snd (f s))) \<and>
     (\<forall>q d. held q d s \<longrightarrow> held q d (snd (f s))) \<and>
     (\<forall>q d. bt_get (ls_entries (snd (f s))) q = Some d \<longrightarrow> bt_get (ls_entries s) q = Some d))"

lemma keeps_requests:
  "keeps_entries (\<lambda>s. (ls_read p s, s))" "keeps_entries (\<lambda>s. ((), ls_trim p s))" "keeps_entries ls_seal"
proof -
  show "keeps_entries (\<lambda>s. ((), ls_trim p s))" 
    unfolding keeps_entries_def snd_conv using ls_trim_facts by blast
qed (simp_all add: keeps_entries_def ls_seal_def held_def)

lemma list_all2_sets:
  assumes "list_all2 P xs ys"
  shows "x \<in> set xs \<Longrightarrow> \<exists>y \<in> set ys. P x y" "y \<in> set ys \<Longrightarrow> \<exists>x \<in> set xs. P x y"
  using assms by (metis in_set_conv_nth list_all2_conv_all_nth)+

lemma held_after:
  assumes "\<exists>t \<in> set ts. held_task p e t" "list_all2 (after_request f) ts ts'"
    and "\<And>s. Some s \<in> set ts \<Longrightarrow> held p e s \<Longrightarrow> held p e (snd (f s))"
  shows "\<exists>t \<in> set ts'. held_task p e t"
proof -
  from assms(1) obtain t where t: "t \<in> set ts" "held_task p e t" by blast
  with list_all2_sets(1)[OF assms(2)] obtain t' where t': "t' \<in> set ts'" "after_request f t t'" by blast
  have "held_task p e t'" using t t'(2) assms(3) by (auto simp: after_request_def held_task_def)
  with t'(1) show ?thesis by blast
qed

lemma task_ok_mono: "server_task_ok asg t \<Longrightarrow> asg \<subseteq>\<^sub>m asg' \<Longrightarrow> server_task_ok asg' t"
  by (cases t) (simp_all add: server_task_ok_def map_le_def, metis domI)

lemma ok_after:
  assumes "\<forall>t \<in> set ts. server_task_ok asg t" "list_all2 (after_request f) ts ts'"
    and "\<And>s. Some s \<in> set ts \<Longrightarrow> server_task_ok asg' (Some (snd (f s)))" "asg \<subseteq>\<^sub>m asg'"
  shows "\<forall>t \<in> set ts'. server_task_ok asg' t"
proof
  fix t' assume "t' \<in> set ts'"
  with list_all2_sets(2)[OF assms(2)] obtain t where t: "t \<in> set ts" "after_request f t t'" by blast
  with assms(1,4) have "server_task_ok asg' t" using task_ok_mono by blast
  then show "server_task_ok asg' t'"
    using t assms(3) by (auto simp: after_request_def server_task_ok_def[of _ None])
qed

lemma inv_keeps:
  assumes "tasks_inv k asg ack l" "keeps_entries f" "list_all2 (after_request f) (nt_servers l) ts"
  shows "tasks_inv k asg ack (l\<lparr>nt_servers := ts\<rparr>)"
proof -
  have ok: "bt_ok (ls_entries s)" "\<And>p e. bt_get (ls_entries s) p = Some e \<Longrightarrow> asg p = Some e"
    if "Some s \<in> set (nt_servers l)" for s
    using inv_task[OF assms(1) that] by blast+
  have "\<forall>t \<in> set ts. server_task_ok asg t"
  proof (rule ok_after[OF _ assms(3) _ map_le_refl])
    show "server_task_ok asg (Some (snd (f s)))" if "Some s \<in> set (nt_servers l)" for s
      unfolding task_ok_Some using assms(2) ok[OF that] unfolding keeps_entries_def by blast
  qed (use assms(1) in \<open>simp add: tasks_inv_def\<close>)
  moreover have "\<exists>t \<in> set ts. held_task p e t" if "ack p = Some e" for p e
  proof (rule held_after[OF _ assms(3)])
    show "held p e (snd (f s))" if "Some s \<in> set (nt_servers l)" "held p e s" for s
      using assms(2) ok(1)[OF that(1)] that(2) unfolding keeps_entries_def by blast
    show "\<exists>t \<in> set (nt_servers l). held_task p e t" using assms(1) that unfolding tasks_inv_def by blast
  qed
  ultimately show ?thesis using assms(1) by (simp add: tasks_inv_def)
qed


lemma inv_sequencer:
  assumes "tasks_inv k asg ack l" "\<And>q'. q = Some q' \<Longrightarrow> sq_next_pos q' = of_nat (Suc k)"
  shows "tasks_inv k asg ack (l\<lparr>nt_sequencer := q\<rparr>)"
  using assms by (simp add: tasks_inv_def)

lemma inv_flag [simp]: "tasks_inv k asg ack (l\<lparr>nt_sealed := b\<rparr>) = tasks_inv k asg ack l"
  by (simp add: tasks_inv_def)

text \<open>Requests to the sequencer other than the one for a position.\<close>

lemma ask_sequencer_pos:
  assumes "tasks_inv k asg ack l" "ask_sequencer ft f (nt_sequencer l) = (r, Some q)"
    and "\<And>s. sq_next_pos (snd (f s)) = sq_next_pos s"
  shows "sq_next_pos q = of_nat (Suc k)"
proof -
  have "\<exists>s. nt_sequencer l = Some s \<and> q = snd (f s)"
    using assms(2) by (auto simp: ask_sequencer_def send_def split: option.splits fate.splits prod.splits)
  with assms(1,3) show ?thesis by (auto simp: tasks_inv_def)
qed

lemma inv_ask:
  assumes "tasks_inv k asg ack l" "\<And>s. sq_next_pos (snd (f s)) = sq_next_pos s"
  shows "tasks_inv k asg ack (l\<lparr>nt_sequencer := snd (ask_sequencer ft f (nt_sequencer l))\<rparr>)"
  using inv_sequencer[OF assms(1)] ask_sequencer_pos[OF assms(1) _ assms(2)] by (metis prod.collapse)

lemma inv_fail_sealed:
  assumes "tasks_inv k asg ack l"
  shows "tasks_inv k asg ack (snd (fail_sealed ft l))"
  using inv_ask[OF assms, of "\<lambda>s. (seq_check_tail s, s)" ft]
  by (auto simp: fail_sealed_def handle_check_tail_def split: prod.splits sum.splits)

lemma next_pos_cases:
  assumes "tasks_inv k asg ack l" "handle_next_pos ft (nt_sequencer l) = (r, q)"
  shows "(\<exists>err. r = Inl err \<and> q = None) \<or> (r = Inr None \<and> (\<forall>q'. q = Some q' \<longrightarrow> sq_next_pos q' = of_nat (Suc k))) \<or>
         (r = Inr (Some (of_nat (Suc k))) \<and> (\<forall>q'. q = Some q' \<longrightarrow> sq_next_pos q' = of_nat (Suc (Suc k))))"
  using assms
  by (auto simp: handle_next_pos_def ask_sequencer_def send_def seq_next_pos_def tasks_inv_def
    split: option.splits fate.splits prod.splits if_splits)

text \<open>The stores of one append.\<close>

lemma tasks_store:
  assumes "tasks_inv k asg ack l" "Suc k < 2 ^ 64" "pos = of_nat (Suc k)"
    and "fan_out (ls_store pos en) ft i (nt_servers l) = (res, ts)"
    and "\<And>q'. q = Some q' \<Longrightarrow> sq_next_pos q' = of_nat (Suc (Suc k))"
  shows "tasks_inv (Suc k) (asg(pos \<mapsto> en)) ack (l\<lparr>nt_sequencer := q, nt_servers := ts\<rparr>)"
proof -
  have u: "unat pos = Suc k" using assms(2,3) by (simp add: unat_of_nat_pos del: of_nat_Suc)
  have fresh: "asg pos = None" using assms(1) u unfolding tasks_inv_def by (metis Suc_n_not_le_n option.exhaust)
  have le: "asg \<subseteq>\<^sub>m asg(pos \<mapsto> en)" using fresh by (simp add: map_le_def dom_def)
  have ok: "bt_ok (ls_entries s)" "\<And>p e. bt_get (ls_entries s) p = Some e \<Longrightarrow> asg p = Some e"
    if "Some s \<in> set (nt_servers l)" for s
    using inv_task[OF assms(1) that] by blast+
  note f = ls_store_facts[OF ok(1) surjective_pairing]
  note aft = fan_out_after[OF assms(4)]
  have "\<forall>t \<in> set ts. server_task_ok (asg(pos \<mapsto> en)) t"
  proof (rule ok_after[OF _ aft _ le])
    show "server_task_ok (asg(pos \<mapsto> en)) (Some (snd (ls_store pos en s)))" if "Some s \<in> set (nt_servers l)" for s
      unfolding task_ok_Some fun_upd_apply
      using f(1)[OF that, of pos en] f(4)[OF that, of pos en] ok(2)[OF that] fresh by (metis option.distinct(1))
  qed (use assms(1) in \<open>simp add: tasks_inv_def\<close>)
  moreover have "\<exists>t \<in> set ts. held_task p e t" "(asg(pos \<mapsto> en)) p = Some e" if a: "ack p = Some e" for p e
  proof -
    show "(asg(pos \<mapsto> en)) p = Some e" using assms(1) a fresh by (auto simp: tasks_inv_def)
    show "\<exists>t \<in> set ts. held_task p e t"
    proof (rule held_after[OF _ aft])
      show "held p e (snd (ls_store pos en s))" if "Some s \<in> set (nt_servers l)" "held p e s" for s
        using f(3)[OF that(1) that(2)] .
      show "\<exists>t \<in> set (nt_servers l). held_task p e t" using assms(1) a unfolding tasks_inv_def by blast
    qed
  qed
  ultimately show ?thesis
    using assms(1,5) u by (auto simp: tasks_inv_def le_Suc_eq)
qed

lemma acked_held:
  assumes "tasks_inv k asg ack l" "Suc k < 2 ^ 64" "pos = of_nat (Suc k)"
    and "fan_out (ls_store pos en) ft i (nt_servers l) = (Inr rs, ts)"
    and "append_outcome (nt_quorum_size l) pos (received rs) = Inr pos'"
  shows "pos' = pos \<and> (\<exists>t \<in> set ts. held_task pos en t)"
proof -
  have u: "unat pos = Suc k" using assms(2,3) by (simp add: unat_of_nat_pos del: of_nat_Suc)
  have fresh: "asg pos = None" using assms(1) u unfolding tasks_inv_def by (metis Suc_n_not_le_n option.exhaust)
  have "0 < nt_quorum_size l" using assms(1) by (simp add: tasks_inv_def)
  from append_outcome_ack[OF assms(5) this] obtain b where b: "pos' = pos" "Inr b \<in> set (received rs)" by blast
  from fan_out_reply[OF assms(4) b(2)] obtain s where
    s: "Some s \<in> set (nt_servers l)" "fst (ls_store pos en s) = Inr b" "Some (snd (ls_store pos en s)) \<in> set ts" by blast
  have ok: "bt_ok (ls_entries s)" "bt_get (ls_entries s) pos = None"
    using inv_task[OF assms(1) s(1)] fresh by (blast, metis option.exhaust option.distinct(1))
  have "bt_get (ls_entries (snd (ls_store pos en s))) pos = Some en"
    using s(2) ok by (auto simp: ls_store_def bt_get_insert split: if_splits)
  then have "held_task pos en (Some (snd (ls_store pos en s)))" by (simp add: held_task_def held_def)
  with s(3) b(1) show ?thesis by blast
qed


text \<open>Every call.\<close>

definition acks :: "native_call \<Rightarrow> native_answer \<Rightarrow> (LogPos \<rightharpoonup> entry) \<Rightarrow> bool" where
  "acks c ans ack \<longleftrightarrow> (\<forall>en p. c = AskAppend en \<and> ans = Appended (Inr p) \<longrightarrow> ack p = Some en)"

lemma append_inv:
  assumes "tasks_inv k asg ack l" "Suc k < 2 ^ 64" "nt_append fl en l = (r, l')"
  shows "\<exists>k' asg' ack'. tasks_inv k' asg' ack' l' \<and> k' \<le> Suc k \<and> ack \<subseteq>\<^sub>m ack' \<and> (\<forall>p. r = Inr p \<longrightarrow> ack' p = Some en)"
proof (cases "nt_sealed l")
  case True
  then have l': "l' = snd (fail_sealed (seq_fate fl 0) l)" and r: "isl r"
    using assms(3) fail_sealed_facts(1)[of "seq_fate fl 0" l] by (simp_all add: nt_append_def)
  have "tasks_inv k asg ack l'" unfolding l' by (rule inv_fail_sealed[OF assms(1)])
  with r show ?thesis by (intro exI[of _ k] exI[of _ asg] exI[of _ ack]) auto
next
  case open_log: False
  obtain a q where n: "handle_next_pos (seq_fate fl 0) (nt_sequencer l) = (a, q)" by fastforce
  from next_pos_cases[OF assms(1) n] consider
      (err) err where "a = Inl err" "q = None"
    | (sealed) "a = Inr None" "\<And>q'. q = Some q' \<Longrightarrow> sq_next_pos q' = of_nat (Suc k)"
    | (pos) "a = Inr (Some (of_nat (Suc k)))" "\<And>q'. q = Some q' \<Longrightarrow> sq_next_pos q' = of_nat (Suc (Suc k))" by blast
  then show ?thesis
  proof cases
    case err
    then have "r = Inl err" "l' = l\<lparr>nt_sequencer := None\<rparr>" using assms(3) open_log n by (simp_all add: nt_append_def)
    with inv_sequencer[OF assms(1), of None] show ?thesis
      by (intro exI[of _ k] exI[of _ asg] exI[of _ ack]) auto
  next
    case sealed
    let ?l = "l\<lparr>nt_sequencer := q, nt_sealed := True\<rparr>"
    have l': "l' = snd (fail_sealed (seq_fate fl 1) ?l)" and r: "isl r"
      using assms(3) open_log n sealed(1) fail_sealed_facts(1)[of "seq_fate fl 1" ?l] by (simp_all add: nt_append_def)
    have "tasks_inv k asg ack ?l" using inv_sequencer[OF assms(1) sealed(2)] by simp
    from inv_fail_sealed[OF this] have "tasks_inv k asg ack l'" unfolding l' .
    with r show ?thesis by (intro exI[of _ k] exI[of _ asg] exI[of _ ack]) auto
  next
    case pos
    define p where "p = (of_nat (Suc k) :: u64)"
    obtain res ts where f: "fan_out (ls_store p en) (server_fate fl) 0 (nt_servers l) = (res, ts)" by fastforce
    let ?l = "l\<lparr>nt_sequencer := q, nt_servers := ts\<rparr>" and ?asg = "asg(p \<mapsto> en)"
    have inv: "tasks_inv (Suc k) ?asg ack ?l" by (rule tasks_store[OF assms(1,2) p_def f pos(2)])
    show ?thesis
    proof (cases "\<exists>rs. res = Inr rs \<and> append_outcome (nt_quorum_size l) p (received rs) = Inr p")
      case True
      then obtain rs where rs: "res = Inr rs" "append_outcome (nt_quorum_size l) p (received rs) = Inr p" by blast
      have r: "r = Inr p" "l' = ?l"
        using assms(3) open_log n pos(1) f rs by (simp_all add: nt_append_def p_def Let_def del: of_nat_Suc)
      from acked_held[OF assms(1,2) p_def f[unfolded rs(1)] rs(2)] have "\<exists>t \<in> set ts. held_task p en t" by blast
      with inv have "tasks_inv (Suc k) ?asg (ack(p \<mapsto> en)) l'"
        unfolding r(2) tasks_inv_def by (auto split: if_splits)
      moreover have "ack p \<noteq> None \<longrightarrow> ack p = Some en" 
        using inv unfolding tasks_inv_def by (metis fun_upd_same option.exhaust)
      then have "ack \<subseteq>\<^sub>m ack(p \<mapsto> en)" by (auto simp: map_le_def)
      ultimately show ?thesis using r(1) by (intro exI[of _ "Suc k"] exI[of _ ?asg] exI[of _ "ack(p \<mapsto> en)"]) simp
    next
      case False
      have "\<exists>err. (res = Inl err \<or> (\<exists>rs. res = Inr rs \<and> append_outcome (nt_quorum_size l) p (received rs) = Inl err))"
      proof (cases res)
        case (Inr rs)
        with False acked_held[OF assms(1,2) p_def, of en "server_fate fl" 0 rs ts] f show ?thesis
          by (cases "append_outcome (nt_quorum_size l) p (received rs)") auto
      qed simp
      then have "isl r \<and> (l' = ?l \<or> l' = ?l\<lparr>nt_sealed := True\<rparr>)"
        using assms(3) open_log n pos(1) f
        by (auto simp: nt_append_def p_def[symmetric] Let_def split: if_splits simp del: of_nat_Suc, (metis sum.disc(1))+)
      with inv show ?thesis by (intro exI[of _ "Suc k"] exI[of _ ?asg] exI[of _ ack]) (auto simp del: fun_upd_apply)
    qed
  qed
qed


lemma call_inv:
  assumes "tasks_inv k asg ack l" "Suc k < 2 ^ 64" "nt_call fl c l = (ans, l')"
  shows "\<exists>k' asg' ack'. tasks_inv k' asg' ack' l' \<and> k' \<le> Suc k \<and> ack \<subseteq>\<^sub>m ack' \<and> acks c ans ack'"
proof -
  have same: ?thesis if "tasks_inv k asg ack l'" "\<And>en. c \<noteq> AskAppend en"
    using that by (intro exI[of _ k] exI[of _ asg] exI[of _ ack]) (simp add: acks_def)
  have fan: "tasks_inv k asg ack (m\<lparr>nt_servers := snd (fan_out f ft i (nt_servers m))\<rparr>)"
    if "tasks_inv k asg ack m" "keeps_entries f" for m and f :: "log_server \<Rightarrow> 'r \<times> log_server" and ft i
    using inv_keeps[OF that fan_out_after[OF surjective_pairing]] .
  show ?thesis
  proof (cases c)
    case (AskAppend en)
    with assms(3) obtain r where "nt_append fl en l = (r, l')" "ans = Appended r"
      by (cases "nt_append fl en l") auto
    with append_inv[OF assms(1,2) this(1)] AskAppend show ?thesis by (auto simp: acks_def)
  next
    case (AskRead pos)
    then have "l' = l\<lparr>nt_servers := snd (read_tasks pos (server_fate fl) 0 (nt_servers l))\<rparr>"
      using assms(3) by (auto simp: nt_read_def split: prod.splits)
    with inv_keeps[OF assms(1) keeps_requests(1) read_tasks_after] AskRead show ?thesis by (intro same) auto
  next
    case (AskTrim pos)
    then have "l' = l\<lparr>nt_servers := snd (fan_out (\<lambda>s. ((), ls_trim pos s)) (server_fate fl) 0 (nt_servers l))\<rparr>"
      using assms(3) by (auto simp: nt_trim_def split: prod.splits sum.splits)
    with fan[OF assms(1) keeps_requests(2)] AskTrim show ?thesis by (intro same) auto
  next
    case AskSeal
    let ?l = "l\<lparr>nt_sequencer := snd (ask_sequencer (seq_fate fl 0) seq_seal (nt_sequencer l))\<rparr>"
    have l: "tasks_inv k asg ack ?l" by (rule inv_ask[OF assms(1)]) (simp add: seq_seal_def)
    let ?m = "?l\<lparr>nt_servers := snd (fan_out ls_seal (server_fate fl) 0 (nt_servers ?l))\<rparr>"
    have "l' \<in> {?l, ?m, ?m\<lparr>nt_sealed := True\<rparr>}"
      using assms(3) AskSeal by (auto simp: nt_seal_def handle_seal_def Let_def split: prod.splits sum.splits)
    with l fan[OF l keeps_requests(3), of "server_fate fl" 0] AskSeal show ?thesis by (intro same) auto
  next
    case AskTail
    then have "l' = l\<lparr>nt_sequencer := snd (ask_sequencer (seq_fate fl 0) (\<lambda>s. (seq_check_tail s, s)) (nt_sequencer l))\<rparr>"
      using assms(3) by (auto simp: nt_check_tail_def handle_check_tail_def split: prod.splits)
    with inv_ask[OF assms(1), of "\<lambda>s. (seq_check_tail s, s)"] AskTail show ?thesis by (intro same) auto
  qed
qed

lemma run_inv:
  assumes "tasks_inv k asg ack l" "k + length calls < 2 ^ 64" "nt_run calls l = (as, l')"
  shows "\<exists>k' asg' ack'. tasks_inv k' asg' ack' l' \<and> ack \<subseteq>\<^sub>m ack' \<and>
    (\<forall>((fl, c), ans) \<in> set (zip calls as). acks c ans ack')"
  using assms
proof (induction calls arbitrary: k asg ack l as)
  case (Cons x calls)
  obtain fl c where x: "x = (fl, c)" by (cases x)
  obtain ans l1 rest where s: "nt_call fl c l = (ans, l1)" "nt_run calls l1 = (rest, l')" "as = ans # rest"
    using Cons.prems(3) x by (auto split: prod.splits)
  have "Suc k < 2 ^ 64" using Cons.prems(2) by simp
  from call_inv[OF Cons.prems(1) this s(1)] obtain k1 asg1 ack1 where
    1: "tasks_inv k1 asg1 ack1 l1" "k1 \<le> Suc k" "ack \<subseteq>\<^sub>m ack1" "acks c ans ack1" by blast
  with Cons.IH[OF 1(1) _ s(2)] Cons.prems(2) obtain k2 asg2 ack2 where
    2: "tasks_inv k2 asg2 ack2 l'" "ack1 \<subseteq>\<^sub>m ack2" "\<forall>((fl, c), ans) \<in> set (zip calls rest). acks c ans ack2" by auto
  have "acks c ans ack2" using 1(4) 2(2) by (auto simp: acks_def map_le_def dom_def)
  with 2 map_le_trans[OF 1(3) 2(2)] x s(3) show ?case by (intro exI[of _ k2] exI[of _ asg2] exI[of _ ack2]) auto
next
  case Nil
  then show ?case by (intro exI[of _ k] exI[of _ asg] exI[of _ ack]) auto
qed

lemma inv_new: "0 < n \<Longrightarrow> \<exists>l. nt_new n = Some l \<and> tasks_inv 0 Map.empty Map.empty l"
  by (simp add: nt_new_def tasks_inv_def sequencer_new_def LOG_POS_BEGIN_def server_task_ok_def log_server_new_def bt_ok_empty bt_get_empty)

text \<open>A read of a position that was acknowledged.\<close>

lemma read_acked:
  assumes "\<forall>t \<in> set ts. server_task_ok asg t" "asg p = Some en" "\<exists>t \<in> set ts. held_task p en t"
  shows "fst (read_tasks p ft i ts) \<in> {Inr (Some en), Inl (Trimmed p)} \<or> (\<exists>msg. fst (read_tasks p ft i ts) = Inl (Internal msg))"
  using assms
proof (induction ts arbitrary: i)
  case (Cons t ts)
  show ?case
  proof (cases "\<exists>s. t = Some s \<and> ft i = Handles \<and> ls_read p s = RNotFound")
    case True
    then obtain s where s: "t = Some s" "ft i = Handles" "ls_read p s = RNotFound" by blast
    then have "\<not> held_task p en t" by (auto simp: held_task_def held_def ls_read_def split: if_splits option.splits)
    then have "\<exists>t \<in> set ts. held_task p en t" using Cons.prems(3) by auto
    with Cons.IH[of "Suc i"] Cons.prems s show ?thesis by (auto simp: handle_read_def send_def split: prod.splits)
  next
    case False
    have "s \<noteq> None \<longrightarrow> e = en" if "t = s" "bt_get (ls_entries (the s)) p = Some e" for s e
      using that Cons.prems(1,2) by (auto simp: task_ok_Some)
    with False show ?thesis
      by (cases t) (auto simp: handle_read_def send_def ls_read_def split: fate.splits option.splits if_splits)
  qed
qed simp

section \<open>Properties\<close>


text \<open>C19. One dead log server stops the loglet for good, however many others live and whatever the quorum:
  from then on no append, no trim and no seal ever succeeds again.\<close>

theorem dead_server_blocks:
  assumes "None \<in> set (nt_servers l)"
  shows "\<forall>ans \<in> set (fst (nt_run calls l)). \<not> made_progress ans"
  using dead_run[OF assms] .

text \<open>Three servers; an append is acknowledged, then the second server is found dead by the next one.\<close>

definition second_dies :: faults where
  "second_dies = \<lparr>seq_fate = (\<lambda>_. Handles), server_fate = (\<lambda>i. if i = 1 then DiesBefore else Handles)\<rparr>"

definition failing_calls :: "(faults \<times> native_call) list" where
  "failing_calls = [(no_faults, AskAppend (entry_new [7])), (second_dies, AskAppend (entry_new [8]))]"

lemma failing_run:
  "\<exists>l0 l. nt_new 3 = Some l0 \<and>
     nt_run failing_calls l0 = ([Appended (Inr 1), Appended (Inl (Internal ''log server task gone''))], l) \<and>
     None \<in> set (nt_servers l) \<and> length (filter (\<lambda>t. t \<noteq> None) (nt_servers l)) = 2"
  by (simp add: failing_calls_def second_dies_def no_faults_def nt_new_def task_defs sequencer_new_def log_server_new_def
    LOG_POS_BEGIN_def seq_next_pos_def ls_store_def bt_empty_def bt_get_def append_outcome_def numeral_3_eq_3 Let_def)

theorem dead_server_blocks_witness:
  "\<exists>l0 as l. nt_new 3 = Some l0 \<and> nt_run failing_calls l0 = (as, l) \<and> None \<in> set (nt_servers l) \<and>
     (\<forall>ans \<in> set (fst (nt_run [(no_faults, AskAppend (entry_new [9])), (no_faults, AskSeal)] l)). \<not> made_progress ans)"
  using failing_run dead_server_blocks by blast

text \<open>C18. Failures never make an acknowledged entry disappear silently: whatever tasks die during and
  between the calls, a read of a position that an append returned gives the entry, or reports it as
  trimmed, or fails with an internal error. It never says that there is no entry and never gives
  another one.\<close>

theorem acked_append_survives_failures:
  assumes "nt_new n = Some l0" and "nt_run calls l0 = (as, l)" and "length calls < 2 ^ 64"
    and "((fl, AskAppend en), Appended (Inr p)) \<in> set (zip calls as)"
  shows "fst (nt_read fl' p l) \<in> {Inr (Some en), Inl (Trimmed p)} \<or> (\<exists>msg. fst (nt_read fl' p l) = Inl (Internal msg))"
proof -
  have "0 < n" using assms(1) by (simp add: nt_new_def split: if_splits)
  from inv_new[OF this] have "tasks_inv 0 Map.empty Map.empty l0" unfolding assms(1) option.inject by blast
  from run_inv[OF this _ assms(2)] assms(3) obtain k asg ack where
    i: "tasks_inv k asg ack l" "\<forall>((fl, c), ans) \<in> set (zip calls as). acks c ans ack" by auto
  then have "ack p = Some en" using assms(4) by (fastforce simp: acks_def)
  with i(1) have a: "\<forall>t \<in> set (nt_servers l). server_task_ok asg t" "asg p = Some en" "\<exists>t \<in> set (nt_servers l). held_task p en t"
    unfolding tasks_inv_def by blast+
  have "fst (nt_read fl' p l) = fst (read_tasks p (server_fate fl') 0 (nt_servers l))"
    by (simp add: nt_read_def case_prod_beta)
  with read_acked[OF a] show ?thesis by simp
qed

theorem acked_append_survives_failures_witness:
  "\<exists>l0 as l. nt_new 3 = Some l0 \<and> nt_run failing_calls l0 = (as, l) \<and> as ! 0 = Appended (Inr 1) \<and>
     (fst (nt_read no_faults 1 l) \<in> {Inr (Some (entry_new [7])), Inl (Trimmed 1)} \<or>
      (\<exists>msg. fst (nt_read no_faults 1 l) = Inl (Internal msg)))"
proof -
  obtain l0 l where r: "nt_new 3 = Some l0"
    "nt_run failing_calls l0 = ([Appended (Inr 1), Appended (Inl (Internal ''log server task gone''))], l)"
    using failing_run by blast
  have "((no_faults, AskAppend (entry_new [7])), Appended (Inr 1)) \<in>
      set (zip failing_calls [Appended (Inr 1), Appended (Inl (Internal ''log server task gone''))])"
    "length failing_calls < 2 ^ 64"
    by (simp_all add: failing_calls_def)
  from acked_append_survives_failures[OF r this(2,1)] r show ?thesis by auto
qed

end
