(* ===== verification/Concurrent_Properties.thy ===== *)
theory Concurrent_Properties
  imports Memory_Virtual_Log
begin

text \<open>
  Many tasks on one virtual log over in-memory loglets: what holds as long as no two
  reconfigurations overlap, and what goes wrong when they do.
\<close>

lemmas vlog_simps = vlog_init_def meta_new_def meta_read_def chain_new_def memory_factory_def memory_loglet_new_def
  active_segment_step_def active_loglet_step_def active_segment_def ml_append_def ml_tail_def ml_seal_def
  ml_check_tail_def local_to_global_def generate_loglet_id_def meta_write_def chain_extend_def
  close_last_def LOG_POS_BEGIN_def Let_def loglet_name_not_memory loglet_name_not_memory[symmetric]

definition start_sys :: "memory_loglet vlog_sys" where
  "start_sys = \<lparr>sv_meta = \<lparr>ms_chain = chain_new ''memory-0'', ms_version = 0\<rparr>, sv_chain = chain_new ''memory-0'', sv_version = 0,
     sv_loglets = [''memory-0'' \<mapsto> 0], sv_heap = [memory_loglet_new], sv_tasks = Map.empty\<rparr>"

lemma start_sys: "vlog_init memory_factory (meta_new (chain_new ''memory-0'')) = Inr start_sys"
  by (simp add: start_sys_def vlog_simps)

definition lost_append :: "vevent list" where
  "lost_append =
     [Spawn 0 CallSeal] @ map Run [0, 0, 0] @
     [Spawn 1 (CallAppend (entry_new [7]))] @ map Run [1, 1, 1] @
     [Spawn 2 (CallAppend (entry_new [8]))] @ map Run [2, 2, 2, 2, 2, 2] @
     map Run [1, 1, 1, 1, 1, 1, 1, 1, 1, 1, 1, 1] @ map Run [2, 2, 2, 2, 2, 2, 2, 2, 2]"

definition one_append :: "vevent list" where
  "one_append = [Spawn 0 (CallAppend (entry_new [7])), Run 0, Run 0, Run 0]"

definition one_append_sys :: "memory_loglet vlog_sys" where
  "one_append_sys = start_sys
     \<lparr>sv_heap := [memory_loglet_new\<lparr>ml_entries := [Some (entry_new [7])]\<rparr>],
      sv_tasks := [0 \<mapsto> AppDone (entry_new [7]) (Inr 1)]\<rparr>"

lemma start_orderly: "orderly memory_ops start_sys"
  by (simp add: orderly_def one_reconfigures_def has_room_def trims_in_range_def vl_check_tail_def get_active_loglet_def
    vlog_simps start_sys_def)

lemma one_append_reach: "vlog_reach (orderly memory_ops) memory_ops memory_factory start_sys one_append_sys"
proof (rule schedule_within_reach)
  show "schedule_within (orderly memory_ops) memory_ops memory_factory one_append start_sys"
    by (simp add: one_append_def orderly_def one_reconfigures_def has_room_def trims_in_range_def vl_check_tail_def
      get_active_loglet_def vlog_simps start_sys_def)
  show "vlog_schedule memory_ops memory_factory one_append start_sys = Some one_append_sys"
    by (simp add: one_append_def one_append_sys_def vlog_simps start_sys_def)
qed

text \<open>A trim of that entry.\<close>

definition one_trim :: "vevent list" where
  "one_trim = [Spawn 1 (CallTrim 2), Run 1, Run 1, Run 1]"

definition one_trim_sys :: "memory_loglet vlog_sys" where
  "one_trim_sys = one_append_sys
     \<lparr>sv_heap := [memory_loglet_new\<lparr>ml_entries := [None], ml_trim_pos := 2\<rparr>],
      sv_tasks := [0 \<mapsto> AppDone (entry_new [7]) (Inr 1), 1 \<mapsto> TrimDone 2 (Inr ())]\<rparr>"

lemma one_trim_reach: "vlog_reach (orderly memory_ops) memory_ops memory_factory one_append_sys one_trim_sys"
proof (rule schedule_within_reach)
  show "schedule_within (orderly memory_ops) memory_ops memory_factory one_trim one_append_sys"
    by (simp add: one_trim_def orderly_def one_reconfigures_def has_room_def trims_in_range_def vl_check_tail_def
      get_active_loglet_def vlog_simps start_sys_def one_append_sys_def ml_trim_def global_to_local_def word_less_nat_alt word_le_nat_alt)
  show "vlog_schedule memory_ops memory_factory one_trim one_append_sys = Some one_trim_sys"
    by (simp add: one_trim_def one_trim_sys_def one_append_sys_def vlog_simps start_sys_def ml_trim_def global_to_local_def
      word_less_nat_alt fun_upd_twist upt_rec[of "Suc 0" 2])
qed

section \<open>Properties\<close>

text \<open>C12. Many tasks on one virtual log: as long as no two reconfigurations overlap, every append that
  returns has succeeded, and from then on its position belongs to it alone, reads back its entry unless
  somebody has asked to trim it, which a read reports, and so does every read that starts later; every tail
  query that starts later returns a tail beyond it. This holds under every interleaving of appends,
  reads, tail queries, seals and trims of what has been written.\<close>

theorem concurrent_appends_safe:
  assumes "\<forall>k \<ge> 1. i \<noteq> loglet_name k" and "vlog_init memory_factory (meta_new (chain_new i)) = Inr y0"
    and "vlog_reach (orderly memory_ops) memory_ops memory_factory y0 y" and "sv_tasks y c = Some (AppDone e r)"
    and "vlog_reach (orderly memory_ops) memory_ops memory_factory y y'"
  shows "\<exists>p. r = Inr p \<and> reads_back y' e p (vl_read memory_ops p (sv_view y')) \<and>
    (\<forall>d e'. sv_tasks y' d = Some (AppDone e' (Inr p)) \<longrightarrow> d = c) \<and>
    (\<forall>d r'. sv_tasks y d = None \<longrightarrow> sv_tasks y' d = Some (ReadDone p r') \<longrightarrow> reads_back y' e p r') \<and>
    (\<forall>d r'. sv_tasks y d = None \<longrightarrow> sv_tasks y' d = Some (TailDone r') \<longrightarrow> (\<exists>T. r' = Inr T \<and> p < T))"
  by (rule mvl.concurrent_append[OF assms])

theorem concurrent_appends_safe_witness:
  "vl_read memory_ops 1 (sv_view one_append_sys) = Inr (Some (entry_new [7])) \<and>
   reads_back one_trim_sys (entry_new [7]) 1 (vl_read memory_ops 1 (sv_view one_trim_sys))"
proof -
  have i: "\<forall>k \<ge> 1. ''memory-0'' \<noteq> loglet_name k" using loglet_name_not_memory by metis
  have t: "sv_tasks one_append_sys 0 = Some (AppDone (entry_new [7]) (Inr 1))" by (simp add: one_append_sys_def)
  have "orderly memory_ops one_append_sys" using one_append_reach by cases simp_all
  then have "vlog_reach (orderly memory_ops) memory_ops memory_factory one_append_sys one_append_sys" by (rule reach_start)
  from concurrent_appends_safe[OF i start_sys one_append_reach t this]
  have "reads_back one_append_sys (entry_new [7]) 1 (vl_read memory_ops 1 (sv_view one_append_sys))" by auto
  moreover have "\<not> trim_asked one_append_sys 1" by (simp add: trim_asked_def one_append_sys_def)
  moreover have "reads_back one_trim_sys (entry_new [7]) 1 (vl_read memory_ops 1 (sv_view one_trim_sys))"
    using concurrent_appends_safe[OF i start_sys one_append_reach t one_trim_reach] by auto
  ultimately show ?thesis by (simp add: reads_back_def)
qed

text \<open>C13. An append is never blocked for good: in any state of such an execution in which nobody is
  reconfiguring, an append that starts and then runs on finishes, and returns the tail of the log
  at that moment, sealed or not.\<close>

theorem concurrent_append_finishes:
  assumes "\<forall>k \<ge> 1. i \<noteq> loglet_name k" and "vlog_init memory_factory (meta_new (chain_new i)) = Inr y0"
    and "vlog_reach (orderly memory_ops) memory_ops memory_factory y0 y"
    and "\<forall>u k. sv_tasks y u = Some k \<longrightarrow> \<not> in_reconfigure k" and "sv_tasks y t = None"
  shows "\<exists>n y' T. vl_check_tail memory_ops (sv_view y) = Inr T \<and>
    vlog_schedule memory_ops memory_factory (Spawn t (CallAppend e) # replicate n (Run t)) y = Some y' \<and>
    sv_tasks y' = (sv_tasks y)(t \<mapsto> AppDone e (Inr T))"
  by (rule mvl.append_not_blocked_reach[OF assms])

theorem concurrent_append_finishes_witness:
  "\<exists>n y'. vlog_schedule memory_ops memory_factory (Spawn 1 (CallAppend (entry_new [8])) # replicate n (Run 1)) one_append_sys =
     Some y' \<and> sv_tasks y' 1 = Some (AppDone (entry_new [8]) (Inr 2))"
proof -
  have "\<forall>k \<ge> 1. ''memory-0'' \<noteq> loglet_name k" using loglet_name_not_memory by metis
  moreover have "\<forall>u k. sv_tasks one_append_sys u = Some k \<longrightarrow> \<not> in_reconfigure k" "sv_tasks one_append_sys 1 = None"
    by (simp_all add: one_append_sys_def)
  moreover have "vl_check_tail memory_ops (sv_view one_append_sys) = Inr 2"
    by (simp add: one_append_sys_def vl_check_tail_def get_active_loglet_def vlog_simps start_sys_def)
  ultimately show ?thesis
    using concurrent_append_finishes[OF _ start_sys one_append_reach, of 1 "entry_new [8]"] by fastforce
qed

text \<open>C14. The steps of an append, run without interruption, are \<open>VirtualLog::append\<close> as a function: from any
  state, the schedule that runs the call to its end exists whenever the function returns, with the
  same result and the same virtual log, over loglets and factories of any kind.\<close>

theorem append_steps_are_append:
  assumes "handles_ok y" and "sv_tasks y t = None" and "vl_append ops create e (sv_view y) = Some (r, v')"
  shows "\<exists>n y'. vlog_schedule ops create (Spawn t (CallAppend e) # replicate n (Run t)) y = Some y' \<and>
    sv_tasks y' = (sv_tasks y)(t \<mapsto> AppDone e r) \<and> sv_view y' = v'"
  by (rule append_alone[OF assms])

theorem append_steps_are_append_witness:
  "\<exists>n y'. vlog_schedule memory_ops memory_factory (Spawn 0 (CallAppend (entry_new [7])) # replicate n (Run 0)) start_sys =
     Some y' \<and> sv_tasks y' 0 = Some (AppDone (entry_new [7]) (Inr 1))"
proof -
  have "\<exists>v'. vl_append memory_ops memory_factory (entry_new [7]) (sv_view start_sys) = Some (Inr 1, v')"
    by (subst vl_append.simps) (simp add: get_active_loglet_def vlog_simps start_sys_def)
  moreover have "handles_ok start_sys" "sv_tasks start_sys 0 = None" by (simp_all add: handles_ok_def start_sys_def)
  ultimately show ?thesis
    using append_steps_are_append[of start_sys 0 memory_ops memory_factory "entry_new [7]" "Inr 1"] by fastforce
qed

text \<open>C15. Overlapping reconfigurations lose an acknowledged entry: there is an interleaving of two
  appends to a sealed log in which the slower reconfiguration seals the old loglet, reads the version
  and the chain only after the faster one has installed its own, and closes the new segment at the
  position where it began. Both appends return position 1, and the entry of the first is gone.\<close>

theorem overlapping_reconfigurations_lose_append:
  "\<exists>y0 y. vlog_init memory_factory (meta_new (chain_new ''memory-0'')) = Inr y0 \<and>
     vlog_reach (\<lambda>_. True) memory_ops memory_factory y0 y \<and>
     sv_tasks y 1 = Some (AppDone (entry_new [7]) (Inr 1)) \<and> sv_tasks y 2 = Some (AppDone (entry_new [8]) (Inr 1)) \<and>
     vl_read memory_ops 1 (sv_view y) = Inr (Some (entry_new [8]))"
proof -
  have "\<exists>y. vlog_schedule memory_ops memory_factory lost_append start_sys = Some y \<and>
     sv_tasks y 1 = Some (AppDone (entry_new [7]) (Inr 1)) \<and> sv_tasks y 2 = Some (AppDone (entry_new [8]) (Inr 1)) \<and>
     vl_read memory_ops 1 (sv_view y) = Inr (Some (entry_new [8]))"
    by (simp add: vlog_simps lost_append_def start_sys_def vl_read_def find_segment_def in_segment_def
      global_to_local_def ml_read_def ml_index_def word_le_nat_alt)
  then show ?thesis using start_sys schedule_reach by blast
qed

end
