(* ===== verification/Engine_Steps.thy ===== *)
theory Engine_Steps
  imports Base_Engine
begin

text \<open>
  Engines of several servers on one log, step by step (\<open>base_engine.rs\<close>). Callers send requests
  into the channel of an engine and wait for their reply channel; the apply loop of each engine takes
  one request at a time and then one entry at a time, and the loops of different servers interleave
  freely. A loop may die in the middle of a request, which its callers see as an error, and a new
  engine may be started on the store it leaves behind. Anybody may seal the log, or trim it up to where
  the slowest engine stands.

  A caller is a number, and its ticket says what it asked for and what it was told.
\<close>

section \<open>Steps\<close>

datatype job = ProposeJob nat LogPos return_value | SyncJob nat LogPos

record 'x engine_node =
  en_store :: memory_store
  en_app :: 'x
  en_cursor :: LogPos
  en_job :: "job option"
  en_queue :: "(nat \<times> apply_request) list"
  en_alive :: bool

datatype ticket = Waiting nat apply_request | Answered nat apply_request apply_reply

record ('l, 'x) engine_sys =
  es_log :: 'l
  es_nodes :: "'x engine_node list"
  es_tickets :: "nat \<rightharpoonup> ticket"

definition CHANNEL_CAPACITY :: nat where
  "CHANNEL_CAPACITY = 256"

text \<open>Taking a request from the channel: the call that touches the log.\<close>

fun take_request ::
  "'l loglet_ops \<Rightarrow> 'l \<Rightarrow> nat \<Rightarrow> apply_request \<Rightarrow> 'x engine_node \<Rightarrow>
   ((nat \<times> apply_reply) option \<times> 'l \<times> 'x engine_node) option" where
  "take_request ops log t (Propose en) nd =
     (case lg_append ops en log of
        None \<Rightarrow> None
      | Some (Inl err, log') \<Rightarrow> Some (Some (t, Proposed (Inl err)), log', nd)
      | Some (Inr target_pos, log') \<Rightarrow> Some (None, log', nd\<lparr>en_job := Some (ProposeJob t target_pos Success)\<rparr>))"
| "take_request ops log t Sync nd =
     (case lg_check_tail ops log of
        Inl err \<Rightarrow> Some (Some (t, Synced (Inl err)), log, nd)
      | Inr tail \<Rightarrow> Some (None, log, nd\<lparr>en_job := Some (SyncJob t tail)\<rparr>))"

text \<open>One round of the two loops.\<close>

fun job_step ::
  "'l loglet_ops \<Rightarrow> 'x applicator_fn \<Rightarrow> 'l \<Rightarrow> job \<Rightarrow> 'x engine_node \<Rightarrow> (nat \<times> apply_reply) option \<times> 'x engine_node" where
  "job_step ops app log (ProposeJob t target_pos target_return) nd =
     (if en_cursor nd \<le> target_pos then
        (case apply_one ops app log (en_cursor nd) (en_store nd) (en_app nd) of
           (Inl err, s', x') \<Rightarrow> (Some (t, Proposed (Inl err)), nd\<lparr>en_store := s', en_app := x', en_job := None\<rparr>)
         | (Inr rv, s', x') \<Rightarrow>
             (None, nd\<lparr>en_store := s', en_app := x', en_cursor := en_cursor nd + 1,
                en_job := Some (ProposeJob t target_pos (if en_cursor nd = target_pos then rv else target_return))\<rparr>))
      else (Some (t, Proposed (Inr target_return)), nd\<lparr>en_job := None\<rparr>))"
| "job_step ops app log (SyncJob t tail) nd =
     (if en_cursor nd < tail then
        (case apply_one ops app log (en_cursor nd) (en_store nd) (en_app nd) of
           (Inl err, s', x') \<Rightarrow> (Some (t, Synced (Inl err)), nd\<lparr>en_store := s', en_app := x', en_job := None\<rparr>)
         | (Inr rv, s', x') \<Rightarrow> (None, nd\<lparr>en_store := s', en_app := x', en_cursor := en_cursor nd + 1\<rparr>))
      else (Some (t, Synced (Inr tail)), nd\<lparr>en_job := None\<rparr>))"

definition node_step ::
  "'l loglet_ops \<Rightarrow> 'x applicator_fn \<Rightarrow> 'l \<Rightarrow> 'x engine_node \<Rightarrow>
   ((nat \<times> apply_reply) option \<times> 'l \<times> 'x engine_node) option" where
  "node_step ops app log nd =
     (case en_job nd of
        Some j \<Rightarrow> (case job_step ops app log j nd of (r, nd') \<Rightarrow> Some (r, log, nd'))
      | None \<Rightarrow>
          (case en_queue nd of
             [] \<Rightarrow> Some (None, log, nd)
           | (t, req) # q \<Rightarrow> take_request ops log t req (nd\<lparr>en_queue := q\<rparr>)))"

fun error_reply :: "apply_request \<Rightarrow> relos_error \<Rightarrow> apply_reply" where
  "error_reply (Propose en) err = Proposed (Inl err)"
| "error_reply Sync err = Synced (Inl err)"

definition reply_to :: "(nat \<times> apply_reply) option \<Rightarrow> (nat \<rightharpoonup> ticket) \<Rightarrow> (nat \<rightharpoonup> ticket)" where
  "reply_to r ts =
     (case r of
        None \<Rightarrow> ts
      | Some (t, reply) \<Rightarrow>
          (case ts t of Some (Waiting i req) \<Rightarrow> ts(t \<mapsto> Answered i req reply) | _ \<Rightarrow> ts))"

text \<open>When the loop dies, the channel and the reply senders in it are dropped.\<close>

definition drop_replies :: "nat \<Rightarrow> (nat \<rightharpoonup> ticket) \<Rightarrow> (nat \<rightharpoonup> ticket)" where
  "drop_replies i ts =
     (\<lambda>t. case ts t of
        Some (Waiting j req) \<Rightarrow>
          Some (if j = i then Answered j req (error_reply req (Internal ''apply loop dropped result channel''))
                else Waiting j req)
      | k \<Rightarrow> k)"

datatype engine_event = Submit nat nat apply_request | Advance nat | Kill nat | Restart nat | SealLog | TrimLog

text \<open>What every engine has applied and made durable.\<close>

definition slowest_cursor :: "'x engine_node list \<Rightarrow> LogPos" where
  "slowest_cursor nds = min_list (map en_cursor nds)"

text \<open>A submission waits while the channel is full; the event then has no effect yet.\<close>

fun engine_exec ::
  "'l loglet_ops \<Rightarrow> 'x applicator_fn \<Rightarrow> 'x \<Rightarrow> engine_event \<Rightarrow> ('l, 'x) engine_sys \<Rightarrow> ('l, 'x) engine_sys option" where
  "engine_exec ops app x0 (Submit t i req) y =
     (if i < length (es_nodes y) \<and> es_tickets y t = None then
        (let nd = es_nodes y ! i in
         if \<not> en_alive nd then
           Some (y\<lparr>es_tickets := (es_tickets y)(t \<mapsto> Answered i req (error_reply req (Internal ''apply loop has shut down'')))\<rparr>)
         else if length (en_queue nd) < CHANNEL_CAPACITY then
           Some (y\<lparr>es_nodes := (es_nodes y)[i := nd\<lparr>en_queue := en_queue nd @ [(t, req)]\<rparr>],
             es_tickets := (es_tickets y)(t \<mapsto> Waiting i req)\<rparr>)
         else Some y)
      else Some y)"
| "engine_exec ops app x0 (Advance i) y =
     (if i < length (es_nodes y) \<and> en_alive (es_nodes y ! i) then
        (case node_step ops app (es_log y) (es_nodes y ! i) of
           None \<Rightarrow> None
         | Some (r, log', nd') \<Rightarrow>
             Some \<lparr>es_log = log', es_nodes = (es_nodes y)[i := nd'], es_tickets = reply_to r (es_tickets y)\<rparr>)
      else Some y)"
| "engine_exec ops app x0 (Kill i) y =
     (if i < length (es_nodes y) then
        Some (y\<lparr>es_nodes := (es_nodes y)[i := (es_nodes y ! i)\<lparr>en_job := None, en_queue := [], en_alive := False\<rparr>],
          es_tickets := drop_replies i (es_tickets y)\<rparr>)
      else Some y)"
| "engine_exec ops app x0 (Restart i) y =
     (if i < length (es_nodes y) \<and> \<not> en_alive (es_nodes y ! i) then
        (case engine_new (es_log y) (en_store (es_nodes y ! i)) x0 of
           Inl err \<Rightarrow> Some y
         | Inr be \<Rightarrow>
             Some (y\<lparr>es_nodes := (es_nodes y)[i := \<lparr>en_store = be_store be, en_app = be_app be, en_cursor = be_cursor be,
               en_job = None, en_queue = [], en_alive = True\<rparr>]\<rparr>))
      else Some y)"
| "engine_exec ops app x0 SealLog y =
     (case lg_seal ops (es_log y) of (r, log') \<Rightarrow> Some (y\<lparr>es_log := log'\<rparr>))"
| "engine_exec ops app x0 TrimLog y =
     (if es_nodes y = [] then Some y
      else (case lg_trim ops (slowest_cursor (es_nodes y)) (es_log y) of (r, log') \<Rightarrow> Some (y\<lparr>es_log := log'\<rparr>)))"

fun engine_run ::
  "'l loglet_ops \<Rightarrow> 'x applicator_fn \<Rightarrow> 'x \<Rightarrow> engine_event list \<Rightarrow> ('l, 'x) engine_sys \<Rightarrow> ('l, 'x) engine_sys option" where
  "engine_run ops app x0 [] y = Some y"
| "engine_run ops app x0 (ev # evs) y =
     (case engine_exec ops app x0 ev y of None \<Rightarrow> None | Some y' \<Rightarrow> engine_run ops app x0 evs y')"

definition engine_start :: "'l \<Rightarrow> 'x \<Rightarrow> nat \<Rightarrow> ('l, 'x) engine_sys" where
  "engine_start log x0 n =
     \<lparr>es_log = log,
      es_nodes = replicate n \<lparr>en_store = memory_store_new, en_app = x0, en_cursor = LOG_POS_BEGIN, en_job = None,
        en_queue = [], en_alive = True\<rparr>,
      es_tickets = Map.empty\<rparr>"

lemma engine_run_append:
  "engine_run ops app x0 (evs @ fs) y =
     (case engine_run ops app x0 evs y of None \<Rightarrow> None | Some y' \<Rightarrow> engine_run ops app x0 fs y')"
  by (induction evs arbitrary: y) (auto split: option.splits)

end
