(* ===== verification/Engine_Concurrent.thy ===== *)
theory Engine_Concurrent
  imports Engine_Steps "HOL-Library.Sublist"
begin

text \<open>
  What holds of any number of engines on one log under any interleaving of their steps, for any
  applicator and any shared log that meet their contracts. The invariant ties every state to an
  abstract log \<open>a\<close> and to the list \<open>own\<close> of the callers whose proposals its entries are.
\<close>

section \<open>The invariant\<close>

definition applied :: "'x engine_node \<Rightarrow> nat" where
  "applied nd = unat (en_cursor nd) - 1"

fun job_client :: "job \<Rightarrow> nat" where
  "job_client (ProposeJob t target ret) = t"
| "job_client (SyncJob t tail) = t"

definition queued :: "'x engine_node \<Rightarrow> nat list" where
  "queued nd = (case en_job nd of None \<Rightarrow> [] | Some j \<Rightarrow> [job_client j]) @ map fst (en_queue nd)"

fun ticket_request :: "ticket \<Rightarrow> apply_request" where
  "ticket_request (Waiting i req) = req"
| "ticket_request (Answered i req r) = req"

fun engine_job_ok :: "app_sem \<Rightarrow> alog \<Rightarrow> nat list \<Rightarrow> (nat \<rightharpoonup> ticket) \<Rightarrow> nat \<Rightarrow> nat \<Rightarrow> job \<Rightarrow> bool" where
  "engine_job_ok sem a own ts i n (ProposeJob t target ret) \<longleftrightarrow>
     (\<exists>q < length own. own ! q = t \<and> ts t = Some (Waiting i (Propose (al_entries a ! q))) \<and>
        target = of_nat (Suc q) \<and> n \<le> Suc q \<and> (n = Suc q \<longrightarrow> returned sem a q ret))"
| "engine_job_ok sem a own ts i n (SyncJob t tail) \<longleftrightarrow>
     ts t = Some (Waiting i Sync) \<and> t \<notin> set own \<and> (\<exists>T \<le> length (al_entries a). tail = of_nat (Suc T))"

definition eng_node_ok :: "app_sem \<Rightarrow> alog \<Rightarrow> nat list \<Rightarrow> (nat \<rightharpoonup> ticket) \<Rightarrow> nat \<Rightarrow> 'x engine_node \<Rightarrow> bool" where
  "eng_node_ok sem a own ts i nd \<longleftrightarrow> al_trim a \<le> Suc (applied nd) \<and> en_cursor nd = of_nat (Suc (applied nd)) \<and> replayed sem a (applied nd) (en_store nd) \<and>
     distinct (queued nd) \<and> (\<not> en_alive nd \<longrightarrow> queued nd = []) \<and>
     (\<forall>(t, req) \<in> set (en_queue nd). ts t = Some (Waiting i req) \<and> t \<notin> set own) \<and>
     (\<forall>j. en_job nd = Some j \<longrightarrow> engine_job_ok sem a own ts i (applied nd) j)"

text \<open>Why a request can fail: the loop has died, or an entry of the log is refused.\<close>

definition engine_failure :: "app_sem \<Rightarrow> alog \<Rightarrow> relos_error \<Rightarrow> bool" where
  "engine_failure sem a err \<longleftrightarrow> err = Internal ''apply loop dropped result channel'' \<or> err = Internal ''apply loop has shut down'' \<or>
     (\<exists>k m. k < length (al_entries a) \<and> replay sem 1 (take k (al_entries a)) Map.empty = Inr m \<and>
        sem (al_entries a ! k) (of_nat (Suc k)) m = Inl err)"

fun engine_reply_ok ::
  "app_sem \<Rightarrow> alog \<Rightarrow> nat list \<Rightarrow> nat \<Rightarrow> nat \<Rightarrow> apply_request \<Rightarrow> apply_reply \<Rightarrow> bool" where
  "engine_reply_ok sem a own n t (Propose en) (Proposed (Inr rv)) \<longleftrightarrow>
     (\<exists>q < length own. own ! q = t \<and> al_entries a ! q = en \<and> returned sem a q rv)"
| "engine_reply_ok sem a own n t Sync (Synced (Inr tail)) \<longleftrightarrow> (\<exists>T \<le> n. tail = of_nat (Suc T))"
| "engine_reply_ok sem a own n t (Propose en) (Proposed (Inl err)) \<longleftrightarrow> engine_failure sem a err"
| "engine_reply_ok sem a own n t Sync (Synced (Inl err)) \<longleftrightarrow> engine_failure sem a err"
| "engine_reply_ok sem a own n t _ _ \<longleftrightarrow> False"

definition tickets_ok :: "app_sem \<Rightarrow> alog \<Rightarrow> nat list \<Rightarrow> 'x engine_node list \<Rightarrow> (nat \<rightharpoonup> ticket) \<Rightarrow> bool" where
  "tickets_ok sem a own nds ts \<longleftrightarrow>
     (\<forall>t i req. ts t = Some (Waiting i req) \<longrightarrow> i < length nds \<and> t \<in> set (queued (nds ! i))) \<and>
     (\<forall>t i req r. ts t = Some (Answered i req r) \<longrightarrow> i < length nds \<and> engine_reply_ok sem a own (applied (nds ! i)) t req r) \<and>
     (\<forall>q < length own. \<exists>k. ts (own ! q) = Some k \<and> ticket_request k = Propose (al_entries a ! q))"

definition engines_ok ::
  "('l \<Rightarrow> alog \<Rightarrow> bool) \<Rightarrow> app_sem \<Rightarrow> ('l, 'x) engine_sys \<Rightarrow> alog \<Rightarrow> nat list \<Rightarrow> bool" where
  "engines_ok rel sem y a own \<longleftrightarrow> rel (es_log y) a \<and> al_trim a \<le> al_tail a \<and> length own = length (al_entries a) \<and> distinct own \<and>
     (\<forall>i < length (es_nodes y). eng_node_ok sem a own (es_tickets y) i (es_nodes y ! i)) \<and>
     tickets_ok sem a own (es_nodes y) (es_tickets y)"

definition grows :: "alog \<Rightarrow> nat list \<Rightarrow> alog \<Rightarrow> nat list \<Rightarrow> bool" where
  "grows a own a' own' \<longleftrightarrow> a' = a \<and> own' = own \<or> (\<exists>en t. a' = al_push en a \<and> own' = own @ [t]) \<or>
     (\<exists>T. a' = a\<lparr>al_trim := T\<rparr> \<and> own' = own)"

lemma grows_intros: "grows a own a own" "grows a own (al_push en a) (own @ [t])" "grows a own (a\<lparr>al_trim := T\<rparr>) own"
  by (auto simp: grows_def)

lemma sys_fields:
  "y\<lparr>es_nodes := nds\<rparr> = \<lparr>es_log = es_log y, es_nodes = nds, es_tickets = es_tickets y\<rparr>"
  "y\<lparr>es_nodes := nds, es_tickets := ts\<rparr> = \<lparr>es_log = es_log y, es_nodes = nds, es_tickets = ts\<rparr>"
  by (cases y, simp)+

section \<open>The invariant under a trimmed and a longer log\<close>

lemma engine_job_ok_trim [simp]: "engine_job_ok sem (a\<lparr>al_trim := T\<rparr>) own ts i n j = engine_job_ok sem a own ts i n j"
  by (cases j) simp_all

lemma engine_reply_ok_trim [simp]: "engine_reply_ok sem (a\<lparr>al_trim := T\<rparr>) own n t req r = engine_reply_ok sem a own n t req r"
  by (induction sem a own n t req r rule: engine_reply_ok.induct) (simp_all add: engine_failure_def)

lemma returned_push:
  "returned sem a q rv \<Longrightarrow> q < length (al_entries a) \<Longrightarrow> returned sem (al_push e a) q rv"
  by (simp add: returned_def nth_append)

lemma engine_failure_push: "engine_failure sem a err \<Longrightarrow> engine_failure sem (al_push e a) err"
  unfolding engine_failure_def by (auto simp: nth_append)

lemma engine_reply_ok_push:
  "engine_reply_ok sem a own n t req r \<Longrightarrow> length own = length (al_entries a) \<Longrightarrow> engine_reply_ok sem (al_push e a) (own @ [u]) n t req r"
  by (induction sem a own n t req r rule: engine_reply_ok.induct)
    (auto simp: nth_append engine_failure_push intro: returned_push less_SucI)

lemma engine_job_ok_push:
  "engine_job_ok sem a own ts i n j \<Longrightarrow> length own = length (al_entries a) \<Longrightarrow> job_client j \<noteq> u \<Longrightarrow>
   engine_job_ok sem (al_push e a) (own @ [u]) ts i n j"
  by (cases j) (auto simp: nth_append intro: returned_push less_SucI le_SucI)

lemma eng_node_ok_push:
  assumes "eng_node_ok sem a own ts i nd" "length own = length (al_entries a)" "u \<notin> set (queued nd)"
  shows "eng_node_ok sem (al_push e a) (own @ [u]) ts i nd"
proof -
  have "engine_job_ok sem (al_push e a) (own @ [u]) ts i (applied nd) j" if "en_job nd = Some j" for j
    using assms that by (intro engine_job_ok_push) (auto simp: eng_node_ok_def queued_def)
  moreover have "t \<noteq> u" if "(t, req) \<in> set (en_queue nd)" for t req
    using assms(3) that by (force simp: queued_def)
  ultimately show ?thesis using assms(1) replayed_push by (auto simp: eng_node_ok_def)
qed

lemma engine_reply_ok_mono: "engine_reply_ok sem a own n t req r \<Longrightarrow> n \<le> n' \<Longrightarrow> engine_reply_ok sem a own n' t req r"
  by (induction sem a own n t req r rule: engine_reply_ok.induct) (auto intro: order_trans)

lemma engine_job_ok_tickets:
  "engine_job_ok sem a own ts i n j \<Longrightarrow> ts' (job_client j) = ts (job_client j) \<Longrightarrow> engine_job_ok sem a own ts' i n j"
  by (cases j) auto

lemma eng_node_ok_tickets:
  assumes "eng_node_ok sem a own ts i nd" "\<And>t. t \<in> set (queued nd) \<Longrightarrow> ts' t = ts t"
  shows "eng_node_ok sem a own ts' i nd"
proof -
  have "engine_job_ok sem a own ts' i (applied nd) j" if "en_job nd = Some j" for j
  proof (rule engine_job_ok_tickets)
    show "engine_job_ok sem a own ts i (applied nd) j" using assms(1) that by (simp add: eng_node_ok_def)
    show "ts' (job_client j) = ts (job_client j)" using that by (intro assms(2)) (simp add: queued_def)
  qed
  moreover have "\<forall>(t, req) \<in> set (en_queue nd). ts' t = Some (Waiting i req) \<and> t \<notin> set own"
  proof (clarify)
    fix t req
    assume q: "(t, req) \<in> set (en_queue nd)"
    then have "t \<in> set (queued nd)" by (force simp: queued_def)
    with q assms(1) assms(2)[of t] show "ts' t = Some (Waiting i req) \<and> t \<notin> set own" by (auto simp: eng_node_ok_def)
  qed
  ultimately show ?thesis using assms(1) by (simp add: eng_node_ok_def)
qed

text \<open>Whoever waits at a server waits for an answer from there.\<close>

lemma queued_waiting:
  assumes "eng_node_ok sem a own ts i nd" "t \<in> set (queued nd)"
  shows "\<exists>req. ts t = Some (Waiting i req)"
proof (cases "\<exists>j. en_job nd = Some j \<and> job_client j = t")
  case True
  then obtain j where "en_job nd = Some j" "job_client j = t" by blast
  with assms(1) show ?thesis by (cases j) (auto simp: eng_node_ok_def)
next
  case False
  with assms show ?thesis by (auto simp: eng_node_ok_def queued_def split: option.splits)
qed

text \<open>A step of one server: the other servers are untouched.\<close>

lemma engines_ok_step:
  assumes ok: "engines_ok rel sem y a own" and i: "i < length (es_nodes y)"
    and log: "rel log' a'" "al_trim a' \<le> al_tail a'" "length own' = length (al_entries a')" "distinct own'"
    and node: "eng_node_ok sem a' own' ts' i nd'"
    and tickets: "tickets_ok sem a' own' ((es_nodes y)[i := nd']) ts'"
    and others: "\<And>j. j < length (es_nodes y) \<Longrightarrow> j \<noteq> i \<Longrightarrow> eng_node_ok sem a' own' ts' j (es_nodes y ! j)"
  shows "engines_ok rel sem \<lparr>es_log = log', es_nodes = (es_nodes y)[i := nd'], es_tickets = ts'\<rparr> a' own'"
  using assms by (auto simp: engines_ok_def nth_list_update)

lemma others_keep:
  assumes "engines_ok rel sem y a own" "j < length (es_nodes y)" "j \<noteq> i"
    and "\<And>t. ts' t \<noteq> es_tickets y t \<Longrightarrow> es_tickets y t = None \<or> (\<exists>req. es_tickets y t = Some (Waiting i req))"
  shows "eng_node_ok sem a own ts' j (es_nodes y ! j)"
proof -
  have nd: "eng_node_ok sem a own (es_tickets y) j (es_nodes y ! j)" using assms(1,2) by (simp add: engines_ok_def)
  then show ?thesis
  proof (rule eng_node_ok_tickets)
    fix t
    assume "t \<in> set (queued (es_nodes y ! j))"
    from queued_waiting[OF nd this] obtain req where "es_tickets y t = Some (Waiting j req)" by blast
    with assms(3) assms(4)[of t] show "ts' t = es_tickets y t" by auto
  qed
qed

text \<open>What callers that had no ticket in an earlier state, with tickets \<open>ts0\<close> and \<open>N\<close> entries in the log,
  can be told.\<close>

definition later :: "(nat \<rightharpoonup> ticket) \<Rightarrow> nat \<Rightarrow> ('l, 'x) engine_sys \<Rightarrow> bool" where
  "later ts0 N y \<longleftrightarrow>
     (\<forall>t i T. ts0 t = None \<longrightarrow> es_tickets y t = Some (Answered i Sync (Synced (Inr T))) \<longrightarrow> N < unat T) \<and>
     (\<forall>t i T. ts0 t = None \<longrightarrow> i < length (es_nodes y) \<longrightarrow> en_job (es_nodes y ! i) = Some (SyncJob t T) \<longrightarrow> N < unat T)"

lemma reply_to_answered:
  "reply_to r ts t = Some (Answered i req reply) \<Longrightarrow> ts t = Some (Answered i req reply) \<or> r = Some (t, reply)"
  by (auto simp: reply_to_def split: option.splits prod.splits ticket.splits if_splits)

lemma later_advanced:
  assumes "later ts0 N y" "i < length (es_nodes y)"
    and "\<And>t T. r = Some (t, Synced (Inr T)) \<Longrightarrow> ts0 t = None \<Longrightarrow> N < unat T"
    and "\<And>t T. en_job nd' = Some (SyncJob t T) \<Longrightarrow> ts0 t = None \<Longrightarrow> N < unat T"
  shows "later ts0 N \<lparr>es_log = l, es_nodes = (es_nodes y)[i := nd'], es_tickets = reply_to r (es_tickets y)\<rparr>"
  unfolding later_def
proof (intro conjI allI impI)
  fix t j T
  assume "ts0 t = None"
    "es_tickets \<lparr>es_log = l, es_nodes = (es_nodes y)[i := nd'], es_tickets = reply_to r (es_tickets y)\<rparr> t =
       Some (Answered j Sync (Synced (Inr T)))"
  then show "N < unat T" using reply_to_answered[of r "es_tickets y" t j Sync "Synced (Inr T)"] assms(1,3)
    by (auto simp: later_def)
next
  fix t j T
  assume "ts0 t = None"
    "j < length (es_nodes \<lparr>es_log = l, es_nodes = (es_nodes y)[i := nd'], es_tickets = reply_to r (es_tickets y)\<rparr>)"
    "en_job (es_nodes \<lparr>es_log = l, es_nodes = (es_nodes y)[i := nd'], es_tickets = reply_to r (es_tickets y)\<rparr> ! j) = Some (SyncJob t T)"
  then show "N < unat T" using assms(1,2,4) by (cases "j = i") (auto simp: later_def)
qed

lemma job_step_shape:
  assumes "job_step ops app l j nd = (r, nd')" "en_job nd = Some j"
  shows "en_queue nd' = en_queue nd \<and> en_alive nd' = en_alive nd \<and>
    (en_job nd' = None \<or> (\<exists>j'. en_job nd' = Some j') \<and> en_cursor nd' = en_cursor nd + 1)"
    and "r = Some (t, Synced (Inr T)) \<or> en_job nd' = Some (SyncJob t T) \<Longrightarrow> j = SyncJob t T"
  using assms by (cases j; auto split: if_splits prod.splits sum.splits)+

lemma eng_node_ok_parts:
  assumes "eng_node_ok sem a own ts i nd"
  shows "en_cursor nd = of_nat (Suc (applied nd))" "replayed sem a (applied nd) (en_store nd)"
    "applied nd \<le> length (al_entries a)" "distinct (queued nd)"
    "(t, req) \<in> set (en_queue nd) \<Longrightarrow> ts t = Some (Waiting i req) \<and> t \<notin> set own"
    "en_job nd = Some j \<Longrightarrow> engine_job_ok sem a own ts i (applied nd) j" "al_trim a \<le> Suc (applied nd)"
  using assms by (auto simp: eng_node_ok_def replayed_def)

lemma engines_ok_parts:
  assumes "engines_ok rel sem y a own"
  shows "rel (es_log y) a" "al_trim a \<le> al_tail a" "length own = length (al_entries a)" "distinct own"
    "i < length (es_nodes y) \<Longrightarrow> eng_node_ok sem a own (es_tickets y) i (es_nodes y ! i)"
    "tickets_ok sem a own (es_nodes y) (es_tickets y)"
  using assms by (simp_all add: engines_ok_def)

text \<open>The tickets after a step of server \<open>i\<close> that answers at most one of its callers.\<close>

lemma replies_keep:
  assumes "tickets_ok sem a own nds ts" "i < length nds" "applied (nds ! i) \<le> applied nd'"
    and "ts u = Some (Answered j req r)"
  shows "engine_reply_ok sem a own (applied (nds[i := nd'] ! j)) u req r"
proof -
  have "engine_reply_ok sem a own (applied (nds ! j)) u req r"
    using assms(1,4) unfolding tickets_ok_def by blast
  then show ?thesis
    using assms(2,3) by (cases "j = i") (auto intro: engine_reply_ok_mono)
qed

lemma tickets_ok_update:
  assumes "tickets_ok sem a own nds ts" "i < length nds" "applied (nds ! i) \<le> applied nd'"
    and "set (queued (nds ! i)) \<subseteq> insert t (set (queued nd'))" "ts t = Some (Waiting i req)"
    and "engine_reply_ok sem a own (applied nd') t req r"
  shows "tickets_ok sem a own (nds[i := nd']) (ts(t \<mapsto> Answered i req r))"
proof -
  have "engine_reply_ok sem a own (applied (nds[i := nd'] ! j)) u rq rp" if "ts u = Some (Answered j rq rp)" for u j rq rp
    by (rule replies_keep[OF assms(1-3) that])
  moreover have "u \<in> set (queued (nds[i := nd'] ! j))" if "ts u = Some (Waiting j rq)" "u \<noteq> t" for u j rq
    using assms(1,2,4) that by (cases "j = i") (auto simp: tickets_ok_def)
  moreover have "\<exists>k. (ts(t \<mapsto> Answered i req r)) (own ! q) = Some k \<and> ticket_request k = Propose (al_entries a ! q)"
    if "q < length own" for q
    using assms(1,5) that by (force simp: tickets_ok_def)
  ultimately show ?thesis using assms(1,2,6) by (auto simp: tickets_ok_def)
qed

lemma tickets_ok_node:
  assumes "tickets_ok sem a own nds ts" "i < length nds" "applied (nds ! i) \<le> applied nd'"
    and "set (queued (nds ! i)) \<subseteq> set (queued nd')"
  shows "tickets_ok sem a own (nds[i := nd']) ts"
proof -
  have "engine_reply_ok sem a own (applied (nds[i := nd'] ! j)) u rq rp" if "ts u = Some (Answered j rq rp)" for u j rq rp
    by (rule replies_keep[OF assms(1-3) that])
  moreover have "u \<in> set (queued (nds[i := nd'] ! j))" if "ts u = Some (Waiting j rq)" for u j rq
    using assms(1,2,4) that by (cases "j = i") (auto simp: tickets_ok_def)
  ultimately show ?thesis using assms(1) by (auto simp: tickets_ok_def)
qed

lemma tickets_ok_push:
  assumes "tickets_ok sem a own nds ts" "length own = length (al_entries a)" "ts t = Some (Waiting i (Propose en))"
  shows "tickets_ok sem (al_push en a) (own @ [t]) nds ts"
  using assms engine_reply_ok_push[OF _ assms(2)] unfolding tickets_ok_def
  by (auto simp: nth_append less_Suc_eq)

text \<open>The channel of a server never holds more than its capacity.\<close>

definition channels_ok :: "('l, 'x) engine_sys \<Rightarrow> bool" where
  "channels_ok y \<longleftrightarrow> (\<forall>nd \<in> set (es_nodes y). length (en_queue nd) \<le> CHANNEL_CAPACITY)"

lemma node_step_queue:
  "node_step ops app l nd = Some (r, l', nd') \<Longrightarrow> length (en_queue nd') \<le> length (en_queue nd)"
  unfolding node_step_def
  by (cases "en_job nd"; cases "en_queue nd"; cases "snd (hd (en_queue nd))")
    (auto simp: job_step_shape split: prod.splits option.splits sum.splits)

lemma exec_channels:
  assumes "engine_exec ops app x0 ev y = Some y'" "channels_ok y"
  shows "channels_ok y' \<and> length (es_nodes y') = length (es_nodes y)"
proof -
  have put: "\<forall>nd \<in> set ((es_nodes y)[i := nd']). length (en_queue nd) \<le> CHANNEL_CAPACITY"
    if "length (en_queue nd') \<le> CHANNEL_CAPACITY" for i nd'
    using assms(2) that set_update_subset_insert[of "es_nodes y" i nd'] by (auto simp: channels_ok_def)
  have old: "length (en_queue (es_nodes y ! i)) \<le> CHANNEL_CAPACITY" if "i < length (es_nodes y)" for i
    using assms(2) that by (simp add: channels_ok_def)
  show ?thesis
  proof (cases ev)
    case (Advance i)
    show ?thesis
    proof (cases "i < length (es_nodes y) \<and> en_alive (es_nodes y ! i)")
      case True
      then obtain r l' nd' where s: "node_step ops app (es_log y) (es_nodes y ! i) = Some (r, l', nd')"
        "y' = \<lparr>es_log = l', es_nodes = (es_nodes y)[i := nd'], es_tickets = reply_to r (es_tickets y)\<rparr>"
        using assms(1) Advance by (auto split: option.splits)
      then show ?thesis using put[of nd' i] node_step_queue[OF s(1)] old[of i] True by (simp add: channels_ok_def)
    qed (use assms Advance in auto)
  qed (use assms old in \<open>auto simp: channels_ok_def Let_def split: if_splits sum.splits prod.splits
      dest!: set_update_subset_insert[THEN subsetD]\<close>)
qed

lemma run_channels:
  "engine_run ops app x0 evs y = Some y' \<Longrightarrow> channels_ok y \<Longrightarrow> channels_ok y' \<and> length (es_nodes y') = length (es_nodes y)"
  by (induction evs arbitrary: y) (auto split: option.splits dest: exec_channels)

section \<open>The steps of one server\<close>

text \<open>What was asked was submitted.\<close>

lemma exec_asked:
  assumes "engine_exec ops app x0 ev y = Some y'" "es_tickets y' t = Some k"
  shows "(\<exists>k'. es_tickets y t = Some k' \<and> ticket_request k' = ticket_request k) \<or> (\<exists>i. ev = Submit t i (ticket_request k))"
  using assms
  by (cases ev) (auto simp: Let_def drop_replies_def reply_to_def split: if_splits option.splits prod.splits sum.splits ticket.splits)

lemma run_asked:
  assumes "engine_run ops app x0 evs y = Some y'" "es_tickets y' t = Some k"
  shows "(\<exists>k'. es_tickets y t = Some k' \<and> ticket_request k' = ticket_request k) \<or> (\<exists>i. Submit t i (ticket_request k) \<in> set evs)"
  using assms(1)
proof (induction evs arbitrary: y)
  case (Cons ev evs)
  then obtain y1 where y1: "engine_exec ops app x0 ev y = Some y1" "engine_run ops app x0 evs y1 = Some y'"
    by (auto split: option.splits)
  from Cons.IH[OF y1(2)] show ?case
  proof
    assume "\<exists>k'. es_tickets y1 t = Some k' \<and> ticket_request k' = ticket_request k"
    then obtain k' where "es_tickets y1 t = Some k'" "ticket_request k' = ticket_request k" by blast
    with exec_asked[OF y1(1), of t k'] show ?thesis by auto
  qed auto
qed (use assms(2) in auto)

locale replicas = replica ops rel app sem + shared_log ops rel
  for ops :: "'l loglet_ops" and rel :: "'l \<Rightarrow> alog \<Rightarrow> bool"
  and app :: "'x applicator_fn" and sem :: app_sem
begin

lemma cursor_unat:
  assumes "rel l a" "eng_node_ok sem a own ts i nd"
  shows "unat (en_cursor nd) = Suc (applied nd)"
  using eng_node_ok_parts(1,3)[OF assms(2)] pos_word[OF assms(1), of "applied nd"] by (simp del: of_nat_Suc)

text \<open>Applying the next entry, when there is one.\<close>

lemma apply_node:
  assumes "rel l a" "eng_node_ok sem a own ts i nd" "applied nd < length (al_entries a)"
  shows "(\<exists>err x'. apply_one ops app l (en_cursor nd) (en_store nd) (en_app nd) = (Inl err, en_store nd, x') \<and> engine_failure sem a err) \<or>
         (\<exists>rv s' x'. apply_one ops app l (en_cursor nd) (en_store nd) (en_app nd) = (Inr rv, s', x') \<and>
            replayed sem a (Suc (applied nd)) s' \<and> returned sem a (applied nd) rv)"
proof -
  note p = eng_node_ok_parts[OF assms(2)]
  have "engine_failure sem a err" if "blocked sem a (applied nd) (en_store nd) err" for err
    using that p(2,7) assms(3) by (auto simp: blocked_def engine_failure_def replayed_def simp del: of_nat_Suc split: if_splits)
  moreover have "returned sem a (applied nd) rv"
    if "sem (al_entries a ! applied nd) (of_nat (Suc (applied nd))) (content (en_store nd)) = Inr (rv, m)" for rv m
    using that p(2) unfolding returned_def replayed_def by blast
  ultimately show ?thesis
    using apply_one_spec[OF assms(1) p(2) assms(3), of "en_app nd"] p(1) by (metis (no_types, lifting))
qed

lemma finish_job:
  assumes "engines_ok rel sem y a own" "i < length (es_nodes y)" "nd = es_nodes y ! i" "en_job nd = Some j"
    and "es_tickets y (job_client j) = Some (Waiting i req)" "engine_reply_ok sem a own (applied nd) (job_client j) req r"
  shows "engines_ok rel sem \<lparr>es_log = es_log y, es_nodes = (es_nodes y)[i := nd\<lparr>en_app := x', en_job := None\<rparr>],
    es_tickets = (es_tickets y)(job_client j \<mapsto> Answered i req r)\<rparr> a own"
proof (rule engines_ok_step[OF assms(1,2) engines_ok_parts(1-4)[OF assms(1)]])
  let ?nd = "nd\<lparr>en_app := x', en_job := None\<rparr>"
  have nd: "eng_node_ok sem a own (es_tickets y) i nd" using engines_ok_parts(5)[OF assms(1,2)] assms(3) by simp
  have pend: "queued nd = job_client j # queued ?nd" using assms(4) by (simp add: queued_def)
  have same: "applied ?nd = applied nd" by (simp add: applied_def)
  have out: "job_client j \<notin> set (queued ?nd)" using eng_node_ok_parts(4)[OF nd] pend by simp
  have "eng_node_ok sem a own (es_tickets y) i ?nd"
    using nd pend same by (simp add: eng_node_ok_def queued_def)
  then show "eng_node_ok sem a own ((es_tickets y)(job_client j \<mapsto> Answered i req r)) i ?nd"
  proof (rule eng_node_ok_tickets)
    show "((es_tickets y)(job_client j \<mapsto> Answered i req r)) t = es_tickets y t" if "t \<in> set (queued ?nd)" for t
      using out that by (cases "t = job_client j") simp_all
  qed
  show "tickets_ok sem a own ((es_nodes y)[i := ?nd]) ((es_tickets y)(job_client j \<mapsto> Answered i req r))"
    using engines_ok_parts(6)[OF assms(1)] assms(2,3,5,6) pend same
    by (intro tickets_ok_update) auto
  show "eng_node_ok sem a own ((es_tickets y)(job_client j \<mapsto> Answered i req r)) k (es_nodes y ! k)"
    if "k < length (es_nodes y)" "k \<noteq> i" for k
    using assms(5) by (intro others_keep[OF assms(1) that]) (auto split: if_splits)
qed

lemma progress_job:
  assumes "engines_ok rel sem y a own" "i < length (es_nodes y)" "nd = es_nodes y ! i" "en_job nd = Some j"
    and "applied nd < length (al_entries a)" "replayed sem a (Suc (applied nd)) s'"
    and "job_client j' = job_client j" "engine_job_ok sem a own (es_tickets y) i (Suc (applied nd)) j'"
  shows "engines_ok rel sem \<lparr>es_log = es_log y, es_nodes = (es_nodes y)[i := nd\<lparr>en_store := s', en_app := x',
    en_cursor := en_cursor nd + 1, en_job := Some j'\<rparr>], es_tickets = es_tickets y\<rparr> a own"
proof (rule engines_ok_step[OF assms(1,2) engines_ok_parts(1-4)[OF assms(1)]])
  let ?nd = "nd\<lparr>en_store := s', en_app := x', en_cursor := en_cursor nd + 1, en_job := Some j'\<rparr>"
  have nd: "eng_node_ok sem a own (es_tickets y) i nd" using engines_ok_parts(5)[OF assms(1,2)] assms(3) by simp
  have pend: "queued ?nd = queued nd" using assms(4,7) by (simp add: queued_def)
  have cur: "en_cursor ?nd = of_nat (Suc (Suc (applied nd)))"
    using eng_node_ok_parts(1)[OF nd] by simp
  have ap: "applied ?nd = Suc (applied nd)"
    unfolding applied_def cur using pos_word[OF engines_ok_parts(1)[OF assms(1)], of "Suc (applied nd)"] assms(5)
    by (simp add: applied_def)
  show "eng_node_ok sem a own (es_tickets y) i ?nd"
    using nd ap cur assms(6,8) pend unfolding eng_node_ok_def by simp
  show "tickets_ok sem a own ((es_nodes y)[i := ?nd]) (es_tickets y)"
    using engines_ok_parts(6)[OF assms(1)] assms(2,3) pend ap by (intro tickets_ok_node) auto
  show "eng_node_ok sem a own (es_tickets y) k (es_nodes y ! k)" if "k < length (es_nodes y)" "k \<noteq> i" for k
    using engines_ok_parts(5)[OF assms(1)] that by simp
qed

lemma eng_node_updates:
  "nd\<lparr>en_store := en_store nd, en_app := x', en_job := None\<rparr> = nd\<lparr>en_app := x', en_job := None\<rparr>"
  "nd\<lparr>en_app := en_app nd, en_job := None\<rparr> = nd\<lparr>en_job := None\<rparr>"
  "en_job nd = Some j \<Longrightarrow> nd\<lparr>en_store := s', en_app := x', en_cursor := w, en_job := Some j\<rparr> =
     nd\<lparr>en_store := s', en_app := x', en_cursor := w\<rparr>"
  by (cases nd, simp)+

lemma propose_job_step:
  assumes "engines_ok rel sem y a own" "i < length (es_nodes y)" "nd = es_nodes y ! i"
    and j: "en_job nd = Some (ProposeJob t target ret)"
  shows "\<exists>r nd'. job_step ops app (es_log y) (ProposeJob t target ret) nd = (r, nd') \<and>
    engines_ok rel sem \<lparr>es_log = es_log y, es_nodes = (es_nodes y)[i := nd'], es_tickets = reply_to r (es_tickets y)\<rparr> a own"
proof -
  note e = engines_ok_parts[OF assms(1)]
  have nd: "eng_node_ok sem a own (es_tickets y) i nd" using e(5)[OF assms(2)] assms(3) by simp
  obtain q where q: "q < length own" "own ! q = t" "es_tickets y t = Some (Waiting i (Propose (al_entries a ! q)))"
    "target = of_nat (Suc q)" "applied nd \<le> Suc q" "applied nd = Suc q \<Longrightarrow> returned sem a q ret"
    using eng_node_ok_parts(6)[OF nd j] by auto
  have u: "unat target = Suc q" "unat (en_cursor nd) = Suc (applied nd)"
    using pos_word[OF e(1), of q] q(1,4) e(3) cursor_unat[OF e(1) nd] by (simp_all del: of_nat_Suc)
  note fin = finish_job[OF assms(1-3) j]
  show ?thesis
  proof (cases "applied nd \<le> q")
    case False
    then have "applied nd = Suc q" using q(5) by simp
    then have "engine_reply_ok sem a own (applied nd) t (Propose (al_entries a ! q)) (Proposed (Inr ret))" using q(1,2,6) by auto
    with fin[of "Propose (al_entries a ! q)" "Proposed (Inr ret)" "en_app nd"] q(3) False u show ?thesis
      by (simp add: word_le_nat_alt reply_to_def eng_node_updates)
  next
    case True
    then have le: "en_cursor nd \<le> target" and lt: "applied nd < length (al_entries a)"
      using u q(1) e(3) by (simp_all add: word_le_nat_alt)
    from apply_node[OF e(1) nd lt] consider
      (err) err x' where "apply_one ops app (es_log y) (en_cursor nd) (en_store nd) (en_app nd) = (Inl err, en_store nd, x')" "engine_failure sem a err"
    | (ok) rv s' x' where "apply_one ops app (es_log y) (en_cursor nd) (en_store nd) (en_app nd) = (Inr rv, s', x')"
        "replayed sem a (Suc (applied nd)) s'" "returned sem a (applied nd) rv" by blast
    then show ?thesis
    proof cases
      case err
      with fin[of "Propose (al_entries a ! q)" "Proposed (Inl err)" x'] q(3) le show ?thesis
        by (simp add: reply_to_def eng_node_updates)
    next
      case ok
      let ?j = "ProposeJob t target (if en_cursor nd = target then rv else ret)"
      have eq: "en_cursor nd = target \<longleftrightarrow> applied nd = q" using u by (metis nat.inject word_unat_eq_iff)
      have "engine_job_ok sem a own (es_tickets y) i (Suc (applied nd)) ?j"
        using q(1-4) True ok(3) eq by auto
      from progress_job[OF assms(1-3) j lt ok(2) _ this, of x'] ok(1) le show ?thesis
        by (simp add: reply_to_def)
    qed
  qed
qed

lemma sync_job_step:
  assumes "engines_ok rel sem y a own" "i < length (es_nodes y)" "nd = es_nodes y ! i"
    and j: "en_job nd = Some (SyncJob t tail)"
  shows "\<exists>r nd'. job_step ops app (es_log y) (SyncJob t tail) nd = (r, nd') \<and>
    engines_ok rel sem \<lparr>es_log = es_log y, es_nodes = (es_nodes y)[i := nd'], es_tickets = reply_to r (es_tickets y)\<rparr> a own"
proof -
  note e = engines_ok_parts[OF assms(1)]
  have nd: "eng_node_ok sem a own (es_tickets y) i nd" using e(5)[OF assms(2)] assms(3) by simp
  obtain T where T: "es_tickets y t = Some (Waiting i Sync)" "t \<notin> set own" "T \<le> length (al_entries a)" "tail = of_nat (Suc T)"
    using eng_node_ok_parts(6)[OF nd j] by auto
  have u: "unat tail = Suc T" "unat (en_cursor nd) = Suc (applied nd)"
    using pos_word[OF e(1) T(3)] T(4) cursor_unat[OF e(1) nd] by (simp_all del: of_nat_Suc)
  note fin = finish_job[OF assms(1-3) j]
  show ?thesis
  proof (cases "applied nd < T")
    case False
    then have "engine_reply_ok sem a own (applied nd) t Sync (Synced (Inr tail))" using T(4) by (auto intro: exI[of _ T] simp del: of_nat_Suc)
    with fin[of Sync "Synced (Inr tail)" "en_app nd"] T(1) False u show ?thesis
      by (simp add: word_less_nat_alt reply_to_def eng_node_updates)
  next
    case True
    then have less: "en_cursor nd < tail" and lt: "applied nd < length (al_entries a)"
      using u T(3) by (simp_all add: word_less_nat_alt)
    from apply_node[OF e(1) nd lt] consider
      (err) err x' where "apply_one ops app (es_log y) (en_cursor nd) (en_store nd) (en_app nd) = (Inl err, en_store nd, x')" "engine_failure sem a err"
    | (ok) rv s' x' where "apply_one ops app (es_log y) (en_cursor nd) (en_store nd) (en_app nd) = (Inr rv, s', x')"
        "replayed sem a (Suc (applied nd)) s'" by blast
    then show ?thesis
    proof cases
      case err
      with fin[of Sync "Synced (Inl err)" x'] T(1) less show ?thesis
        by (simp add: reply_to_def eng_node_updates)
    next
      case ok
      have "engine_job_ok sem a own (es_tickets y) i (Suc (applied nd)) (SyncJob t tail)"
        using T by (auto simp del: of_nat_Suc)
      from progress_job[OF assms(1-3) j lt ok(2) _ this, of x'] ok(1) less show ?thesis
        by (simp add: reply_to_def eng_node_updates(3)[OF j])
    qed
  qed
qed

lemma take_propose:
  assumes "engines_ok rel sem y a own" "i < length (es_nodes y)" "nd = es_nodes y ! i" "Suc (al_tail a) < 2 ^ 64"
    and q: "en_job nd = None" "en_queue nd = (t, Propose en) # rest" "en_alive nd"
  shows "\<exists>log' nd'. take_request ops (es_log y) t (Propose en) (nd\<lparr>en_queue := rest\<rparr>) = Some (None, log', nd') \<and>
    engines_ok rel sem \<lparr>es_log = log', es_nodes = (es_nodes y)[i := nd'], es_tickets = es_tickets y\<rparr> (al_push en a) (own @ [t])"
proof -
  note e = engines_ok_parts[OF assms(1)]
  have nd: "eng_node_ok sem a own (es_tickets y) i nd" using e(5)[OF assms(2)] assms(3) by simp
  have t: "es_tickets y t = Some (Waiting i (Propose en))" "t \<notin> set own"
    using eng_node_ok_parts(5)[OF nd, of t "Propose en"] q(2) by auto
  obtain log' where l: "lg_append ops en (es_log y) = Some (Inr (of_nat (al_tail a)), log')" "rel log' (al_push en a)"
    using append_open[OF e(1) stays_open[OF e(1)] assms(4)] by blast
  let ?nd = "nd\<lparr>en_queue := rest, en_job := Some (ProposeJob t (of_nat (al_tail a)) Success)\<rparr>"
  have pend: "queued ?nd = queued nd" "queued nd = t # map fst rest" using q by (simp_all add: queued_def)
  have ap: "applied ?nd = applied nd" by (simp add: applied_def)
  have "engines_ok rel sem \<lparr>es_log = log', es_nodes = (es_nodes y)[i := ?nd], es_tickets = es_tickets y\<rparr> (al_push en a) (own @ [t])"
  proof (rule engines_ok_step[OF assms(1,2) l(2)])
    show "al_trim (al_push en a) \<le> al_tail (al_push en a)" "length (own @ [t]) = length (al_entries (al_push en a))" "distinct (own @ [t])"
      using e(2,3,4) t(2) by simp_all
    have "engine_job_ok sem (al_push en a) (own @ [t]) (es_tickets y) i (applied nd) (ProposeJob t (of_nat (al_tail a)) Success)"
      unfolding engine_job_ok.simps using t(1) e(3) eng_node_ok_parts(3)[OF nd]
      by (intro exI[of _ "length own"]) (auto simp: al_tail_def nth_append)
    moreover have "u \<noteq> t" if "(u, req) \<in> set rest" for u req
      using eng_node_ok_parts(4)[OF nd] pend(2) that by force
    ultimately show "eng_node_ok sem (al_push en a) (own @ [t]) (es_tickets y) i ?nd"
      using nd pend(1) ap q replayed_push unfolding eng_node_ok_def by auto
    have "tickets_ok sem a own ((es_nodes y)[i := ?nd]) (es_tickets y)"
      using e(6) assms(2,3) pend(1) ap by (intro tickets_ok_node) auto
    then show "tickets_ok sem (al_push en a) (own @ [t]) ((es_nodes y)[i := ?nd]) (es_tickets y)"
      using tickets_ok_push e(3) t(1) by blast
    show "eng_node_ok sem (al_push en a) (own @ [t]) (es_tickets y) k (es_nodes y ! k)" if "k < length (es_nodes y)" "k \<noteq> i" for k
      using eng_node_ok_push[OF e(5)[OF that(1)] e(3)] queued_waiting[OF e(5)[OF that(1)], of t] t(1) that(2) by auto
  qed
  with l(1) show ?thesis by simp
qed

lemma take_sync:
  assumes "engines_ok rel sem y a own" "i < length (es_nodes y)" "nd = es_nodes y ! i"
    and q: "en_job nd = None" "en_queue nd = (t, Sync) # rest" "en_alive nd"
  shows "\<exists>nd'. take_request ops (es_log y) t Sync (nd\<lparr>en_queue := rest\<rparr>) = Some (None, es_log y, nd') \<and>
    en_job nd' = Some (SyncJob t (of_nat (al_tail a))) \<and>
    engines_ok rel sem \<lparr>es_log = es_log y, es_nodes = (es_nodes y)[i := nd'], es_tickets = es_tickets y\<rparr> a own"
proof -
  note e = engines_ok_parts[OF assms(1)]
  have nd: "eng_node_ok sem a own (es_tickets y) i nd" using e(5)[OF assms(2)] assms(3) by simp
  have t: "es_tickets y t = Some (Waiting i Sync)" "t \<notin> set own"
    using eng_node_ok_parts(5)[OF nd, of t Sync] q(2) by auto
  let ?nd = "nd\<lparr>en_queue := rest, en_job := Some (SyncJob t (of_nat (al_tail a)))\<rparr>"
  have pend: "queued ?nd = queued nd" using q by (simp add: queued_def)
  have ap: "applied ?nd = applied nd" by (simp add: applied_def)
  have "engines_ok rel sem \<lparr>es_log = es_log y, es_nodes = (es_nodes y)[i := ?nd], es_tickets = es_tickets y\<rparr> a own"
  proof (rule engines_ok_step[OF assms(1,2) e(1-4)])
    have "engine_job_ok sem a own (es_tickets y) i (applied nd) (SyncJob t (of_nat (al_tail a)))"
      using t by (auto simp: al_tail_def simp del: of_nat_Suc)
    then show "eng_node_ok sem a own (es_tickets y) i ?nd"
      using nd pend ap q unfolding eng_node_ok_def by auto
    show "tickets_ok sem a own ((es_nodes y)[i := ?nd]) (es_tickets y)"
      using e(6) assms(2,3) pend ap by (intro tickets_ok_node) auto
  qed (use e(5) in simp)
  with check_tail[OF e(1)] show ?thesis by simp
qed

section \<open>Every event\<close>

lemma advance_spec:
  assumes "engines_ok rel sem y a own" "i < length (es_nodes y)" "en_alive (es_nodes y ! i)" "Suc (al_tail a) < 2 ^ 64"
  shows "\<exists>y' a' own'. engine_exec ops app x0 (Advance i) y = Some y' \<and> engines_ok rel sem y' a' own' \<and>
    grows a own a' own'"
proof (cases "en_job (es_nodes y ! i)")
  case (Some j)
  have "\<exists>r nd'. job_step ops app (es_log y) j (es_nodes y ! i) = (r, nd') \<and>
    engines_ok rel sem \<lparr>es_log = es_log y, es_nodes = (es_nodes y)[i := nd'], es_tickets = reply_to r (es_tickets y)\<rparr> a own"
    using propose_job_step[OF assms(1,2) refl] sync_job_step[OF assms(1,2) refl] Some by (cases j) blast+
  then obtain r nd' where "job_step ops app (es_log y) j (es_nodes y ! i) = (r, nd')"
    "engines_ok rel sem \<lparr>es_log = es_log y, es_nodes = (es_nodes y)[i := nd'], es_tickets = reply_to r (es_tickets y)\<rparr> a own"
    by blast
  with Some assms(2,3) show ?thesis
    by (intro exI[of _ "\<lparr>es_log = es_log y, es_nodes = (es_nodes y)[i := nd'], es_tickets = reply_to r (es_tickets y)\<rparr>"]
      exI[of _ a] exI[of _ own]) (simp add: node_step_def grows_intros)
next
  case None
  show ?thesis
  proof (cases "en_queue (es_nodes y ! i)")
    case Nil
    with None assms show ?thesis
      by (intro exI[of _ y] exI[of _ a] exI[of _ own]) (simp add: node_step_def reply_to_def grows_intros)
  next
    case (Cons tr rest)
    obtain t req where tr: "tr = (t, req)" by (cases tr)
    show ?thesis
    proof (cases req)
      case (Propose en)
      with take_propose[OF assms(1,2) refl assms(4) None _ assms(3), of t en rest] Cons tr obtain log' nd' where
        "take_request ops (es_log y) t req ((es_nodes y ! i)\<lparr>en_queue := rest\<rparr>) = Some (None, log', nd')"
        "engines_ok rel sem \<lparr>es_log = log', es_nodes = (es_nodes y)[i := nd'], es_tickets = es_tickets y\<rparr> (al_push en a) (own @ [t])"
        by blast
      with Cons tr None assms(2,3) show ?thesis
        by (intro exI[of _ "\<lparr>es_log = log', es_nodes = (es_nodes y)[i := nd'], es_tickets = es_tickets y\<rparr>"]
          exI[of _ "al_push en a"] exI[of _ "own @ [t]"]) (simp add: node_step_def reply_to_def grows_intros)
    next
      case Sync
      with take_sync[OF assms(1,2) refl None _ assms(3), of t rest] Cons tr obtain nd' where
        "take_request ops (es_log y) t req ((es_nodes y ! i)\<lparr>en_queue := rest\<rparr>) = Some (None, es_log y, nd')"
        "engines_ok rel sem \<lparr>es_log = es_log y, es_nodes = (es_nodes y)[i := nd'], es_tickets = es_tickets y\<rparr> a own"
        by blast
      with Cons tr None assms(2,3) show ?thesis
        by (intro exI[of _ "\<lparr>es_log = es_log y, es_nodes = (es_nodes y)[i := nd'], es_tickets = es_tickets y\<rparr>"]
          exI[of _ a] exI[of _ own]) (simp add: node_step_def reply_to_def grows_intros)
    qed
  qed
qed

lemma submit_spec:
  assumes "engines_ok rel sem y a own"
  shows "\<exists>y'. engine_exec ops app x0 (Submit t i req) y = Some y' \<and> engines_ok rel sem y' a own"
proof (cases "i < length (es_nodes y) \<and> es_tickets y t = None")
  case True
  then have i: "i < length (es_nodes y)" and t: "es_tickets y t = None" by simp_all
  note e = engines_ok_parts[OF assms]
  let ?nd = "es_nodes y ! i"
  have nd: "eng_node_ok sem a own (es_tickets y) i ?nd" using e(5)[OF i] .
  have out: "t \<notin> set own"
    using e(6) t unfolding tickets_ok_def by (metis in_set_conv_nth option.distinct(1))
  have keep: "eng_node_ok sem a own ((es_tickets y)(t \<mapsto> k)) j (es_nodes y ! j)" if "j < length (es_nodes y)" for k j
  proof (rule eng_node_ok_tickets[OF e(5)[OF that]])
    show "((es_tickets y)(t \<mapsto> k)) u = es_tickets y u" if "u \<in> set (queued (es_nodes y ! j))" for u
      using queued_waiting[OF e(5) that] t \<open>j < _\<close> by (cases "u = t") auto
  qed
  have own: "\<forall>q < length own. \<exists>k'. ((es_tickets y)(t \<mapsto> k)) (own ! q) = Some k' \<and> ticket_request k' = Propose (al_entries a ! q)" for k
    using e(6) out unfolding tickets_ok_def by (metis fun_upd_apply nth_mem)
  show ?thesis
  proof (cases "en_alive ?nd")
    case False
    let ?k = "Answered i req (error_reply req (Internal ''apply loop has shut down''))"
    have "engine_reply_ok sem a own n t req (error_reply req (Internal ''apply loop has shut down''))" for n
      by (cases req) (simp_all add: engine_failure_def)
    then have "tickets_ok sem a own (es_nodes y) ((es_tickets y)(t \<mapsto> ?k))"
      using e(6) own[of ?k] i unfolding tickets_ok_def by auto
    then show ?thesis
      using True False e(1-4) keep by (auto simp: Let_def engines_ok_def)
  next
    case alive: True
    show ?thesis
    proof (cases "length (en_queue ?nd) < CHANNEL_CAPACITY")
      case room: True
      let ?n = "?nd\<lparr>en_queue := en_queue ?nd @ [(t, req)]\<rparr>" and ?ts = "(es_tickets y)(t \<mapsto> Waiting i req)"
      have pend: "queued ?n = queued ?nd @ [t]" by (simp add: queued_def)
      have ap: "applied ?n = applied ?nd" by (simp add: applied_def)
      have "t \<notin> set (queued ?nd)" using queued_waiting[OF nd, of t] t by auto
      then have node: "eng_node_ok sem a own ?ts i ?n"
        using keep[OF i, of "Waiting i req"] out pend ap alive unfolding eng_node_ok_def by auto
      have "tickets_ok sem a own ((es_nodes y)[i := ?n]) (es_tickets y)"
        using e(6) i pend ap by (intro tickets_ok_node) auto
      then have "tickets_ok sem a own ((es_nodes y)[i := ?n]) ?ts"
        using own[of "Waiting i req"] pend i unfolding tickets_ok_def by auto
      then have "engines_ok rel sem \<lparr>es_log = es_log y, es_nodes = (es_nodes y)[i := ?n], es_tickets = ?ts\<rparr> a own"
        using keep by (intro engines_ok_step[OF assms i e(1-4) node]) auto
      with True alive room show ?thesis by (simp add: Let_def sys_fields)
    qed (use True alive assms in \<open>simp add: Let_def\<close>)
  qed
qed (use assms in auto)

lemma kill_spec:
  assumes "engines_ok rel sem y a own"
  shows "\<exists>y'. engine_exec ops app x0 (Kill i) y = Some y' \<and> engines_ok rel sem y' a own"
proof (cases "i < length (es_nodes y)")
  case True
  note e = engines_ok_parts[OF assms]
  let ?nd = "es_nodes y ! i"
  let ?n = "?nd\<lparr>en_job := None, en_queue := [], en_alive := False\<rparr>" and ?ts = "drop_replies i (es_tickets y)"
  have n: "queued ?n = []" "applied ?n = applied ?nd" by (simp_all add: queued_def applied_def)
  have node: "eng_node_ok sem a own ?ts i ?n"
    using e(5)[OF True] n unfolding eng_node_ok_def by simp
  have dropped: "engine_reply_ok sem a own m t req (error_reply req (Internal ''apply loop dropped result channel''))" for m t req
    by (cases req) (simp_all add: engine_failure_def)
  have "tickets_ok sem a own ((es_nodes y)[i := ?n]) ?ts"
    unfolding tickets_ok_def
  proof (intro conjI allI impI)
    fix t j req
    assume "?ts t = Some (Waiting j req)"
    then have "es_tickets y t = Some (Waiting j req)" "j \<noteq> i"
      by (auto simp: drop_replies_def split: option.splits ticket.splits if_splits)
    then show "j < length ((es_nodes y)[i := ?n])" "t \<in> set (queued ((es_nodes y)[i := ?n] ! j))"
      using e(6) by (auto simp: tickets_ok_def)
  next
    fix t j req r
    assume a: "?ts t = Some (Answered j req r)"
    show "j < length ((es_nodes y)[i := ?n])"
      using a e(6) by (auto simp: drop_replies_def tickets_ok_def split: option.splits ticket.splits if_splits)
    show "engine_reply_ok sem a own (applied ((es_nodes y)[i := ?n] ! j)) t req r"
    proof (cases "es_tickets y t = Some (Answered j req r)")
      case True
      with replies_keep[OF e(6) \<open>i < length (es_nodes y)\<close> _ this, of ?n] n(2) show ?thesis by simp
    next
      case False
      with a have "r = error_reply req (Internal ''apply loop dropped result channel'')"
        by (auto simp: drop_replies_def split: option.splits ticket.splits if_splits)
      with dropped show ?thesis by simp
    qed
  next
    fix q
    assume "q < length own"
    then obtain k where "es_tickets y (own ! q) = Some k" "ticket_request k = Propose (al_entries a ! q)"
      using e(6) by (auto simp: tickets_ok_def)
    then show "\<exists>k. ?ts (own ! q) = Some k \<and> ticket_request k = Propose (al_entries a ! q)"
      by (cases k) (auto simp: drop_replies_def)
  qed
  moreover have "eng_node_ok sem a own ?ts k (es_nodes y ! k)" if "k < length (es_nodes y)" "k \<noteq> i" for k
    by (rule others_keep[OF assms that])
      (auto simp: drop_replies_def split: option.splits ticket.splits if_splits)
  ultimately have "engines_ok rel sem \<lparr>es_log = es_log y, es_nodes = (es_nodes y)[i := ?n], es_tickets = ?ts\<rparr> a own"
    by (intro engines_ok_step[OF assms True e(1-4) node]) auto
  with True show ?thesis by (simp add: sys_fields)
qed (use assms in auto)

lemma restart_spec:
  assumes "engines_ok rel sem y a own"
  shows "\<exists>y'. engine_exec ops app x0 (Restart i) y = Some y' \<and> engines_ok rel sem y' a own"
proof (cases "i < length (es_nodes y) \<and> \<not> en_alive (es_nodes y ! i)")
  case True
  then have i: "i < length (es_nodes y)" by simp
  note e = engines_ok_parts[OF assms]
  let ?nd = "es_nodes y ! i"
  note nd = e(5)[OF i]
  let ?n = "\<lparr>en_store = en_store ?nd, en_app = x0, en_cursor = of_nat (Suc (applied ?nd)), en_job = None, en_queue = [], en_alive = True\<rparr>"
  have new: "engine_new (es_log y) (en_store ?nd) x0 =
      Inr \<lparr>be_log = es_log y, be_store = en_store ?nd, be_app = x0, be_cursor = of_nat (Suc (applied ?nd))\<rparr>"
    using read_cursor_replayed[OF eng_node_ok_parts(2)[OF nd]] by (simp add: engine_new_def)
  have ap: "applied ?n = applied ?nd"
    using pos_word[OF e(1) eng_node_ok_parts(3)[OF nd]] by (simp add: applied_def del: of_nat_Suc)
  have pend: "queued ?nd = []" "queued ?n = []" using nd True by (simp_all add: eng_node_ok_def queued_def)
  have "eng_node_ok sem a own (es_tickets y) i ?n"
    using eng_node_ok_parts(2,7)[OF nd] ap pend(2) unfolding eng_node_ok_def by simp
  moreover have "tickets_ok sem a own ((es_nodes y)[i := ?n]) (es_tickets y)"
    using e(6) i pend ap by (intro tickets_ok_node) auto
  ultimately have "engines_ok rel sem \<lparr>es_log = es_log y, es_nodes = (es_nodes y)[i := ?n], es_tickets = es_tickets y\<rparr> a own"
    using e(5) by (intro engines_ok_step[OF assms i e(1-4)]) auto
  with True new show ?thesis by (simp add: sys_fields)
qed (use assms in auto)

text \<open>Trimming what every engine has applied.\<close>

lemma trim_spec:
  assumes "engines_ok rel sem y a own" "es_nodes y \<noteq> []"
  shows "\<exists>l' a'. lg_trim ops (slowest_cursor (es_nodes y)) (es_log y) = (Inr (), l') \<and>
    engines_ok rel sem (y\<lparr>es_log := l'\<rparr>) a' own \<and> grows a own a' own"
proof -
  note e = engines_ok_parts[OF assms(1)]
  let ?T = "slowest_cursor (es_nodes y)"
  let ?a = "a\<lparr>al_trim := max (al_trim a) (unat ?T)\<rparr>"
  have low: "unat ?T \<le> Suc (applied (es_nodes y ! i))" if "i < length (es_nodes y)" for i
    using that cursor_unat[OF e(1) e(5)[OF that]]
    by (simp add: slowest_cursor_def min_list_le word_le_nat_alt[symmetric] flip: cursor_unat[OF e(1) e(5)[OF that]])
  have "unat ?T \<le> al_tail a"
    using low[of 0] eng_node_ok_parts(3)[OF e(5)[of 0]] assms(2) by (simp add: al_tail_def)
  from trim[OF e(1) this] obtain l' where l': "lg_trim ops ?T (es_log y) = (Inr (), l')" "rel l' ?a" by blast
  have "eng_node_ok sem ?a own (es_tickets y) i (es_nodes y ! i)" if "i < length (es_nodes y)" for i
    using e(5)[OF that] low[OF that] by (simp add: eng_node_ok_def engine_job_ok_trim)
  moreover have "tickets_ok sem ?a own (es_nodes y) (es_tickets y)"
    using e(6) by (simp add: tickets_ok_def engine_reply_ok_trim)
  ultimately have "engines_ok rel sem (y\<lparr>es_log := l'\<rparr>) ?a own"
    using e(2,3,4) l'(2) \<open>unat ?T \<le> al_tail a\<close> by (simp add: engines_ok_def)
  with l'(1) grows_intros(3) show ?thesis by blast
qed

lemma exec_spec:
  assumes "engines_ok rel sem y a own" "Suc (al_tail a) < 2 ^ 64"
  shows "\<exists>y' a' own'. engine_exec ops app x0 ev y = Some y' \<and> engines_ok rel sem y' a' own' \<and>
    grows a own a' own'"
proof (cases ev)
  case (Submit t i req)
  then show ?thesis using submit_spec[OF assms(1), of x0 t i req] grows_intros(1) by blast
next
  case (Advance i)
  then show ?thesis using advance_spec[OF assms(1) _ _ assms(2), of i x0] assms(1)
    by (cases "i < length (es_nodes y) \<and> en_alive (es_nodes y ! i)")
      (simp_all del: engine_exec.simps, auto intro: grows_intros)
next
  case (Kill i)
  then show ?thesis using kill_spec[OF assms(1), of x0 i] grows_intros(1) by blast
next
  case (Restart i)
  then show ?thesis using restart_spec[OF assms(1), of x0 i] grows_intros(1) by blast
next
  case TrimLog
  show ?thesis
  proof (cases "es_nodes y = []")
    case False
    from trim_spec[OF assms(1) this] obtain l' a' where
      "lg_trim ops (slowest_cursor (es_nodes y)) (es_log y) = (Inr (), l')" "engines_ok rel sem (y\<lparr>es_log := l'\<rparr>) a' own"
      "grows a own a' own" by blast
    with TrimLog False show ?thesis by (intro exI[of _ "y\<lparr>es_log := l'\<rparr>"]) auto
  qed (use TrimLog assms(1) grows_intros(1) in auto)
next
  case SealLog
  obtain l' where "lg_seal ops (es_log y) = (Inr (of_nat (al_tail a)), l')" "rel l' a"
    using seal_open[OF engines_ok_parts(1)[OF assms(1)]] by blast
  with SealLog assms(1) show ?thesis
    by (intro exI[of _ "y\<lparr>es_log := l'\<rparr>"] exI[of _ a] exI[of _ own]) (simp add: engines_ok_def grows_intros)
qed

section \<open>Runs\<close>

lemma advance_later:
  assumes "engines_ok rel sem y a own" "later ts0 N y" "N \<le> length own" "engine_exec ops app x0 (Advance i) y = Some y'"
  shows "later ts0 N y'"
proof (cases "i < length (es_nodes y) \<and> en_alive (es_nodes y ! i)")
  case True
  note e = engines_ok_parts[OF assms(1)]
  obtain r l' nd' where s: "node_step ops app (es_log y) (es_nodes y ! i) = Some (r, l', nd')"
    "y' = \<lparr>es_log = l', es_nodes = (es_nodes y)[i := nd'], es_tickets = reply_to r (es_tickets y)\<rparr>"
    using assms(4) True by (auto split: option.splits)
  have old: "N < unat T" if "en_job (es_nodes y ! i) = Some (SyncJob t T)" "ts0 t = None" for t T
    using assms(2) True that by (auto simp: later_def)
  have "N < unat T" if "r = Some (t, Synced (Inr T)) \<or> en_job nd' = Some (SyncJob t T)" "ts0 t = None" for t T
  proof (cases "en_job (es_nodes y ! i)")
    case (Some j)
    then have "job_step ops app (es_log y) j (es_nodes y ! i) = (r, nd')"
      using s(1) by (auto simp: node_step_def split: prod.splits)
    from job_step_shape(2)[OF this Some that(1)] old[of t T] Some that(2) show ?thesis by simp
  next
    case None
    have "unat (of_nat (al_tail a) :: u64) = Suc (length own)"
      using tail_word[OF e(1)] e(3) by (simp add: al_tail_def)
    moreover have "T = of_nat (al_tail a)"
    proof (cases "en_queue (es_nodes y ! i)")
      case (Cons tr rest)
      obtain u req where "tr = (u, req)" by (cases tr)
      then show ?thesis
        using s(1) None Cons that(1) check_tail[OF e(1)]
        by (cases req) (auto simp: node_step_def split: option.splits sum.splits prod.splits)
    qed (use s(1) None that(1) in \<open>auto simp: node_step_def\<close>)
    ultimately show ?thesis using assms(3) by simp
  qed
  then show ?thesis unfolding s(2) using assms(2) True by (intro later_advanced) auto
qed (use assms in auto)

lemma exec_later:
  assumes "engines_ok rel sem y a own" "later ts0 N y" "N \<le> length own" "engine_exec ops app x0 ev y = Some y'"
  shows "later ts0 N y'"
proof (cases ev)
  case (Submit t i req)
  have "error_reply req err \<noteq> Synced (Inr T)" for err T by (cases req) simp_all
  with Submit assms(2,4) show ?thesis
    by (auto simp: later_def Let_def nth_list_update split: if_splits)
next
  case (Advance i)
  then show ?thesis using advance_later[OF assms(1-3)] assms(4) by simp
next
  case (Kill i)
  have "error_reply req err \<noteq> Synced (Inr T)" for req err T by (cases req) simp_all
  with Kill assms(2,4) show ?thesis
    by (auto simp: later_def drop_replies_def nth_list_update split: if_splits option.splits ticket.splits)
next
  case (Restart i)
  with assms(2,4) show ?thesis
    by (auto simp: later_def nth_list_update split: if_splits sum.splits)
next
  case SealLog
  with assms(2,4) show ?thesis by (auto simp: later_def split: prod.splits)
next
  case TrimLog
  with assms(2,4) show ?thesis by (auto simp: later_def split: prod.splits if_splits)
qed

lemma run_spec:
  assumes "engines_ok rel sem y a own" "al_tail a + length evs < 2 ^ 64" "later ts0 N y" "N \<le> length own"
  shows "\<exists>y' a' own'. engine_run ops app x0 evs y = Some y' \<and> engines_ok rel sem y' a' own' \<and>
    prefix (al_entries a) (al_entries a') \<and> prefix own own' \<and> al_tail a' \<le> al_tail a + length evs \<and> later ts0 N y'"
  using assms
proof (induction evs arbitrary: y a own)
  case (Cons ev evs)
  have "Suc (al_tail a) < 2 ^ 64" using Cons.prems(2) by simp
  from exec_spec[OF Cons.prems(1) this, of x0 ev] obtain y1 a1 own1 where
    s: "engine_exec ops app x0 ev y = Some y1" "engines_ok rel sem y1 a1 own1" "grows a own a1 own1"
    by blast
  have g: "prefix (al_entries a) (al_entries a1)" "prefix own own1" "al_tail a1 \<le> Suc (al_tail a)" "N \<le> length own1"
    using s(3) Cons.prems(4) by (auto simp: grows_def)
  have "later ts0 N y1" using exec_later[OF Cons.prems(1,3,4) s(1)] .
  with Cons.IH[OF s(2) _ _ g(4)] g(3) Cons.prems(2) obtain y2 a2 own2 where
    "engine_run ops app x0 evs y1 = Some y2" "engines_ok rel sem y2 a2 own2" "prefix (al_entries a1) (al_entries a2)"
    "prefix own1 own2" "al_tail a2 \<le> al_tail a1 + length evs" "later ts0 N y2" by auto
  with s(1) g show ?case using prefix_order.trans by fastforce
qed auto

lemma later_now: "later (es_tickets y) N y" if "engines_ok rel sem y a own"
  unfolding later_def
proof (intro conjI allI impI)
  fix t i T
  assume "es_tickets y t = None" "i < length (es_nodes y)" "en_job (es_nodes y ! i) = Some (SyncJob t T)"
  with eng_node_ok_parts(6)[OF engines_ok_parts(5)[OF that]] show "N < unat T" by fastforce
qed simp

text \<open>Nobody is kept waiting by a server that runs: each round of a loop applies an entry or ends the
  request, and each request that is taken from the channel is one fewer.\<close>

lemma advance_job:
  assumes "engines_ok rel sem y a own" "i < length (es_nodes y)" "en_alive (es_nodes y ! i)" "en_job (es_nodes y ! i) = Some j"
  shows "\<exists>y'. engine_exec ops app x0 (Advance i) y = Some y' \<and> engines_ok rel sem y' a own \<and>
    length (es_nodes y') = length (es_nodes y) \<and> en_alive (es_nodes y' ! i) \<and>
    en_queue (es_nodes y' ! i) = en_queue (es_nodes y ! i) \<and>
    (en_job (es_nodes y' ! i) = None \<or> (\<exists>j'. en_job (es_nodes y' ! i) = Some j') \<and>
       applied (es_nodes y' ! i) = Suc (applied (es_nodes y ! i)))"
proof -
  let ?nd = "es_nodes y ! i"
  have "\<exists>r nd'. job_step ops app (es_log y) j ?nd = (r, nd') \<and>
    engines_ok rel sem \<lparr>es_log = es_log y, es_nodes = (es_nodes y)[i := nd'], es_tickets = reply_to r (es_tickets y)\<rparr> a own"
    using propose_job_step[OF assms(1,2) refl] sync_job_step[OF assms(1,2) refl] assms(4) by (cases j) blast+
  then obtain r nd' where s: "job_step ops app (es_log y) j ?nd = (r, nd')"
    "engines_ok rel sem \<lparr>es_log = es_log y, es_nodes = (es_nodes y)[i := nd'], es_tickets = reply_to r (es_tickets y)\<rparr> a own"
    by blast
  let ?y = "\<lparr>es_log = es_log y, es_nodes = (es_nodes y)[i := nd'], es_tickets = reply_to r (es_tickets y)\<rparr>"
  have "eng_node_ok sem a own (es_tickets ?y) i nd'" using engines_ok_parts(5)[OF s(2), of i] assms(2) by simp
  note u = cursor_unat[OF engines_ok_parts(1)[OF assms(1)] engines_ok_parts(5)[OF assms(1,2)]]
    cursor_unat[OF engines_ok_parts(1)[OF assms(1)] this]
  have "applied nd' = Suc (applied ?nd)" if "en_cursor nd' = en_cursor ?nd + 1"
  proof -
    have "1 + en_cursor ?nd \<noteq> 0" using u(2) that by (metis add.commute nat.simps(3) unat_0)
    from unatSuc[OF this] u that show ?thesis by (simp add: add.commute)
  qed
  with job_step_shape(1)[OF s(1) assms(4)] s assms show ?thesis
    by (intro exI[of _ ?y]) (auto simp: node_step_def)
qed

lemma job_finishes:
  assumes "engines_ok rel sem y a own" "i < length (es_nodes y)" "en_alive (es_nodes y ! i)"
  shows "\<exists>m y'. engine_run ops app x0 (replicate m (Advance i)) y = Some y' \<and> engines_ok rel sem y' a own \<and>
    length (es_nodes y') = length (es_nodes y) \<and> en_alive (es_nodes y' ! i) \<and> en_job (es_nodes y' ! i) = None \<and>
    en_queue (es_nodes y' ! i) = en_queue (es_nodes y ! i)"
  using assms
proof (induction "length (al_entries a) - applied (es_nodes y ! i)" arbitrary: y rule: less_induct)
  case less
  show ?case
  proof (cases "en_job (es_nodes y ! i)")
    case None
    then show ?thesis using less.prems by (intro exI[of _ 0] exI[of _ y]) simp
  next
    case (Some j)
    from advance_job[OF less.prems Some, of x0] obtain y1 where
      y1: "engine_exec ops app x0 (Advance i) y = Some y1" "engines_ok rel sem y1 a own"
        "length (es_nodes y1) = length (es_nodes y)" "en_alive (es_nodes y1 ! i)"
        "en_queue (es_nodes y1 ! i) = en_queue (es_nodes y ! i)"
      and c: "en_job (es_nodes y1 ! i) = None \<or> applied (es_nodes y1 ! i) = Suc (applied (es_nodes y ! i))" by blast
    from c show ?thesis
    proof
      assume "en_job (es_nodes y1 ! i) = None"
      then show ?thesis using y1 by (intro exI[of _ "Suc 0"] exI[of _ y1]) simp
    next
      assume ap: "applied (es_nodes y1 ! i) = Suc (applied (es_nodes y ! i))"
      have i: "i < length (es_nodes y1)" using y1(3) less.prems(2) by simp
      have "applied (es_nodes y1 ! i) \<le> length (al_entries a)"
        using eng_node_ok_parts(3)[OF engines_ok_parts(5)[OF y1(2) i]] .
      with ap have "length (al_entries a) - applied (es_nodes y1 ! i) < length (al_entries a) - applied (es_nodes y ! i)" by simp
      from less.hyps[OF this y1(2) i y1(4)] obtain m y2 where
        "engine_run ops app x0 (replicate m (Advance i)) y1 = Some y2" "engines_ok rel sem y2 a own"
        "length (es_nodes y2) = length (es_nodes y1)" "en_alive (es_nodes y2 ! i)" "en_job (es_nodes y2 ! i) = None"
        "en_queue (es_nodes y2 ! i) = en_queue (es_nodes y1 ! i)" by blast
      then show ?thesis using y1 by (intro exI[of _ "Suc m"] exI[of _ y2]) simp
    qed
  qed
qed

lemma take_next:
  assumes "engines_ok rel sem y a own" "i < length (es_nodes y)" "en_alive (es_nodes y ! i)" "Suc (al_tail a) < 2 ^ 64"
    and "en_job (es_nodes y ! i) = None" "en_queue (es_nodes y ! i) = tr # rest"
  shows "\<exists>y' a' own'. engine_exec ops app x0 (Advance i) y = Some y' \<and> engines_ok rel sem y' a' own' \<and>
    al_tail a' \<le> Suc (al_tail a) \<and> length (es_nodes y') = length (es_nodes y) \<and> en_alive (es_nodes y' ! i) \<and>
    en_queue (es_nodes y' ! i) = rest"
proof -
  from exec_spec[OF assms(1,4), of x0 "Advance i"] obtain y' a' own' where
    s: "engine_exec ops app x0 (Advance i) y = Some y'" "engines_ok rel sem y' a' own'" "grows a own a' own'" by blast
  obtain t req where tr: "tr = (t, req)" by (cases tr)
  have "length (es_nodes y') = length (es_nodes y) \<and> en_alive (es_nodes y' ! i) \<and> en_queue (es_nodes y' ! i) = rest"
    using s(1) assms(2,3,5,6) tr by (cases req) (auto simp: node_step_def split: option.splits sum.splits)
  moreover have "al_tail a' \<le> Suc (al_tail a)" using s(3) by (auto simp: grows_def)
  ultimately show ?thesis using s(1,2) by blast
qed

lemma drains:
  assumes "engines_ok rel sem y a own" "i < length (es_nodes y)" "en_alive (es_nodes y ! i)"
    and "al_tail a + length (en_queue (es_nodes y ! i)) < 2 ^ 64"
  shows "\<exists>m y' a' own'. engine_run ops app x0 (replicate m (Advance i)) y = Some y' \<and> engines_ok rel sem y' a' own' \<and>
    length (es_nodes y') = length (es_nodes y) \<and> queued (es_nodes y' ! i) = []"
  using assms
proof (induction "length (en_queue (es_nodes y ! i))" arbitrary: y a own)
  case 0
  from job_finishes[OF "0.prems"(1-3)] "0.hyps" show ?case by (fastforce simp: queued_def)
next
  case (Suc n)
  from job_finishes[OF Suc.prems(1-3), of x0] obtain m1 y1 where
    y1: "engine_run ops app x0 (replicate m1 (Advance i)) y = Some y1" "engines_ok rel sem y1 a own"
      "length (es_nodes y1) = length (es_nodes y)" "en_alive (es_nodes y1 ! i)" "en_job (es_nodes y1 ! i) = None"
      "en_queue (es_nodes y1 ! i) = en_queue (es_nodes y ! i)" by blast
  obtain tr rest where q: "en_queue (es_nodes y1 ! i) = tr # rest" "length rest = n"
    using Suc.hyps(2) y1(6) by (metis length_Suc_conv)
  have i1: "i < length (es_nodes y1)" and room: "Suc (al_tail a) < 2 ^ 64" using y1(3) Suc.prems(2,4) Suc.hyps(2) by simp_all
  from take_next[OF y1(2) i1 y1(4) room y1(5) q(1), of x0] obtain y2 a2 own2 where
    y2: "engine_exec ops app x0 (Advance i) y1 = Some y2" "engines_ok rel sem y2 a2 own2" "al_tail a2 \<le> Suc (al_tail a)"
      "length (es_nodes y2) = length (es_nodes y1)" "en_alive (es_nodes y2 ! i)" "en_queue (es_nodes y2 ! i) = rest" by blast
  from Suc.hyps(1)[OF _ y2(2) _ y2(5)] y2(3,4,6) y1(3) q(2) Suc.prems(2,4) Suc.hyps(2) obtain m2 y3 a3 own3 where
    y3: "engine_run ops app x0 (replicate m2 (Advance i)) y2 = Some y3" "engines_ok rel sem y3 a3 own3"
      "length (es_nodes y3) = length (es_nodes y2)" "queued (es_nodes y3 ! i) = []" by auto
  have "engine_run ops app x0 (replicate (m1 + Suc m2) (Advance i)) y = Some y3"
    unfolding replicate_add engine_run_append using y1(1) y2(1) y3(1) by simp
  then show ?case using y3(2-4) y1(3) y2(4) by (intro exI[of _ "m1 + Suc m2"] exI[of _ y3]) auto
qed

lemma exec_waiting:
  assumes "engine_exec ops app x0 ev y = Some y'" "es_tickets y t = Some (Waiting i req)"
  shows "es_tickets y' t = Some (Waiting i req) \<or> (\<exists>r. es_tickets y' t = Some (Answered i req r))"
  using assms
  by (cases ev) (auto simp: Let_def drop_replies_def reply_to_def split: if_splits option.splits prod.splits sum.splits ticket.splits)

lemma exec_answered:
  assumes "engine_exec ops app x0 ev y = Some y'" "es_tickets y t = Some (Answered i req r)"
  shows "es_tickets y' t = Some (Answered i req r)"
  using assms
  by (cases ev) (auto simp: Let_def drop_replies_def reply_to_def split: if_splits option.splits prod.splits sum.splits ticket.splits)

lemma run_answered:
  "engine_run ops app x0 evs y = Some y' \<Longrightarrow> es_tickets y t = Some (Answered i req r) \<Longrightarrow> es_tickets y' t = Some (Answered i req r)"
  by (induction evs arbitrary: y) (auto split: option.splits dest: exec_answered)

lemma run_waiting:
  assumes "engine_run ops app x0 evs y = Some y'" "es_tickets y t = Some (Waiting i req)"
  shows "es_tickets y' t = Some (Waiting i req) \<or> (\<exists>r. es_tickets y' t = Some (Answered i req r))"
  using assms
proof (induction evs arbitrary: y)
  case (Cons ev evs)
  then obtain y1 where y1: "engine_exec ops app x0 ev y = Some y1" "engine_run ops app x0 evs y1 = Some y'"
    by (auto split: option.splits)
  from exec_waiting[OF y1(1) Cons.prems(2)] run_answered[OF y1(2)] Cons.IH[OF y1(2)] show ?case by blast
qed simp

lemma everyone_answered:
  assumes "engines_ok rel sem y a own" "i < length (es_nodes y)" "en_alive (es_nodes y ! i)"
    and "al_tail a + length (en_queue (es_nodes y ! i)) < 2 ^ 64"
  shows "\<exists>m y'. engine_run ops app x0 (replicate m (Advance i)) y = Some y' \<and>
    (\<forall>t req. es_tickets y t = Some (Waiting i req) \<longrightarrow> (\<exists>r. es_tickets y' t = Some (Answered i req r)))"
proof -
  from drains[OF assms, of x0] obtain m y' a' own' where
    y': "engine_run ops app x0 (replicate m (Advance i)) y = Some y'" "engines_ok rel sem y' a' own'"
      "length (es_nodes y') = length (es_nodes y)" "queued (es_nodes y' ! i) = []" by blast
  have "es_tickets y' t \<noteq> Some (Waiting i req)" for t req
    using engines_ok_parts(6)[OF y'(2)] y'(4) unfolding tickets_ok_def by (metis empty_iff list.set(1))
  with run_waiting[OF y'(1)] y'(1) show ?thesis by blast
qed

lemma started:
  assumes "rel log alog_new"
  shows "engines_ok rel sem (engine_start log x0 n) alog_new []"
proof -
  have "replayed sem alog_new 0 memory_store_new" by (rule replayed_fresh)
  then show ?thesis
    using assms by (auto simp: engines_ok_def engine_start_def tickets_ok_def eng_node_ok_def queued_def applied_def
      LOG_POS_BEGIN_def) (simp_all add: alog_new_def al_tail_def)
qed

end

end
