(* ===== verification/Concurrent_Servers.thy ===== *)
theory Concurrent_Servers
  imports Engine_Concurrent Server_Life
begin


section \<open>From the store to the database\<close>















section \<open>Properties\<close>







end
