(* ===== verification/Layered_Engine.thy ===== *)
theory Layered_Engine
  imports Engine_Stack
begin

text \<open>
  A whole stack as one engine. A stack is described by its list of layers, in the order they are
  pushed; \<open>layers_sem\<close> is what an entry of the log means to the applicator of such a stack.
  \<open>carries\<close> is the contract between an engine and the layer above it: a proposal that the applicators
  above would accept is answered with their result and extends the log by one entry that means
  the same to the whole stack. The base engine meets it, every layer keeps it, and so any stack in
  which at most one layer batches meets it for the application's own meaning.
\<close>

section \<open>Layers\<close>

datatype layer =
    ViewLayer ServerId "LogPos \<Rightarrow> bool"
  | is_Batch: BatchLayer "nat option"
  | ObserverLayer nat

record layer_codecs =
  view_codec :: "view_tracking_metadata codec"
  batching_codecs :: batch_codecs

definition layer_codecs_ok :: "layer_codecs \<Rightarrow> bool" where
  "layer_codecs_ok k \<longleftrightarrow> codec_ok (view_codec k) \<and> codec_ok (meta_codec (batching_codecs k)) \<and>
     codec_ok (payloads_codec (batching_codecs k))"

fun layer_middleware :: "layer_codecs \<Rightarrow> layer \<Rightarrow> (('l, stack_state) base_engine, stack_state) middle_engine" where
  "layer_middleware k (ViewLayer server_id busy) = view_middleware (view_codec k) busy server_id"
| "layer_middleware k (BatchLayer max_batch_size) = batching_middleware (batching_codecs k) max_batch_size"
| "layer_middleware k (ObserverLayer elapsed) = observer_middleware elapsed"

definition layer_stack ::
  "layer_codecs \<Rightarrow> layer list \<Rightarrow> (('l, stack_state) base_engine, stack_state) engine_stack_builder" where
  "layer_stack k ls = foldl (\<lambda>b l. stack_push (layer_middleware k l) b) stack_new ls"

lemma layer_stack_simps [simp]:
  "layer_stack k [] = stack_new"
  "layer_stack k (ls @ [l]) = stack_push (layer_middleware k l) (layer_stack k ls)"
  by (simp_all add: layer_stack_def)

section \<open>What an entry means to a stack\<close>

fun layer_sem :: "layer_codecs \<Rightarrow> layer \<Rightarrow> app_sem \<Rightarrow> app_sem" where
  "layer_sem k (ViewLayer server_id busy) sem = view_sem (view_codec k) sem"
| "layer_sem k (BatchLayer max_batch_size) sem = batching_sem (batching_codecs k) sem"
| "layer_sem k (ObserverLayer elapsed) sem = sem"

definition layers_sem :: "layer_codecs \<Rightarrow> layer list \<Rightarrow> app_sem \<Rightarrow> app_sem" where
  "layers_sem k ls sem = foldr (layer_sem k) ls sem"

lemma layers_sem_simps [simp]:
  "layers_sem k [] sem = sem"
  "layers_sem k (l # ls) sem = layer_sem k l (layers_sem k ls sem)"
  "layers_sem k (ls @ ls') sem = layers_sem k ls (layers_sem k ls' sem)"
  by (simp_all add: layers_sem_def)

lemma layer_applicator:
  "applicator app sem \<Longrightarrow> applicator (wrap_applicator (layer_middleware k l) app) (layer_sem k l sem)"
  by (cases l) (simp_all add: view_middleware_def batching_middleware_def observer_middleware_def
    view_applicator batching_applicator observer_applicator)

lemma layers_applicator:
  "applicator app sem \<Longrightarrow> applicator (stack_applicator (layer_stack k ls) app) (layers_sem k ls sem)"
  by (induction ls arbitrary: app sem rule: rev_induct) (simp_all add: stack_applicator_push layer_applicator)

text \<open>Meanings that look at the payload only, as an application's does, are not disturbed by the
  headers the layers add, nor, when no layer batches, by their loss.\<close>

definition payload_only :: "app_sem \<Rightarrow> bool" where
  "payload_only sem \<longleftrightarrow> (\<forall>en en'. payload en = payload en' \<longrightarrow> sem en = sem en')"

lemma header_names [simp]: "VIEW_TRACKING_HEADER \<noteq> BATCHING_HEADER" "BATCHING_HEADER \<noteq> VIEW_TRACKING_HEADER"
  by (simp_all add: VIEW_TRACKING_HEADER_def BATCHING_HEADER_def)

lemma layers_sem_view_header:
  assumes "payload_only sem" "decode (view_codec k) h = Inr md" "layers_sem k ls sem en pos m = Inr res"
  shows "layers_sem k ls sem (with_header en VIEW_TRACKING_HEADER h) pos m = Inr res"
  using assms(3)
proof (induction ls)
  case Nil
  have "sem (with_header en VIEW_TRACKING_HEADER h) = sem en"
    using assms(1) unfolding payload_only_def by (metis with_header_payload)
  with Nil show ?case by simp
next
  case (Cons l ls)
  then show ?case
    using assms(2) by (cases l) (auto simp: view_sem_def batching_sem_def and_then_eq_Inr split: option.splits if_splits)
qed

lemma layers_sem_no_headers:
  assumes "payload_only sem" "\<forall>l \<in> set ls. \<not> is_Batch l" "layers_sem k ls sem en pos m = Inr res"
  shows "layers_sem k ls sem (entry_new (payload en)) pos m = Inr res"
  using assms(2,3)
proof (induction ls)
  case Nil
  have "sem (entry_new (payload en)) = sem en"
    using assms(1) unfolding payload_only_def by (metis entry_new_sel(2))
  with Nil show ?case by simp
next
  case (Cons l ls)
  then show ?case
    by (cases l) (auto simp: view_sem_def and_then_eq_Inr split: option.splits)
qed

section \<open>The contract between an engine and the layer above it\<close>

text \<open>\<open>serves rel full be a n m\<close>: the engine has applied the first \<open>n\<close> entries of the log \<open>a\<close>, the
  ones it still needs are there, and the whole log replays to the content \<open>m\<close>.\<close>

definition serves ::
  "('l \<Rightarrow> alog \<Rightarrow> bool) \<Rightarrow> app_sem \<Rightarrow> ('l, 'x) base_engine \<Rightarrow> alog \<Rightarrow> nat \<Rightarrow> (bytes \<rightharpoonup> bytes) \<Rightarrow> bool" where
  "serves rel full be a n m \<longleftrightarrow> engine_inv rel full be a n \<and> al_trim a \<le> Suc n \<and> \<not> al_sealed a \<and>
     replay full 1 (al_entries a) Map.empty = Inr m"

lemma serves_app [simp]: "serves rel full (be\<lparr>be_app := x\<rparr>) a n m = serves rel full be a n m"
  by (simp add: serves_def engine_inv_def)

definition carries ::
  "('l \<Rightarrow> alog \<Rightarrow> bool) \<Rightarrow> app_sem \<Rightarrow> ('l, 'x) base_engine engine_ops \<Rightarrow> app_sem \<Rightarrow> bool" where
  "carries rel full E sem \<longleftrightarrow>
     (\<forall>be a n m en rv m'. serves rel full be a n m \<longrightarrow> Suc (al_tail a) < 2 ^ 64 \<longrightarrow>
        sem en (of_nat (al_tail a)) m = Inr (rv, m') \<longrightarrow>
        (\<exists>be' en'. eng_propose E en be = Some (Inr rv, be') \<and>
           serves rel full be' (al_push en' a) (al_tail a) (with_cursor (Suc (al_tail a)) m'))) \<and>
     (\<forall>be a n m. serves rel full be a n m \<longrightarrow>
        (\<exists>be'. eng_sync E be = Some (Inr (of_nat (al_tail a)), be') \<and>
           serves rel full be' a (length (al_entries a)) m \<and> content (be_store be') = m \<and> be_log be' = be_log be))"

lemma carriesD:
  assumes "carries rel full E sem" "serves rel full be a n m"
  shows "Suc (al_tail a) < 2 ^ 64 \<Longrightarrow> sem en (of_nat (al_tail a)) m = Inr (rv, m') \<Longrightarrow>
      \<exists>be' en'. eng_propose E en be = Some (Inr rv, be') \<and>
        serves rel full be' (al_push en' a) (al_tail a) (with_cursor (Suc (al_tail a)) m')"
    and "\<exists>be'. eng_sync E be = Some (Inr (of_nat (al_tail a)), be') \<and>
        serves rel full be' a (length (al_entries a)) m \<and> content (be_store be') = m \<and> be_log be' = be_log be"
  using assms unfolding carries_def by blast+

text \<open>A layer whose engine proposes, for each entry, some entry of the same meaning below, and passes
  the synchronisation through, up to the layer's own state.\<close>

lemma carries_wrap:
  fixes E E' :: "('l, 'x) base_engine engine_ops"
  assumes "carries rel full E sem"
    and "\<And>en be pos m res. sem' en pos m = Inr res \<Longrightarrow>
      \<exists>en'. sem en' pos m = Inr res \<and> eng_propose E' en be = map_option (\<lambda>(r, be'). (r, be'\<lparr>be_app := f (be_app be')\<rparr>)) (eng_propose E en' be)"
    and "\<And>be. eng_sync E' be = map_option (\<lambda>(r, be'). (r, be'\<lparr>be_app := g (be_app be')\<rparr>)) (eng_sync E be)"
  shows "carries rel full E' sem'"
  unfolding carries_def
proof (intro conjI allI impI)
  fix be :: "('l, 'x) base_engine" and a n m en rv m'
  assume s: "serves rel full be a n m" "Suc (al_tail a) < 2 ^ 64" "sem' en (of_nat (al_tail a)) m = Inr (rv, m')"
  from assms(2)[OF s(3), of be] obtain en1 where
    en1: "sem en1 (of_nat (al_tail a)) m = Inr (rv, m')"
      "eng_propose E' en be = map_option (\<lambda>(r, be'). (r, be'\<lparr>be_app := f (be_app be')\<rparr>)) (eng_propose E en1 be)"
    by blast
  from carriesD(1)[OF assms(1) s(1,2) en1(1)] obtain be' en' where
    "eng_propose E en1 be = Some (Inr rv, be')"
    "serves rel full be' (al_push en' a) (al_tail a) (with_cursor (Suc (al_tail a)) m')" by blast
  then show "\<exists>be' en'. eng_propose E' en be = Some (Inr rv, be') \<and>
      serves rel full be' (al_push en' a) (al_tail a) (with_cursor (Suc (al_tail a)) m')"
    using en1(2) by (intro exI[of _ "be'\<lparr>be_app := f (be_app be')\<rparr>"] exI[of _ en']) simp
next
  fix be :: "('l, 'x) base_engine" and a n m
  assume "serves rel full be a n m"
  from carriesD(2)[OF assms(1) this] obtain be' where
    "eng_sync E be = Some (Inr (of_nat (al_tail a)), be')" "serves rel full be' a (length (al_entries a)) m"
    "content (be_store be') = m" "be_log be' = be_log be" by blast
  then show "\<exists>be'. eng_sync E' be = Some (Inr (of_nat (al_tail a)), be') \<and>
      serves rel full be' a (length (al_entries a)) m \<and> content (be_store be') = m \<and> be_log be' = be_log be"
    using assms(3) by (intro exI[of _ "be'\<lparr>be_app := g (be_app be')\<rparr>"]) simp
qed

lemma map_option_ident_prod: "map_option (\<lambda>(r, be'). (r, be'\<lparr>be_app := id (be_app be')\<rparr>)) z = z"
  by (cases z) auto


lemma batching_propose_alone:
  assumes "encode (payloads_codec c) [payload en] = Inr bp" "encode (meta_codec c) \<lparr>batch_count = 1\<rparr> = Inr hb"
  shows "batching_propose c max_batch d en s = eng_propose d (with_header (entry_new bp) BATCHING_HEADER hb) s"
  using assms
  by (auto simp: batching_propose_def flush_batch_def reply_all_def Let_def split: option.splits prod.splits)

lemma batching_sync_alone: "batching_sync c max_batch d s = eng_sync d s"
  by (auto simp: batching_sync_def flush_batch_def split: option.splits prod.splits)

lemma layer_carries:
  assumes "layer_codecs_ok k" "payload_only sem" "is_Batch l \<Longrightarrow> \<forall>l' \<in> set ls. \<not> is_Batch l'"
    and "carries rel full E (layers_sem k (l # ls) sem)"
  shows "carries rel full (wrap_engine (layer_middleware k l) E) (layers_sem k ls sem)"
proof (cases l)
  case (ViewLayer server_id busy)
  have vok: "codec_ok (view_codec k)" using assms(1) by (simp add: layer_codecs_ok_def)
  show ?thesis
  proof (rule carries_wrap[OF assms(4), where f = id and g = id], unfold map_option_ident_prod)
    fix en pos m res and be :: "('a, stack_state) base_engine"
    assume s: "layers_sem k ls sem en pos m = Inr res"
    let ?md = "\<lparr>vt_server_id = server_id, vt_cursor = (case bt_get (views (be_app be)) server_id of None \<Rightarrow> 0 | Some p \<Rightarrow> p)\<rparr>"
    obtain h where h: "encode (view_codec k) ?md = Inr h" using encode_total[OF vok] ..
    have "decode (view_codec k) h = Inr ?md" using decode_encode[OF vok h] .
    with layers_sem_view_header[OF assms(2) this s]
    have "layers_sem k (l # ls) sem (with_header en VIEW_TRACKING_HEADER h) pos m = Inr res"
      by (simp add: ViewLayer view_sem_def)
    moreover have "eng_propose (wrap_engine (layer_middleware k l) E) en be =
        eng_propose E (with_header en VIEW_TRACKING_HEADER h) be"
      using h by (simp add: ViewLayer view_middleware_def view_ops_def view_propose_def Let_def)
    ultimately show "\<exists>en'. layers_sem k (l # ls) sem en' pos m = Inr res \<and>
        eng_propose (wrap_engine (layer_middleware k l) E) en be = eng_propose E en' be" by blast
  qed (simp add: ViewLayer view_middleware_def view_ops_def view_sync_def)
next
  case (BatchLayer mb)
  let ?c = "batching_codecs k"
  have ok: "codec_ok (meta_codec ?c)" "codec_ok (payloads_codec ?c)"
    using assms(1) by (simp_all add: layer_codecs_ok_def)
  show ?thesis
  proof (rule carries_wrap[OF assms(4), where f = id and g = id], unfold map_option_ident_prod)
    fix en pos m res and be :: "('a, stack_state) base_engine"
    assume s: "layers_sem k ls sem en pos m = Inr res"
    obtain bp where bp: "encode (payloads_codec ?c) [payload en] = Inr bp" using encode_total[OF ok(2)] ..
    obtain hb where hb: "encode (meta_codec ?c) \<lparr>batch_count = 1\<rparr> = Inr hb" using encode_total[OF ok(1)] ..
    let ?en = "with_header (entry_new bp) BATCHING_HEADER hb"
    have "layers_sem k ls sem (entry_new (payload en)) pos m = Inr res"
      using layers_sem_no_headers[OF assms(2) _ s] assms(3) BatchLayer by simp
    then have "layers_sem k (l # ls) sem ?en pos m = Inr res"
      using decode_encode[OF ok(1) hb] decode_encode[OF ok(2) bp] by (cases res) (simp add: BatchLayer batching_sem_def)
    moreover have "eng_propose (wrap_engine (layer_middleware k l) E) en be = eng_propose E ?en be"
      using batching_propose_alone[OF bp hb]
      by (simp add: BatchLayer batching_middleware_def batching_ops_def Let_def)
    ultimately show "\<exists>en'. layers_sem k (l # ls) sem en' pos m = Inr res \<and>
        eng_propose (wrap_engine (layer_middleware k l) E) en be = eng_propose E en' be" by blast
  qed (simp add: BatchLayer batching_middleware_def batching_ops_def Let_def batching_sync_alone)
next
  case (ObserverLayer elapsed)
  show ?thesis
  proof (rule carries_wrap[OF assms(4), where f = "latencies_update (record_propose_latency logging_metrics elapsed)"
        and g = "latencies_update (record_sync_latency logging_metrics elapsed)"])
    fix en pos m res and be :: "('a, stack_state) base_engine"
    assume "layers_sem k ls sem en pos m = Inr res"
    then show "\<exists>en'. layers_sem k (l # ls) sem en' pos m = Inr res \<and>
        eng_propose (wrap_engine (layer_middleware k l) E) en be =
          map_option (\<lambda>(r, be'). (r, in_engine (latencies_update (record_propose_latency logging_metrics elapsed)) be'))
            (eng_propose E en' be)"
      by (intro exI[of _ en]) (auto simp: ObserverLayer observer_middleware_def observer_ops_def observer_propose_def
        split: option.splits prod.splits)
  qed (auto simp: ObserverLayer observer_middleware_def observer_ops_def observer_sync_def split: option.splits prod.splits)
qed

lemma stack_carries:
  assumes "layer_codecs_ok k" "payload_only sem" "length (filter is_Batch (ls @ ss)) \<le> 1"
    and "carries rel full E (layers_sem k (ls @ ss) sem)"
  shows "carries rel full (stack_engine (layer_stack k ls) E) (layers_sem k ss sem)"
  using assms(3,4)
proof (induction ls arbitrary: ss rule: rev_induct)
  case (snoc l ls)
  have "carries rel full (stack_engine (layer_stack k ls) E) (layers_sem k (l # ss) sem)"
    using snoc.IH[of "l # ss"] snoc.prems by simp
  moreover have "\<forall>l' \<in> set ss. \<not> is_Batch l'" if "is_Batch l"
    using snoc.prems(1) that by (auto simp: filter_empty_conv)
  ultimately show ?case
    unfolding layer_stack_simps stack_engine_push by (intro layer_carries[OF assms(1,2)])
qed simp

context replica
begin

lemma base_carries: "carries rel sem (base_ops ops app) sem"
  unfolding carries_def
proof (intro conjI allI impI)
  fix be :: "('l, 'x) base_engine" and a n m en rv m'
  assume s: "serves rel sem be a n m" "Suc (al_tail a) < 2 ^ 64" "sem en (of_nat (al_tail a)) m = Inr (rv, m')"
  then obtain be' where b: "handle_propose ops app en be = Some (Inr rv, be')"
    "engine_inv rel sem be' (al_push en a) (al_tail a)"
    using propose_healthy[of be a n m en rv m'] by (auto simp: serves_def)
  have "n \<le> length (al_entries a)" using s(1) by (simp add: serves_def engine_inv_def replayed_def)
  moreover have "replay sem 1 (al_entries (al_push en a)) Map.empty = Inr (with_cursor (Suc (al_tail a)) m')"
    using s(1,3) replay_snoc[of sem 1 "al_entries a" en Map.empty] by (simp add: serves_def al_tail_def)
  ultimately have "serves rel sem be' (al_push en a) (al_tail a) (with_cursor (Suc (al_tail a)) m')"
    using s(1) b(2) by (simp add: serves_def al_tail_def)
  then show "\<exists>be' en'. eng_propose (base_ops ops app) en be = Some (Inr rv, be') \<and>
      serves rel sem be' (al_push en' a) (al_tail a) (with_cursor (Suc (al_tail a)) m')"
    using b(1) by (auto simp del: al_push_sel)
next
  fix be :: "('l, 'x) base_engine" and a n m
  assume s: "serves rel sem be a n m"
  then obtain be' where b: "handle_sync ops app be = (Inr (of_nat (al_tail a)), be')"
    "engine_inv rel sem be' a (length (al_entries a))" "content (be_store be') = m" "be_log be' = be_log be"
    using sync_healthy[of be a n m] by (auto simp: serves_def)
  moreover have "n \<le> length (al_entries a)" using s by (simp add: serves_def engine_inv_def replayed_def)
  ultimately show "\<exists>be'. eng_sync (base_ops ops app) be = Some (Inr (of_nat (al_tail a)), be') \<and>
      serves rel sem be' a (length (al_entries a)) m \<and> content (be_store be') = m \<and> be_log be' = be_log be"
    using s by (auto simp: serves_def)
qed

end

end
