(* ===== verification/Cluster.thy ===== *)
theory Cluster
  imports Layered_Engine Replicated_Table Native_Virtual_Log
begin

text \<open>
  The whole system: several table servers on one shared log, each with its own stack of layers, its
  own store and its own position in the log. A call goes to one server and runs to its end; servers
  restart on the store they have, anybody may seal the active loglet of the log, and anybody may trim the
  log up to where the slowest server stands. The theorem is
  that the calls, wherever they are made, are answered as one database answers them. It holds for
  every log that meets the contract \<open>shared_log\<close>, and the two virtual logs do.
\<close>

section \<open>Servers on one log\<close>

record server_node =
  node_layers :: "layer list"
  node_store :: memory_store
  node_app :: stack_state
  node_cursor :: LogPos

record 'l cluster =
  cl_log :: 'l
  cl_nodes :: "server_node list"

definition node_engine :: "'l \<Rightarrow> server_node \<Rightarrow> ('l, stack_state) base_engine" where
  "node_engine log nd =
     \<lparr>be_log = log, be_store = node_store nd, be_app = node_app nd, be_cursor = node_cursor nd\<rparr>"

definition node_of :: "layer list \<Rightarrow> ('l, stack_state) base_engine \<Rightarrow> server_node" where
  "node_of ls be = \<lparr>node_layers = ls, node_store = be_store be, node_app = be_app be, node_cursor = be_cursor be\<rparr>"

text \<open>The engine that \<open>EngineStackBuilder::build\<close> returns for these layers over the table applicator.\<close>

definition server_engine ::
  "table_codecs \<Rightarrow> layer_codecs \<Rightarrow> 'l loglet_ops \<Rightarrow> layer list \<Rightarrow> ('l, stack_state) base_engine engine_ops" where
  "server_engine c k ops ls =
     (let b = layer_stack k ls in stack_engine b (base_ops ops (stack_applicator b (table_apply c))))"

definition start_node ::
  "table_codecs \<Rightarrow> layer_codecs \<Rightarrow> 'l loglet_ops \<Rightarrow> 'l \<Rightarrow> layer list \<Rightarrow> memory_store \<Rightarrow> server_node result" where
  "start_node c k ops log ls store =
     and_then (stack_build (layer_stack k ls) ops log store (table_apply c) stack_state_new)
       (\<lambda>(engine, be). Inr (node_of ls be))"

definition cluster_new ::
  "table_codecs \<Rightarrow> layer_codecs \<Rightarrow> 'l loglet_ops \<Rightarrow> 'l \<Rightarrow> layer list list \<Rightarrow> 'l cluster result" where
  "cluster_new c k ops log lss =
     and_then (collect (map (\<lambda>ls. start_node c k ops log ls memory_store_new) lss))
       (\<lambda>nodes. Inr \<lparr>cl_log = log, cl_nodes = nodes\<rparr>)"

datatype table_call = DoCommand table_command | DoGet string "table_value list" | DoScan string | DoRestart | DoSeal | DoTrim

datatype table_answer =
    Done "unit result"
  | GotRow "row option result"
  | GotRows "row list result"
  | Restarted "unit result"
  | SealedLog "LogPos result"
  | TrimmedLog "unit result"

definition answer_from ::
  "('r \<Rightarrow> table_answer) \<Rightarrow> nat \<Rightarrow> 'l cluster \<Rightarrow> ('r \<times> ('l, stack_state) base_engine) option \<Rightarrow>
   (table_answer \<times> 'l cluster) option" where
  "answer_from f i cl out =
     map_option (\<lambda>(r, be). (f r, \<lparr>cl_log = be_log be,
       cl_nodes = (cl_nodes cl)[i := node_of (node_layers (cl_nodes cl ! i)) be]\<rparr>)) out"

text \<open>What every server has applied and made durable.\<close>

definition lowest_cursor :: "server_node list \<Rightarrow> LogPos" where
  "lowest_cursor nds = min_list (map node_cursor nds)"

fun cluster_call ::
  "table_codecs \<Rightarrow> layer_codecs \<Rightarrow> 'l loglet_ops \<Rightarrow> nat \<Rightarrow> table_call \<Rightarrow> 'l cluster \<Rightarrow> (table_answer \<times> 'l cluster) option" where
  "cluster_call c k ops i (DoCommand cmd) cl =
     answer_from Done i cl (propose_and_check c (server_engine c k ops (node_layers (cl_nodes cl ! i))) cmd
       (node_engine (cl_log cl) (cl_nodes cl ! i)))"
| "cluster_call c k ops i (DoGet t key) cl =
     answer_from GotRow i cl (dt_get c (server_engine c k ops (node_layers (cl_nodes cl ! i))) be_store t key
       (node_engine (cl_log cl) (cl_nodes cl ! i)))"
| "cluster_call c k ops i (DoScan t) cl =
     answer_from GotRows i cl (dt_scan c (server_engine c k ops (node_layers (cl_nodes cl ! i))) be_store t
       (node_engine (cl_log cl) (cl_nodes cl ! i)))"
| "cluster_call c k ops i DoRestart cl =
     (case start_node c k ops (cl_log cl) (node_layers (cl_nodes cl ! i)) (node_store (cl_nodes cl ! i)) of
        Inl err \<Rightarrow> Some (Restarted (Inl err), cl)
      | Inr nd \<Rightarrow> Some (Restarted (Inr ()), cl\<lparr>cl_nodes := (cl_nodes cl)[i := nd]\<rparr>))"
| "cluster_call c k ops i DoSeal cl =
     (case lg_seal ops (cl_log cl) of (r, log') \<Rightarrow> Some (SealedLog r, cl\<lparr>cl_log := log'\<rparr>))"
| "cluster_call c k ops i DoTrim cl =
     (case lg_trim ops (lowest_cursor (cl_nodes cl)) (cl_log cl) of
        (r, log') \<Rightarrow> Some (TrimmedLog r, cl\<lparr>cl_log := log'\<rparr>))"

fun cluster_run ::
  "table_codecs \<Rightarrow> layer_codecs \<Rightarrow> 'l loglet_ops \<Rightarrow> (nat \<times> table_call) list \<Rightarrow> 'l cluster \<Rightarrow>
   (table_answer list \<times> 'l cluster) option" where
  "cluster_run c k ops [] cl = Some ([], cl)"
| "cluster_run c k ops ((i, call) # calls) cl =
     (case cluster_call c k ops i call cl of
        None \<Rightarrow> None
      | Some (ans, cl') \<Rightarrow> map_option (\<lambda>(rest, cl''). (ans # rest, cl'')) (cluster_run c k ops calls cl'))"

section \<open>One database\<close>

text \<open>The database after a call, for a call it accepts: the table name has no slash, and the row of a
  put determines its key.\<close>

fun db_after :: "table_call \<Rightarrow> database \<Rightarrow> database option" where
  "db_after (DoCommand cmd) D =
     (if plain_name (command_table cmd) then (case db_apply cmd D of Inl err \<Rightarrow> None | Inr (resp, D') \<Rightarrow> Some D') else None)"
| "db_after (DoGet t key) D = (if plain_name t then Some D else None)"
| "db_after (DoScan t) D = (if plain_name t then Some D else None)"
| "db_after DoRestart D = Some D"
| "db_after DoSeal D = Some D"
| "db_after DoTrim D = Some D"

fun db_answer :: "table_call \<Rightarrow> database \<Rightarrow> table_answer \<Rightarrow> bool" where
  "db_answer (DoCommand cmd) D ans \<longleftrightarrow> (\<exists>resp D'. db_apply cmd D = Inr (resp, D') \<and> ans = Done (check_response resp))"
| "db_answer (DoGet t key) D ans \<longleftrightarrow> ans = GotRow (Inr (db_row D t key))"
| "db_answer (DoScan t) D ans \<longleftrightarrow>
     (\<exists>keys. ans = GotRows (Inr (map (\<lambda>key. the (db_row D t key)) keys)) \<and> distinct keys \<and>
        set keys = {key. db_row D t key \<noteq> None})"
| "db_answer DoRestart D ans \<longleftrightarrow> ans = Restarted (Inr ())"
| "db_answer DoSeal D ans \<longleftrightarrow> (\<exists>p. ans = SealedLog (Inr p))"
| "db_answer DoTrim D ans \<longleftrightarrow> ans = TrimmedLog (Inr ())"

fun db_accepts :: "(nat \<times> table_call) list \<Rightarrow> database \<Rightarrow> bool" where
  "db_accepts [] D = True"
| "db_accepts ((i, call) # calls) D = (case db_after call D of None \<Rightarrow> False | Some D' \<Rightarrow> db_accepts calls D')"

fun db_answers :: "(nat \<times> table_call) list \<Rightarrow> table_answer list \<Rightarrow> database \<Rightarrow> bool" where
  "db_answers [] as D \<longleftrightarrow> as = []"
| "db_answers ((i, call) # calls) as D \<longleftrightarrow>
     (\<exists>ans rest D'. as = ans # rest \<and> db_answer call D ans \<and> db_after call D = Some D' \<and> db_answers calls rest D')"

fun call_weight :: "table_call \<Rightarrow> nat" where
  "call_weight (DoCommand cmd) = 1"
| "call_weight (DoGet t key) = 0"
| "call_weight (DoScan t) = 0"
| "call_weight DoRestart = 0"
| "call_weight DoSeal = 0"
| "call_weight DoTrim = 0"

section \<open>The invariant\<close>

text \<open>The layers that change what is written to the log, in order: servers of one log must agree on
  them. Observers do not matter.\<close>

fun log_format :: "layer list \<Rightarrow> bool list" where
  "log_format [] = []"
| "log_format (ViewLayer server_id busy # ls) = False # log_format ls"
| "log_format (BatchLayer mb # ls) = True # log_format ls"
| "log_format (ObserverLayer el # ls) = log_format ls"

definition format_sem :: "table_codecs \<Rightarrow> layer_codecs \<Rightarrow> bool list \<Rightarrow> app_sem" where
  "format_sem c k fmt = foldr (\<lambda>b. if b then batching_sem (batching_codecs k) else view_sem (view_codec k)) fmt (table_sem c)"

lemma layers_format: "layers_sem k ls (table_sem c) = format_sem c k (log_format ls)"
  by (induction ls rule: log_format.induct) (simp_all add: format_sem_def)

lemma one_batch: "length (filter is_Batch ls) = length (filter id (log_format ls))"
  by (induction ls rule: log_format.induct) simp_all

lemma table_payload_only: "payload_only (table_sem c)"
  by (simp add: payload_only_def table_sem_def fun_eq_iff)

definition node_ok :: "app_sem \<Rightarrow> bool list \<Rightarrow> alog \<Rightarrow> server_node \<Rightarrow> bool" where
  "node_ok full fmt a nd \<longleftrightarrow> log_format (node_layers nd) = fmt \<and>
     (\<exists>n. al_trim a \<le> Suc n \<and> node_cursor nd = of_nat (Suc n) \<and> replayed full a n (node_store nd))"

definition cluster_ok ::
  "('l \<Rightarrow> alog \<Rightarrow> bool) \<Rightarrow> table_codecs \<Rightarrow> layer_codecs \<Rightarrow> bool list \<Rightarrow> 'l cluster \<Rightarrow> alog \<Rightarrow> database \<Rightarrow> bool" where
  "cluster_ok rel c k fmt cl a D \<longleftrightarrow> rel (cl_log cl) a \<and> \<not> al_sealed a \<and>
     (\<exists>m. replay (format_sem c k fmt) 1 (al_entries a) Map.empty = Inr m \<and> db_rel c m D) \<and>
     (\<forall>nd \<in> set (cl_nodes cl). node_ok (format_sem c k fmt) fmt a nd)"

lemma node_ok_push: "node_ok full fmt a nd \<Longrightarrow> node_ok full fmt (al_push e a) nd"
  by (auto simp: node_ok_def dest: replayed_push)

text \<open>Trimming at the lowest cursor.\<close>

lemma node_ok_trim: "node_ok full fmt a nd \<Longrightarrow> al_tail a < 2 ^ 64 \<Longrightarrow> T \<le> unat (node_cursor nd) \<Longrightarrow>
  node_ok full fmt (a\<lparr>al_trim := max (al_trim a) T\<rparr>) nd"
  by (auto simp: node_ok_def replayed_def al_tail_def unat_of_nat_pos simp del: of_nat_Suc)

lemma cluster_serves:
  assumes "cluster_ok rel c k fmt cl a D" "i < length (cl_nodes cl)"
  shows "\<exists>n m. serves rel (format_sem c k fmt) (node_engine (cl_log cl) (cl_nodes cl ! i)) a n m \<and> db_rel c m D \<and>
    log_format (node_layers (cl_nodes cl ! i)) = fmt"
  using assms nth_mem[OF assms(2)]
  by (fastforce simp: cluster_ok_def node_ok_def serves_def engine_inv_def node_engine_def)

lemma serves_node:
  assumes "serves rel full be a n m" "log_format ls = fmt"
  shows "node_ok full fmt a (node_of ls be)" "rel (be_log be) a" "\<not> al_sealed a"
    "replay full 1 (al_entries a) Map.empty = Inr m" "store_ok (be_store be)"
  using assms by (auto simp: serves_def engine_inv_def node_ok_def node_of_def replayed_def)

text \<open>What remains of a call is to put the server back.\<close>

lemma cluster_ok_put:
  assumes "cluster_ok rel c k fmt cl a D" "i < length (cl_nodes cl)" "log_format ls = fmt"
    and "serves rel (format_sem c k fmt) be b n m" "db_rel c m D'" "b = a \<or> b = al_push en a"
  shows "cluster_ok rel c k fmt \<lparr>cl_log = be_log be, cl_nodes = (cl_nodes cl)[i := node_of ls be]\<rparr> b D'"
proof -
  have "node_ok (format_sem c k fmt) fmt b nd" if "nd \<in> set (cl_nodes cl)" for nd
    using assms(1,6) that node_ok_push by (auto simp: cluster_ok_def)
  then have "\<forall>nd \<in> set ((cl_nodes cl)[i := node_of ls be]). node_ok (format_sem c k fmt) fmt b nd"
    using set_update_subset_insert[of "cl_nodes cl" i] serves_node(1)[OF assms(4,3)] by blast
  then show ?thesis using serves_node[OF assms(4,3)] assms(5) by (auto simp: cluster_ok_def)
qed

section \<open>Clusters over a shared log\<close>

context shared_log
begin

lemma server_carries:
  assumes "layer_codecs_ok k" "length (filter id fmt) \<le> 1" "log_format ls = fmt"
  shows "carries rel (format_sem c k fmt) (server_engine c k ops ls) (table_sem c)"
proof -
  let ?b = "layer_stack k ls :: (('l, stack_state) base_engine, stack_state) engine_stack_builder"
  let ?app = "stack_applicator ?b (table_apply c)"
  have "applicator ?app (format_sem c k fmt)"
    using layers_applicator[OF table.applicator_axioms, of k ls c] layers_format[of k ls c] assms(3) by simp
  then have "replica ops rel ?app (format_sem c k fmt)"
    by (intro replica.intro loglet_core_axioms)
  from replica.base_carries[OF this] have "carries rel (format_sem c k fmt) (base_ops ops ?app) (layers_sem k (ls @ []) (table_sem c))"
    using layers_format[of k ls c] assms(3) by simp
  from stack_carries[OF assms(1) table_payload_only _ this] show ?thesis
    using one_batch[of ls] assms(2,3) by (simp add: server_engine_def Let_def)
qed

lemma node_started:
  assumes "rel log a" "replayed (format_sem c k fmt) a n s" "log_format ls = fmt" "al_trim a \<le> Suc n"
  shows "\<exists>nd. start_node c k ops log ls s = Inr nd \<and> node_ok (format_sem c k fmt) fmt a nd"
  using assms read_cursor_replayed[OF assms(2)]
  by (auto simp: start_node_def stack_build_def engine_new_def node_of_def node_ok_def Let_def)

lemma command_spec:
  assumes "codecs_ok c" "layer_codecs_ok k" "length (filter id fmt) \<le> 1"
    and "cluster_ok rel c k fmt cl a D" "i < length (cl_nodes cl)" "Suc (al_tail a) < 2 ^ 64"
    and "plain_name (command_table cmd)" "db_apply cmd D = Inr (resp, D')"
  shows "\<exists>cl' en. cluster_call c k ops i (DoCommand cmd) cl = Some (Done (check_response resp), cl') \<and>
    cluster_ok rel c k fmt cl' (al_push en a) D' \<and> length (cl_nodes cl') = length (cl_nodes cl)"
proof -
  obtain n m where s: "serves rel (format_sem c k fmt) (node_engine (cl_log cl) (cl_nodes cl ! i)) a n m" "db_rel c m D"
    "log_format (node_layers (cl_nodes cl ! i)) = fmt"
    using cluster_serves[OF assms(4,5)] by blast
  have cok: "codec_ok (command_codec c)" using assms(1) by (simp add: codecs_ok_def)
  obtain pl where pl: "command_to_bytes c cmd = Inr pl"
    using encode_total[OF cok, of cmd] unfolding command_to_bytes_def ..
  have "command_from_bytes c (payload (entry_new pl)) = Inr cmd"
    using decode_encode[OF cok] pl by (simp add: command_to_bytes_def command_from_bytes_def)
  from table_sem_refines[OF assms(1) s(2) this assms(7,8), of "of_nat (al_tail a)"] obtain bs m' where
    b: "table_sem c (entry_new pl) (of_nat (al_tail a)) m = Inr (Data bs, m')" "response_from_bytes c bs = Inr resp"
      "db_rel c m' D'" by blast
  from carriesD(1)[OF server_carries[OF assms(2,3) s(3)] s(1) assms(6) b(1)] obtain be' en where
    p: "eng_propose (server_engine c k ops (node_layers (cl_nodes cl ! i))) (entry_new pl)
          (node_engine (cl_log cl) (cl_nodes cl ! i)) = Some (Inr (Data bs), be')"
      "serves rel (format_sem c k fmt) be' (al_push en a) (al_tail a) (with_cursor (Suc (al_tail a)) m')" by blast
  show ?thesis
    using cluster_ok_put[OF assms(4,5) s(3) p(2) db_rel_cursor[OF b(3)]] pl p(1) b(2)
    by (auto simp: propose_and_check_def answer_from_def)
qed

lemma synced_spec:
  assumes "layer_codecs_ok k" "length (filter id fmt) \<le> 1"
    and "cluster_ok rel c k fmt cl a D" "i < length (cl_nodes cl)"
  shows "\<exists>be'. eng_sync (server_engine c k ops (node_layers (cl_nodes cl ! i))) (node_engine (cl_log cl) (cl_nodes cl ! i)) =
      Some (Inr (of_nat (al_tail a)), be') \<and> store_ok (be_store be') \<and> db_rel c (content (be_store be')) D \<and>
    cluster_ok rel c k fmt \<lparr>cl_log = be_log be', cl_nodes = (cl_nodes cl)[i := node_of (node_layers (cl_nodes cl ! i)) be']\<rparr> a D"
proof -
  obtain n m where s: "serves rel (format_sem c k fmt) (node_engine (cl_log cl) (cl_nodes cl ! i)) a n m" "db_rel c m D"
    "log_format (node_layers (cl_nodes cl ! i)) = fmt"
    using cluster_serves[OF assms(3,4)] by blast
  from carriesD(2)[OF server_carries[OF assms(1,2) s(3)] s(1)] obtain be' where
    b: "eng_sync (server_engine c k ops (node_layers (cl_nodes cl ! i))) (node_engine (cl_log cl) (cl_nodes cl ! i)) =
        Some (Inr (of_nat (al_tail a)), be')" "serves rel (format_sem c k fmt) be' a (length (al_entries a)) m"
      "content (be_store be') = m" by blast
  show ?thesis
    using cluster_ok_put[OF assms(3,4) s(3) b(2) s(2)] serves_node(5)[OF b(2) s(3)] b(1,3) s(2) by auto
qed

lemma cursor_tail:
  assumes "rel l a" "node_ok full fmt a nd"
  shows "unat (node_cursor nd) \<le> al_tail a"
  using assms rel_bounds[OF assms(1)]
  by (auto simp: node_ok_def replayed_def al_tail_def unat_of_nat_pos simp del: of_nat_Suc)

lemma call_spec:
  assumes "codecs_ok c" "layer_codecs_ok k" "length (filter id fmt) \<le> 1"
    and "cluster_ok rel c k fmt cl a D" "i < length (cl_nodes cl)" "al_tail a + call_weight call < 2 ^ 64"
    and "db_after call D = Some D'"
  shows "\<exists>ans cl' a'. cluster_call c k ops i call cl = Some (ans, cl') \<and> db_answer call D ans \<and>
    cluster_ok rel c k fmt cl' a' D' \<and> al_tail a' = al_tail a + call_weight call \<and> length (cl_nodes cl') = length (cl_nodes cl)"
proof (cases call)
  case (DoCommand cmd)
  then obtain resp where r: "plain_name (command_table cmd)" "db_apply cmd D = Inr (resp, D')"
    using assms(7) by (auto split: if_splits sum.splits)
  have "Suc (al_tail a) < 2 ^ 64" using assms(6) DoCommand by simp
  from command_spec[OF assms(1-5) this r] obtain cl' en where
    "cluster_call c k ops i (DoCommand cmd) cl = Some (Done (check_response resp), cl')"
    "cluster_ok rel c k fmt cl' (al_push en a) D'" "length (cl_nodes cl') = length (cl_nodes cl)" by blast
  then show ?thesis using DoCommand r by (intro exI[of _ "Done (check_response resp)"] exI[of _ cl'] exI[of _ "al_push en a"]) auto
next
  case (DoGet t key)
  then have t: "plain_name t" "D' = D" using assms(7) by (auto split: if_splits)
  obtain be' where b: "eng_sync (server_engine c k ops (node_layers (cl_nodes cl ! i))) (node_engine (cl_log cl) (cl_nodes cl ! i)) =
      Some (Inr (of_nat (al_tail a)), be')" "store_ok (be_store be')" "db_rel c (content (be_store be')) D"
    "cluster_ok rel c k fmt \<lparr>cl_log = be_log be', cl_nodes = (cl_nodes cl)[i := node_of (node_layers (cl_nodes cl ! i)) be']\<rparr> a D"
    using synced_spec[OF assms(2-5)] by blast
  with read_row_rel[OF b(2,3) t(1), of key] t(2) DoGet show ?thesis by (auto simp: dt_get_def answer_from_def)
next
  case (DoScan t)
  then have t: "plain_name t" "D' = D" using assms(7) by (auto split: if_splits)
  obtain be' where b: "eng_sync (server_engine c k ops (node_layers (cl_nodes cl ! i))) (node_engine (cl_log cl) (cl_nodes cl ! i)) =
      Some (Inr (of_nat (al_tail a)), be')" "store_ok (be_store be')" "db_rel c (content (be_store be')) D"
    "cluster_ok rel c k fmt \<lparr>cl_log = be_log be', cl_nodes = (cl_nodes cl)[i := node_of (node_layers (cl_nodes cl ! i)) be']\<rparr> a D"
    using synced_spec[OF assms(2-5)] by blast
  with read_rows_rel[OF assms(1) b(2,3) t(1)] t(2) DoScan show ?thesis by (auto simp: dt_scan_def answer_from_def)
next
  case DoRestart
  let ?nd = "cl_nodes cl ! i"
  have nd: "node_ok (format_sem c k fmt) fmt a ?nd" "rel (cl_log cl) a"
    using assms(4) nth_mem[OF assms(5)] by (auto simp: cluster_ok_def)
  from nd(1) obtain n where "al_trim a \<le> Suc n" "replayed (format_sem c k fmt) a n (node_store ?nd)"
    "log_format (node_layers ?nd) = fmt" by (auto simp: node_ok_def)
  with node_started[OF nd(2), of c k fmt n "node_store ?nd" "node_layers ?nd"] obtain nd' where
    n: "start_node c k ops (cl_log cl) (node_layers ?nd) (node_store ?nd) = Inr nd'" "node_ok (format_sem c k fmt) fmt a nd'"
    by blast
  then have "cluster_ok rel c k fmt (cl\<lparr>cl_nodes := (cl_nodes cl)[i := nd']\<rparr>) a D"
    using assms(4) set_update_subset_insert[of "cl_nodes cl" i nd'] by (auto simp: cluster_ok_def)
  with n(1) DoRestart assms(7) show ?thesis by auto
next
  case DoSeal
  have "rel (cl_log cl) a" using assms(4) by (simp add: cluster_ok_def)
  from seal_open[OF this] obtain l' where "lg_seal ops (cl_log cl) = (Inr (of_nat (al_tail a)), l')" "rel l' a" by blast
  moreover from this have "cluster_ok rel c k fmt (cl\<lparr>cl_log := l'\<rparr>) a D" using assms(4) by (simp add: cluster_ok_def)
  ultimately show ?thesis using DoSeal assms(7) by auto
next
  case DoTrim
  have rel: "rel (cl_log cl) a" using assms(4) by (simp add: cluster_ok_def)
  let ?T = "lowest_cursor (cl_nodes cl)"
  let ?a = "a\<lparr>al_trim := max (al_trim a) (unat ?T)\<rparr>"
  have low: "unat ?T \<le> unat (node_cursor nd)" if "nd \<in> set (cl_nodes cl)" for nd
    using that by (simp add: lowest_cursor_def min_list_le word_le_nat_alt[symmetric])
  have "unat ?T \<le> al_tail a"
    using low[OF nth_mem[OF assms(5)]] assms(4) nth_mem[OF assms(5)] cursor_tail[OF rel]
    by (fastforce simp: cluster_ok_def)
  from trim[OF rel this] obtain l' where l': "lg_trim ops ?T (cl_log cl) = (Inr (), l')" "rel l' ?a" by blast
  have "cluster_ok rel c k fmt (cl\<lparr>cl_log := l'\<rparr>) ?a D"
    using assms(4) l'(2) low node_ok_trim rel_bounds[OF rel] by (auto simp: cluster_ok_def)
  with l'(1) DoTrim assms(7) show ?thesis by (intro exI[of _ "TrimmedLog (Inr ())"]) auto
qed

lemma run_spec:
  assumes "codecs_ok c" "layer_codecs_ok k" "length (filter id fmt) \<le> 1"
    and "cluster_ok rel c k fmt cl a D" "\<forall>(i, call) \<in> set calls. i < length (cl_nodes cl)"
    and "al_tail a + length calls < 2 ^ 64" "db_accepts calls D"
  shows "\<exists>as cl'. cluster_run c k ops calls cl = Some (as, cl') \<and> db_answers calls as D"
  using assms(4-7)
proof (induction calls arbitrary: cl a D)
  case (Cons ic calls)
  obtain i call where ic: "ic = (i, call)" by (cases ic)
  obtain D1 where D1: "db_after call D = Some D1" "db_accepts calls D1"
    using Cons.prems(4) ic by (auto split: option.splits)
  have w: "call_weight call \<le> 1" by (cases call) simp_all
  from call_spec[OF assms(1-3) Cons.prems(1) _ _ D1(1), of i] Cons.prems(2,3) ic w obtain ans cl1 a1 where
    s: "cluster_call c k ops i call cl = Some (ans, cl1)" "db_answer call D ans" "cluster_ok rel c k fmt cl1 a1 D1"
      "al_tail a1 = al_tail a + call_weight call" "length (cl_nodes cl1) = length (cl_nodes cl)" by auto
  from Cons.IH[OF s(3) _ _ D1(2)] Cons.prems(2,3) s(4,5) w obtain as cl2 where
    "cluster_run c k ops calls cl1 = Some (as, cl2)" "db_answers calls as D1" by auto
  with s(1,2) D1(1) ic show ?case by auto
qed simp

lemma cluster_started:
  assumes "rel log alog_new" "\<forall>ls \<in> set lss. log_format ls = fmt"
  shows "\<exists>cl. cluster_new c k ops log lss = Inr cl \<and> cluster_ok rel c k fmt cl alog_new Map.empty \<and> length (cl_nodes cl) = length lss"
proof -
  have "\<exists>nodes. collect (map (\<lambda>ls. start_node c k ops log ls memory_store_new) lss) = Inr nodes \<and>
      (\<forall>nd \<in> set nodes. node_ok (format_sem c k fmt) fmt alog_new nd) \<and> length nodes = length lss"
    using assms(2)
  proof (induction lss)
    case (Cons ls lss)
    have "replayed (format_sem c k fmt) alog_new 0 memory_store_new"
      by (simp add: replayed_def store_ok_def memory_store_new_def bt_ok_empty content_def bt_get_empty)
    from node_started[OF assms(1) this, of ls] Cons.prems obtain nd where
      "start_node c k ops log ls memory_store_new = Inr nd" "node_ok (format_sem c k fmt) fmt alog_new nd"
      by (auto simp: alog_new_def)
    with Cons show ?case by auto
  qed simp
  then obtain nodes where "collect (map (\<lambda>ls. start_node c k ops log ls memory_store_new) lss) = Inr nodes"
    "\<forall>nd \<in> set nodes. node_ok (format_sem c k fmt) fmt alog_new nd" "length nodes = length lss" by blast
  then show ?thesis
    using assms(1) db_rel_empty[of c] by (simp add: cluster_new_def cluster_ok_def) (simp add: alog_new_def)
qed

text \<open>A new cluster, and any sequence of calls that the database accepts.\<close>

lemma one_database:
  assumes "codecs_ok c" "layer_codecs_ok k" "length (filter id fmt) \<le> 1" "\<forall>ls \<in> set lss. log_format ls = fmt"
    and "rel log alog_new" "\<forall>(i, call) \<in> set calls. i < length lss" "length calls + 1 < 2 ^ 64" "db_accepts calls Map.empty"
  shows "\<exists>cl as cl'. cluster_new c k ops log lss = Inr cl \<and> cluster_run c k ops calls cl = Some (as, cl') \<and>
    db_answers calls as Map.empty"
proof -
  obtain cl where cl: "cluster_new c k ops log lss = Inr cl" "cluster_ok rel c k fmt cl alog_new Map.empty"
    "length (cl_nodes cl) = length lss"
    using cluster_started[OF assms(5,4)] by blast
  with run_spec[OF assms(1-3) cl(2) _ _ assms(8)] assms(6,7) show ?thesis
    by (auto simp: al_tail_def alog_new_def)
qed

end

section \<open>Properties\<close>

definition sample_layer_codecs :: layer_codecs where
  "sample_layer_codecs = \<lparr>view_codec = sample_view_codec, batching_codecs = sample_batch_codecs\<rparr>"

lemma sample_layer_codecs_ok: "layer_codecs_ok sample_layer_codecs"
  using sample_view_codec_ok sample_batch_codecs_ok by (simp add: layer_codecs_ok_def sample_layer_codecs_def)

text \<open>Two servers with different observers and view identities; a table is created on one, a row put on
  the other, the log sealed and trimmed, the first server restarted, and the row read there.\<close>

definition demo_layers :: "layer list list" where
  "demo_layers = [[ViewLayer 1 (\<lambda>_. False), BatchLayer None, ObserverLayer 5], [ObserverLayer 2, ViewLayer 2 (\<lambda>_. True), BatchLayer (Some 1)]]"

definition demo_calls :: "(nat \<times> table_call) list" where
  "demo_calls = [(0, DoCommand (CreateTable users_schema)), (1, DoCommand (Put ''users'' alice)), (0, DoSeal), (1, DoTrim), (0, DoRestart),
     (0, DoGet ''users'' [Int64 1])]"

lemma demo_row: "schema_name users_schema = ''users''" "length (values alice) = length (columns users_schema)"
  by (simp_all add: users_schema_def alice_def)

lemma demo_accepted: "db_accepts demo_calls Map.empty"
  using alice_pk demo_row by (simp add: demo_calls_def)

lemma demo_indices: "\<forall>(j, call) \<in> set demo_calls. j < length demo_layers" "length demo_calls + 1 < 2 ^ 64"
  "length (filter id [False, True]) \<le> 1" "\<forall>j \<ge> 1. ''memory-0'' \<noteq> loglet_name j"
  using loglet_name_not_memory by (simp_all add: demo_calls_def demo_layers_def) metis

lemma demo_answered:
  assumes "db_answers demo_calls as Map.empty"
  shows "as ! 5 = GotRow (Inr (Some alice))"
  using assms alice_pk demo_row
  by (auto simp: demo_calls_def db_row_def numeral_eq_Suc split: if_splits)

lemma demo_formats: "\<forall>ls \<in> set demo_layers. log_format ls = [False, True]"
  by (simp add: demo_layers_def)

text \<open>C1. A replicated table is one database: take any number of servers on a virtual log of in-memory
  loglets, each under its own stack of view-tracking, batching and observer layers, the servers agreeing
  on which layers write to the log and at most one of these batching. Every sequence of creates, drops,
  puts, deletes, gets and scans made at any of the servers, with restarts of servers, seals of
  the log and trims of what all servers have applied in between, completes and is answered as one database answers it.\<close>

theorem table_cluster_one_database:
  assumes "codecs_ok c" and "layer_codecs_ok k" and "\<forall>j \<ge> 1. i \<noteq> loglet_name j"
    and "\<forall>ls \<in> set lss. log_format ls = fmt" and "length (filter id fmt) \<le> 1"
    and "\<forall>(j, call) \<in> set calls. j < length lss" and "length calls + 1 < 2 ^ 64" and "db_accepts calls Map.empty"
  shows "\<exists>v cl as cl'. vl_new memory_factory (meta_new (chain_new i)) = Inr v \<and> cluster_new c k mvl_ops v lss = Inr cl \<and>
    cluster_run c k mvl_ops calls cl = Some (as, cl') \<and> db_answers calls as Map.empty"
  using mvl.vl_new_spec[OF assms(3)] mvl.chained.one_database[OF assms(1,2,5,4) _ assms(6-8)] by blast

theorem table_cluster_one_database_witness:
  "\<exists>v cl as cl'. vl_new memory_factory (meta_new (chain_new ''memory-0'')) = Inr v \<and>
     cluster_new sample_codecs sample_layer_codecs mvl_ops v demo_layers = Inr cl \<and>
     cluster_run sample_codecs sample_layer_codecs mvl_ops demo_calls cl = Some (as, cl') \<and>
     as ! 5 = GotRow (Inr (Some alice))"
  using table_cluster_one_database[OF sample_codecs_ok sample_layer_codecs_ok demo_indices(4) demo_formats demo_indices(3,1,2)
      demo_accepted] demo_answered by blast

text \<open>C2. The same for a virtual log of native loglets, each with a sequencer and three log servers.\<close>

theorem native_cluster_one_database:
  assumes "codecs_ok c" and "layer_codecs_ok k" and "\<forall>j \<ge> 1. i \<noteq> loglet_name j"
    and "\<forall>ls \<in> set lss. log_format ls = fmt" and "length (filter id fmt) \<le> 1"
    and "\<forall>(j, call) \<in> set calls. j < length lss" and "length calls + 1 < 2 ^ 64" and "db_accepts calls Map.empty"
  shows "\<exists>v cl as cl'. vl_new (native_factory 3) (meta_new (chain_new i)) = Inr v \<and>
    cluster_new c k (vl_ops native_ops (native_factory 3)) v lss = Inr cl \<and>
    cluster_run c k (vl_ops native_ops (native_factory 3)) calls cl = Some (as, cl') \<and> db_answers calls as Map.empty"
  using nvl.vl_new_spec[OF assms(3)] nvl.chained.one_database[OF assms(1,2,5,4) _ assms(6-8)] by blast

theorem native_cluster_one_database_witness:
  "\<exists>v cl as cl'. vl_new (native_factory 3) (meta_new (chain_new ''memory-0'')) = Inr v \<and>
     cluster_new sample_codecs sample_layer_codecs (vl_ops native_ops (native_factory 3)) v demo_layers = Inr cl \<and>
     cluster_run sample_codecs sample_layer_codecs (vl_ops native_ops (native_factory 3)) demo_calls cl = Some (as, cl') \<and>
     as ! 5 = GotRow (Inr (Some alice))"
  using native_cluster_one_database[OF sample_codecs_ok sample_layer_codecs_ok demo_indices(4) demo_formats demo_indices(3,1,2)
      demo_accepted] demo_answered by blast

end
