(* ===== verification/Engine_Alone.thy ===== *)
theory Engine_Alone
  imports Engine_Steps Memory_Loglet
begin

text \<open>
  The steps of \<open>Engine_Steps\<close> and the functions of \<open>Base_Engine\<close> are two models of the same loop. Here
  they are shown to agree: a server that is left alone while it works through its channel gives the
  answers of \<open>apply_loop\<close> and ends in its state, for any log and any applicator.
\<close>

definition engine_of :: "'l \<Rightarrow> 'x engine_node \<Rightarrow> ('l, 'x) base_engine" where
  "engine_of log nd = \<lparr>be_log = log, be_store = en_store nd, be_app = en_app nd, be_cursor = en_cursor nd\<rparr>"

definition with_engine :: "('l, 'x) base_engine \<Rightarrow> 'x engine_node \<Rightarrow> 'x engine_node" where
  "with_engine be nd = nd\<lparr>en_store := be_store be, en_app := be_app be, en_cursor := be_cursor be, en_job := None\<rparr>"

definition sys_with :: "nat \<Rightarrow> 'l \<Rightarrow> 'x engine_node \<Rightarrow> (nat \<rightharpoonup> ticket) \<Rightarrow> ('l, 'x) engine_sys \<Rightarrow> ('l, 'x) engine_sys" where
  "sys_with i log nd ts y = \<lparr>es_log = log, es_nodes = (es_nodes y)[i := nd], es_tickets = ts\<rparr>"

lemma sys_with_sel [simp]:
  "es_log (sys_with i log nd ts y) = log" "es_tickets (sys_with i log nd ts y) = ts"
  "length (es_nodes (sys_with i log nd ts y)) = length (es_nodes y)"
  "i < length (es_nodes y) \<Longrightarrow> es_nodes (sys_with i log nd ts y) ! i = nd"
  "sys_with i log' nd' ts' (sys_with i log nd ts y) = sys_with i log' nd' ts' y"
  by (simp_all add: sys_with_def)

lemma sys_with_same: "i < length (es_nodes y) \<Longrightarrow> sys_with i (es_log y) (es_nodes y ! i) (es_tickets y) y = y"
  by (simp add: sys_with_def)

text \<open>Running one server for some steps.\<close>

definition advances ::
  "'l loglet_ops \<Rightarrow> 'x applicator_fn \<Rightarrow> 'x \<Rightarrow> nat \<Rightarrow> ('l, 'x) engine_sys \<Rightarrow> ('l, 'x) engine_sys \<Rightarrow> bool" where
  "advances ops app x0 i y y' \<longleftrightarrow> (\<exists>n. engine_run ops app x0 (replicate n (Advance i)) y = Some y')"

lemma advances_refl [intro]: "advances ops app x0 i y y"
  unfolding advances_def by (intro exI[of _ 0]) simp

lemma advances_step:
  "engine_exec ops app x0 (Advance i) y = Some y1 \<Longrightarrow> advances ops app x0 i y1 y' \<Longrightarrow> advances ops app x0 i y y'"
  unfolding advances_def by (metis engine_run.simps(2) option.simps(5) replicate_Suc)

lemma advances_to: "advances ops app x0 i y y1 \<Longrightarrow> y1 = y2 \<Longrightarrow> advances ops app x0 i y y2"
  by simp

lemma advances_trans:
  assumes "advances ops app x0 i y y1" "advances ops app x0 i y1 y2"
  shows "advances ops app x0 i y y2"
proof -
  obtain n m where "engine_run ops app x0 (replicate n (Advance i)) y = Some y1"
    "engine_run ops app x0 (replicate m (Advance i)) y1 = Some y2"
    using assms by (auto simp: advances_def)
  then have "engine_run ops app x0 (replicate (n + m) (Advance i)) y = Some y2"
    by (simp add: replicate_add engine_run_append)
  then show ?thesis by (auto simp: advances_def)
qed

lemma advance_alone:
  assumes "i < length (es_nodes y)" "en_alive nd" "en_job nd = Some j" "job_step ops app log j nd = (r, nd')"
  shows "engine_exec ops app x0 (Advance i) (sys_with i log nd ts y) = Some (sys_with i log nd' (reply_to r ts) y)"
  using assms by (simp add: node_step_def) (simp add: sys_with_def)

text \<open>An induction rule for a loop that returns.\<close>

lemma propose_loop_rule:
  fixes ops :: "'l loglet_ops" and app :: "'x applicator_fn"
  assumes "propose_loop ops app log target ret c s x = Some y"
    and stop: "\<And>ret c s x. \<not> c \<le> target \<Longrightarrow> P ret c s x (Inr ret, c, s, x)"
    and err: "\<And>ret c s x err s' x'. c \<le> target \<Longrightarrow> apply_one ops app log c s x = (Inl err, s', x') \<Longrightarrow>
      P ret c s x (Inl err, c, s', x')"
    and step: "\<And>ret c s x rv s' x' y. c \<le> target \<Longrightarrow> apply_one ops app log c s x = (Inr rv, s', x') \<Longrightarrow>
      P (if c = target then rv else ret) (c + 1) s' x' y \<Longrightarrow> P ret c s x y"
  shows "P ret c s x y"
proof -
  let ?Q = "\<lambda>ops' app' log' target' ret c s x y. ops' = ops \<longrightarrow> app' = app \<longrightarrow> log' = log \<longrightarrow> target' = target \<longrightarrow> P ret c s x y"
  have "?Q ops app log target ret c s x y"
  proof (rule propose_loop.raw_induct[of ?Q "(((((((ops, app), log), target), ret), c), s), x)" y, unfolded prod.case])
    fix f :: "'l loglet_ops \<Rightarrow> 'x applicator_fn \<Rightarrow> 'l \<Rightarrow> LogPos \<Rightarrow> return_value \<Rightarrow> LogPos \<Rightarrow> memory_store \<Rightarrow> 'x \<Rightarrow>
        (return_value result \<times> LogPos \<times> memory_store \<times> 'x) option"
    fix ops' app' log' target' ret c s x y
    assume IH: "\<And>ops' app' log' target' ret c s x y. f ops' app' log' target' ret c s x = Some y \<Longrightarrow> ?Q ops' app' log' target' ret c s x y"
      and body: "(if c \<le> target' then
          (case apply_one ops' app' log' c s x of
             (Inl err, s', x') \<Rightarrow> Some (Inl err, c, s', x')
           | (Inr rv, s', x') \<Rightarrow> f ops' app' log' target' (if c = target' then rv else ret) (c + 1) s' x')
        else Some (Inr ret, c, s, x)) = Some y"
    show "?Q ops' app' log' target' ret c s x y"
    proof (intro impI)
      assume eq: "ops' = ops" "app' = app" "log' = log" "target' = target"
      show "P ret c s x y"
      proof (cases "c \<le> target")
        case True
        obtain r s' x' where a: "apply_one ops app log c s x = (r, s', x')" by (metis prod_cases3)
        show ?thesis
        proof (cases r)
          case (Inl e)
          with a body eq True err show ?thesis by auto
        next
          case (Inr rv)
          with a body eq True have "f ops app log target (if c = target then rv else ret) (c + 1) s' x' = Some y" by simp
          from IH[OF this] have "P (if c = target then rv else ret) (c + 1) s' x' y" by simp
          with step True a Inr show ?thesis by blast
        qed
      qed (use body eq stop in auto)
    qed
  qed (rule assms(1))
  then show ?thesis by simp
qed

lemma same_node: "nd\<lparr>en_store := en_store nd, en_app := en_app nd, en_cursor := en_cursor nd, en_job := j\<rparr> = nd\<lparr>en_job := j\<rparr>"
  by (cases nd) simp

text \<open>The two loops.\<close>

lemma propose_job_runs:
  fixes ops :: "'l loglet_ops" and app :: "'x applicator_fn"
  assumes "propose_loop ops app log target ret c s x = Some (r, c', s', x')" "i < length (es_nodes y)"
    and "en_alive nd" "en_job nd = Some (ProposeJob t target ret)" "en_cursor nd = c" "en_store nd = s" "en_app nd = x"
  shows "advances ops app x0 i (sys_with i log nd ts y)
    (sys_with i log (nd\<lparr>en_store := s', en_app := x', en_cursor := c', en_job := None\<rparr>) (reply_to (Some (t, Proposed r)) ts) y)"
proof -
  define P where "P ret c s x out \<longleftrightarrow> (\<forall>nd r c' s' x'. out = (r, c', s', x') \<longrightarrow> en_alive nd \<longrightarrow>
      en_job nd = Some (ProposeJob t target ret) \<longrightarrow> en_cursor nd = c \<longrightarrow> en_store nd = s \<longrightarrow> en_app nd = x \<longrightarrow>
      advances ops app x0 i (sys_with i log nd ts y) (sys_with i log
        (nd\<lparr>en_store := s', en_app := x', en_cursor := c', en_job := None\<rparr>) (reply_to (Some (t, Proposed r)) ts) y))"
    for ret c s x and out :: "return_value result \<times> LogPos \<times> memory_store \<times> 'x"
  note adv = advances_step[OF advance_alone[OF assms(2)]]
  note last = adv[OF _ _ _ advances_refl, THEN advances_to]
  have "P ret c s x (r, c', s', x')"
  proof (rule propose_loop_rule[OF assms(1)])
    fix ret c s x
    assume "\<not> c \<le> target"
    then show "P ret c s x (Inr ret, c, s, x)"
      unfolding P_def by (intro allI impI last) (auto simp: same_node)
  next
    fix ret c s x err s' x'
    assume "c \<le> target" "apply_one ops app log c s x = (Inl err, s', x')"
    then show "P ret c s x (Inl err, c, s', x')"
      unfolding P_def by (intro allI impI last) auto
  next
    fix ret c s x rv s' x' out
    assume a: "c \<le> target" "apply_one ops app log c s x = (Inr rv, s', x')"
      and IH: "P (if c = target then rv else ret) (c + 1) s' x' out"
    show "P ret c s x out"
      unfolding P_def
    proof (intro allI impI)
      fix nd :: "'x engine_node" and r c2 s2 x2
      assume n: "out = (r, c2, s2, x2)" "en_alive nd" "en_job nd = Some (ProposeJob t target ret)" "en_cursor nd = c"
        "en_store nd = s" "en_app nd = x"
      let ?nd = "nd\<lparr>en_store := s', en_app := x', en_cursor := c + 1, en_job := Some (ProposeJob t target (if c = target then rv else ret))\<rparr>"
      have "job_step ops app log (ProposeJob t target ret) nd = (None, ?nd)" using a n by simp
      from adv[OF n(2,3) this] IH[unfolded P_def, rule_format, OF n(1), of ?nd] n(2)
      show "advances ops app x0 i (sys_with i log nd ts y) (sys_with i log
          (nd\<lparr>en_store := s2, en_app := x2, en_cursor := c2, en_job := None\<rparr>) (reply_to (Some (t, Proposed r)) ts) y)"
        by (simp add: reply_to_def[of None])
    qed
  qed
  then show ?thesis unfolding P_def using assms(3-7) by blast
qed

lemma sync_job_runs:
  fixes ops :: "'l loglet_ops" and app :: "'x applicator_fn"
  assumes "sync_loop ops app log tail c s x = (r, c', s', x')" "i < length (es_nodes y)"
    and "en_alive nd" "en_job nd = Some (SyncJob t tail)" "en_cursor nd = c" "en_store nd = s" "en_app nd = x"
  shows "advances ops app x0 i (sys_with i log nd ts y)
    (sys_with i log (nd\<lparr>en_store := s', en_app := x', en_cursor := c', en_job := None\<rparr>)
      (reply_to (Some (t, Synced (case r of Inl err \<Rightarrow> Inl err | Inr u \<Rightarrow> Inr tail))) ts) y)"
  using assms
proof (induction ops app log tail c s x arbitrary: nd rule: sync_loop.induct)
  case (1 ops app log tail c s x)
  note adv = advances_step[OF advance_alone[OF 1(3)]]
  note unf = sync_loop.simps[of ops app log tail c s x]
  show ?case
  proof (cases "c < tail")
    case True
    obtain a s1 x1 where a: "apply_one ops app log c s x = (a, s1, x1)" by (metis prod_cases3)
    show ?thesis
    proof (cases a)
      case (Inl err)
      with 1(2) True a unf have "r = Inl err" "c' = c" "s' = s1" "x' = x1" by simp_all
      with 1(4-8) True a Inl show ?thesis
        by (intro adv[OF _ _ _ advances_refl, THEN advances_to]) auto
    next
      case (Inr rv)
      let ?nd = "nd\<lparr>en_store := s1, en_app := x1, en_cursor := c + 1\<rparr>"
      have "sync_loop ops app log tail (c + 1) s1 x1 = (r, c', s', x')" using 1(2) True a Inr unf by simp
      from 1(1)[OF True a[symmetric] Inr refl this 1(3), of ?nd] 1(4,5)
      have "advances ops app x0 i (sys_with i log ?nd ts y)
        (sys_with i log (?nd\<lparr>en_store := s', en_app := x', en_cursor := c', en_job := None\<rparr>)
          (reply_to (Some (t, Synced (case r of Inl err \<Rightarrow> Inl err | Inr u \<Rightarrow> Inr tail))) ts) y)" by simp
      moreover have "job_step ops app log (SyncJob t tail) nd = (None, ?nd)" using 1(6-8) True a Inr by simp
      ultimately show ?thesis using adv[OF 1(4,5)] by (simp add: reply_to_def[of None])
    qed
  next
    case False
    with 1(2) unf have "r = Inr ()" "c' = c" "s' = s" "x' = x" by simp_all
    with 1(4-8) False show ?thesis
      by (intro adv[OF _ _ _ advances_refl, THEN advances_to]) (auto simp: same_node)
  qed
qed

section \<open>One request and a channel of them\<close>

fun serve_request ::
  "'l loglet_ops \<Rightarrow> 'x applicator_fn \<Rightarrow> apply_request \<Rightarrow> ('l, 'x) base_engine \<Rightarrow> (apply_reply \<times> ('l, 'x) base_engine) option" where
  "serve_request ops app (Propose en) be = map_option (map_prod Proposed id) (handle_propose ops app en be)"
| "serve_request ops app Sync be = Some (map_prod Synced id (handle_sync ops app be))"

lemma apply_loop_Cons:
  "apply_loop ops app (req # reqs) be =
     Option.bind (serve_request ops app req be) (\<lambda>(r, be'). map_option (\<lambda>(rs, be''). (r # rs, be'')) (apply_loop ops app reqs be'))"
  by (cases req) (auto split: option.splits prod.splits)

lemma with_engine_same:
  assumes "en_job nd = None"
  shows "be_log (engine_of log nd) = log" "with_engine (engine_of log nd) (nd\<lparr>en_queue := q\<rparr>) = nd\<lparr>en_queue := q\<rparr>"
  using assms by (cases nd, simp add: with_engine_def engine_of_def)+

lemma apply_loop_length: "apply_loop ops app reqs be = Some (reps, be') \<Longrightarrow> length reps = length reqs"
  by (induction ops app reqs be arbitrary: reps rule: apply_loop.induct) (auto split: option.splits prod.splits)

lemma take_step:
  assumes "i < length (es_nodes y)" "en_alive nd" "en_job nd = None" "en_queue nd = (t, req) # q"
    and "take_request ops log t req (nd\<lparr>en_queue := q\<rparr>) = Some (r, log', nd')"
  shows "engine_exec ops app x0 (Advance i) (sys_with i log nd ts y) = Some (sys_with i log' nd' (reply_to r ts) y)"
  using assms by (simp add: node_step_def) (simp add: sys_with_def)

lemma request_runs:
  fixes ops :: "'l loglet_ops" and app :: "'x applicator_fn"
  assumes "serve_request ops app req (engine_of log nd) = Some (rep, be')" "i < length (es_nodes y)"
    and "en_alive nd" "en_job nd = None" "en_queue nd = (t, req) # q"
  shows "advances ops app x0 i (sys_with i log nd ts y)
    (sys_with i (be_log be') (with_engine be' (nd\<lparr>en_queue := q\<rparr>)) (reply_to (Some (t, rep)) ts) y)"
proof -
  note take = advances_step[OF take_step[OF assms(2-5)]]
  let ?nd = "nd\<lparr>en_queue := q\<rparr>"
  show ?thesis
  proof (cases req)
    case (Propose en)
    then obtain r where h: "handle_propose ops app en (engine_of log nd) = Some (r, be')" "rep = Proposed r"
      using assms(1) by (auto simp: map_prod_def split: prod.splits)
    then obtain a log' where ap: "lg_append ops en log = Some (a, log')"
      by (auto simp: handle_propose_def engine_of_def split: option.splits)
    show ?thesis
    proof (cases a)
      case (Inl err)
      then have "r = Inl err" "be' = engine_of log' nd"
        using h(1) ap by (simp_all add: handle_propose_def engine_of_def)
      with Inl ap h(2) Propose show ?thesis
        by (intro take[OF _ advances_refl, THEN advances_to]) (simp_all add: with_engine_same[OF assms(4)])
    next
      case (Inr target)
      with h ap obtain c' s' x' where l: "propose_loop ops app log' target Success (en_cursor nd) (en_store nd) (en_app nd) = Some (r, c', s', x')"
        "be' = \<lparr>be_log = log', be_store = s', be_app = x', be_cursor = c'\<rparr>"
        by (auto simp: handle_propose_def engine_of_def split: option.splits)
      let ?job = "?nd\<lparr>en_job := Some (ProposeJob t target Success)\<rparr>"
      from propose_job_runs[OF l(1) assms(2), of ?job t x0 ts] assms(3)
      have "advances ops app x0 i (sys_with i log' ?job ts y) (sys_with i (be_log be') (with_engine be' ?nd)
          (reply_to (Some (t, rep)) ts) y)" by (simp add: with_engine_def l(2) h(2))
      then show ?thesis using take ap Inr Propose by (simp add: reply_to_def[of None])
    qed
  next
    case Sync
    then obtain r where h: "handle_sync ops app (engine_of log nd) = (r, be')" "rep = Synced r"
      using assms(1) by (auto simp: map_prod_def split: prod.splits)
    show ?thesis
    proof (cases "lg_check_tail ops log")
      case (Inl err)
      then have "r = Inl err" "be' = engine_of log nd"
        using h(1) by (simp_all add: handle_sync_def engine_of_def)
      with Inl h(2) Sync show ?thesis
        by (intro take[OF _ advances_refl, THEN advances_to]) (simp_all add: with_engine_same[OF assms(4)])
    next
      case (Inr tail)
      obtain u c' s' x' where l: "sync_loop ops app log tail (en_cursor nd) (en_store nd) (en_app nd) = (u, c', s', x')"
        by (metis prod_cases4)
      let ?job = "?nd\<lparr>en_job := Some (SyncJob t tail)\<rparr>"
      have be': "r = (case u of Inl err \<Rightarrow> Inl err | Inr v \<Rightarrow> Inr tail)"
        "be' = \<lparr>be_log = log, be_store = s', be_app = x', be_cursor = c'\<rparr>"
        using h(1) Inr l by (auto simp: handle_sync_def engine_of_def split: sum.splits)
      from sync_job_runs[OF l assms(2), of ?job t x0 ts] assms(3)
      have "advances ops app x0 i (sys_with i log ?job ts y) (sys_with i (be_log be') (with_engine be' ?nd)
          (reply_to (Some (t, rep)) ts) y)" by (simp add: with_engine_def be' h(2))
      then show ?thesis using take Inr Sync by (simp add: reply_to_def[of None])
    qed
  qed
qed


fun replies_to :: "(nat \<times> apply_reply) list \<Rightarrow> (nat \<rightharpoonup> ticket) \<Rightarrow> (nat \<rightharpoonup> ticket)" where
  "replies_to [] ts = ts"
| "replies_to (r # rs) ts = replies_to rs (reply_to (Some r) ts)"

lemma channel_runs:
  fixes ops :: "'l loglet_ops" and app :: "'x applicator_fn"
  assumes "apply_loop ops app (map snd q) (engine_of log nd) = Some (reps, be')" "i < length (es_nodes y)"
    and "en_alive nd" "en_job nd = None" "en_queue nd = q"
  shows "advances ops app x0 i (sys_with i log nd ts y)
    (sys_with i (be_log be') (with_engine be' (nd\<lparr>en_queue := []\<rparr>)) (replies_to (zip (map fst q) reps) ts) y)"
  using assms
proof (induction q arbitrary: log nd reps ts)
  case Nil
  then have "be' = engine_of log nd" "nd\<lparr>en_queue := []\<rparr> = nd" by simp_all
  with with_engine_same(2)[OF Nil(4), of log "[]"] show ?case by (auto simp: engine_of_def)
next
  case (Cons tr q)
  obtain t req where tr: "tr = (t, req)" by (cases tr)
  from Cons.prems(1) tr obtain rep be1 rest where
    1: "serve_request ops app req (engine_of log nd) = Some (rep, be1)" "apply_loop ops app (map snd q) be1 = Some (rest, be')"
      "reps = rep # rest"
    by (auto simp: apply_loop_Cons bind_eq_Some_conv simp del: apply_loop.simps)
  let ?nd = "with_engine be1 (nd\<lparr>en_queue := q\<rparr>)"
  have nd: "engine_of (be_log be1) ?nd = be1" "en_alive ?nd = en_alive nd" "en_job ?nd = None" "en_queue ?nd = q"
    "with_engine be' (?nd\<lparr>en_queue := []\<rparr>) = with_engine be' (nd\<lparr>en_queue := []\<rparr>)"
    by (simp_all add: engine_of_def with_engine_def)
  have "advances ops app x0 i (sys_with i log nd ts y) (sys_with i (be_log be1) ?nd (reply_to (Some (t, rep)) ts) y)"
    using request_runs[OF 1(1) Cons.prems(2-4)] Cons.prems(5) tr by simp
  moreover have "advances ops app x0 i (sys_with i (be_log be1) ?nd (reply_to (Some (t, rep)) ts) y)
    (sys_with i (be_log be') (with_engine be' (nd\<lparr>en_queue := []\<rparr>)) (replies_to (zip (map fst q) rest) (reply_to (Some (t, rep)) ts)) y)"
    using Cons.IH[of "be_log be1" ?nd rest "reply_to (Some (t, rep)) ts"] 1(2) Cons.prems(2,3) nd by simp
  ultimately show ?case using advances_trans 1(3) tr by fastforce
qed

text \<open>Submitting the requests.\<close>

definition submissions :: "nat \<Rightarrow> (nat \<times> apply_request) list \<Rightarrow> engine_event list" where
  "submissions i q = map (\<lambda>(t, req). Submit t i req) q"

fun waiting :: "nat \<Rightarrow> (nat \<times> apply_request) list \<Rightarrow> (nat \<rightharpoonup> ticket) \<Rightarrow> (nat \<rightharpoonup> ticket)" where
  "waiting i [] ts = ts"
| "waiting i ((t, req) # q) ts = waiting i q (ts(t \<mapsto> Waiting i req))"

lemma waiting_other: "t \<notin> set (map fst q) \<Longrightarrow> waiting i q ts t = ts t"
  by (induction i q ts rule: waiting.induct) auto

lemma waiting_all: "distinct (map fst q) \<Longrightarrow> \<forall>(t, req) \<in> set q. waiting i q ts t = Some (Waiting i req)"
  by (induction i q ts rule: waiting.induct) (auto simp: waiting_other)

lemma submits:
  assumes "i < length (es_nodes y)" "en_alive nd" "distinct (map fst q)" "\<forall>(t, req) \<in> set q. ts t = None"
    and "length (en_queue nd) + length q \<le> CHANNEL_CAPACITY"
  shows "engine_run ops app x0 (submissions i q) (sys_with i log nd ts y) =
    Some (sys_with i log (nd\<lparr>en_queue := en_queue nd @ q\<rparr>) (waiting i q ts) y)"
  using assms(2-)
proof (induction q arbitrary: nd ts)
  case Nil
  then show ?case by (simp add: submissions_def)
next
  case (Cons tr q)
  obtain t req where tr: "tr = (t, req)" by (cases tr)
  let ?nd = "nd\<lparr>en_queue := en_queue nd @ [(t, req)]\<rparr>" and ?ts = "ts(t \<mapsto> Waiting i req)"
  have "engine_exec ops app x0 (Submit t i req) (sys_with i log nd ts y) = Some (sys_with i log ?nd ?ts y)"
    using Cons.prems tr assms(1) by (simp add: Let_def) (simp add: sys_with_def)
  moreover have "engine_run ops app x0 (submissions i q) (sys_with i log ?nd ?ts y) =
      Some (sys_with i log (?nd\<lparr>en_queue := en_queue ?nd @ q\<rparr>) (waiting i q ?ts) y)"
    using Cons.prems tr by (intro Cons.IH) (auto simp: rev_image_eqI)
  ultimately show ?case by (simp add: submissions_def tr del: engine_exec.simps)
qed

lemma replies_answered:
  assumes "length reps = length q" "distinct (map fst q)" "\<forall>(t, req) \<in> set q. ts t = Some (Waiting i req)"
  shows "\<forall>j < length q. replies_to (zip (map fst q) reps) ts (fst (q ! j)) = Some (Answered i (snd (q ! j)) (reps ! j))"
    and "t \<notin> set (map fst q) \<Longrightarrow> replies_to (zip (map fst q) reps) ts t = ts t"
  using assms
proof (induction q arbitrary: reps ts t)
  case (Cons tr q)
  {
    case 1
    obtain u rq where tr: "tr = (u, rq)" by (cases tr)
    obtain r rs where r: "reps = r # rs" using 1 by (cases reps) auto
    have ts: "reply_to (Some (u, r)) ts = ts(u \<mapsto> Answered i rq r)" using 1 tr by (simp add: reply_to_def)
    have p: "length rs = length q" "distinct (map fst q)" "\<forall>(t, req) \<in> set q. (ts(u \<mapsto> Answered i rq r)) t = Some (Waiting i req)"
      "u \<notin> set (map fst q)"
      using 1 r tr by (auto simp: rev_image_eqI)
    have "replies_to (zip (map fst (tr # q)) reps) ts (fst ((tr # q) ! j)) = Some (Answered i (snd ((tr # q) ! j)) (reps ! j))"
      if "j < length (tr # q)" for j
      using that Cons.IH(1)[OF p(1-3)] Cons.IH(2)[OF _ p(1-3), of u] p(4) tr r ts by (cases j) (simp_all del: fun_upd_apply add: fun_upd_same)
    then show ?case by blast
  next
    case 2
    obtain u rq where tr: "tr = (u, rq)" by (cases tr)
    obtain r rs where r: "reps = r # rs" using 2 by (cases reps) auto
    have ts: "reply_to (Some (u, r)) ts = ts(u \<mapsto> Answered i rq r)" using 2 tr by (simp add: reply_to_def)
    have p: "length rs = length q" "distinct (map fst q)" "\<forall>(t, req) \<in> set q. (ts(u \<mapsto> Answered i rq r)) t = Some (Waiting i req)"
      using 2 r tr by (auto simp: rev_image_eqI)
    show ?case using Cons.IH(2)[OF _ p, of t] 2 tr r ts by (auto simp: fun_upd_other simp del: fun_upd_apply)
  }
qed simp_all


text \<open>The requests of one channel, from their submission to their answers.\<close>

lemma server_alone:
  fixes ops :: "'l loglet_ops" and app :: "'x applicator_fn"
  assumes "i < length (es_nodes y)" "nd = es_nodes y ! i" "en_alive nd" "en_job nd = None" "en_queue nd = []"
    and "distinct (map fst q)" "\<forall>(t, req) \<in> set q. es_tickets y t = None" "length q \<le> CHANNEL_CAPACITY"
    and "apply_loop ops app (map snd q) (engine_of (es_log y) nd) = Some (reps, be')"
  shows "\<exists>n y'. engine_run ops app x0 (submissions i q @ replicate n (Advance i)) y = Some y' \<and>
    es_log y' = be_log be' \<and> es_nodes y' = (es_nodes y)[i := with_engine be' nd] \<and>
    (\<forall>j < length q. es_tickets y' (fst (q ! j)) = Some (Answered i (snd (q ! j)) (reps ! j)))"
proof -
  let ?nd = "nd\<lparr>en_queue := q\<rparr>" and ?ts = "waiting i q (es_tickets y)"
  have s: "engine_run ops app x0 (submissions i q) y = Some (sys_with i (es_log y) ?nd ?ts y)"
    using submits[OF assms(1,3,6,7), of ops app x0 "es_log y"] assms(2,5,8) sys_with_same[OF assms(1)] by simp
  have "apply_loop ops app (map snd q) (engine_of (es_log y) ?nd) = Some (reps, be')"
    using assms(9) by (simp add: engine_of_def)
  moreover have "nd\<lparr>en_queue := []\<rparr> = nd" using assms(5) by (cases nd) simp
  ultimately obtain n where
    n: "engine_run ops app x0 (replicate n (Advance i)) (sys_with i (es_log y) ?nd ?ts y) =
      Some (sys_with i (be_log be') (with_engine be' nd) (replies_to (zip (map fst q) reps) ?ts) y)"
    using channel_runs[of ops app q "es_log y" ?nd reps be' i y x0 ?ts] assms(1,3,4) by (auto simp: advances_def)
  have "length reps = length q"
    using assms(9) apply_loop_length by fastforce
  note a = replies_answered(1)[OF this assms(6) waiting_all[OF assms(6)]]
  from s n have "engine_run ops app x0 (submissions i q @ replicate n (Advance i)) y =
      Some (sys_with i (be_log be') (with_engine be' nd) (replies_to (zip (map fst q) reps) ?ts) y)"
    by (simp add: engine_run_append)
  with a show ?thesis by (intro exI conjI) (auto simp: sys_with_def)
qed


section \<open>Properties\<close>

text \<open>C6. The interleaved steps of a server, run without interruption, are the apply loop as a function: when
  callers submit requests to an idle server and its loop runs on, every caller gets the reply that
  \<open>apply_loop\<close> gives, and log, store, cursor and applicator end as it leaves them. Errors are included,
  and the log and the applicator may be any.\<close>

theorem engine_steps_are_apply_loop:
  fixes ops :: "'l loglet_ops" and app :: "'x applicator_fn"
  assumes "i < length (es_nodes y)" and "nd = es_nodes y ! i" and "en_alive nd" and "en_job nd = None" and "en_queue nd = []"
    and "distinct (map fst q)" and "\<forall>(t, req) \<in> set q. es_tickets y t = None" and "length q \<le> CHANNEL_CAPACITY"
    and "apply_loop ops app (map snd q) (engine_of (es_log y) nd) = Some (reps, be')"
  shows "\<exists>n y'. engine_run ops app x0 (submissions i q @ replicate n (Advance i)) y = Some y' \<and>
    es_log y' = be_log be' \<and> es_nodes y' = (es_nodes y)[i := with_engine be' nd] \<and>
    (\<forall>j < length q. es_tickets y' (fst (q ! j)) = Some (Answered i (snd (q ! j)) (reps ! j)))"
  by (rule server_alone[OF assms])

definition echo_apply :: "unit applicator_fn" where
  "echo_apply en pos txn x = (Inr (Data (payload en)), txn, x)"

lemma echo_loop:
  "map_option fst (apply_loop memory_ops echo_apply [Propose (entry_new [7]), Sync]
     (engine_of memory_loglet_new (es_nodes (engine_start memory_loglet_new () 2) ! 1))) =
   Some [Proposed (Inr (Data [7])), Synced (Inr 2)]"
  by code_simp

theorem engine_steps_are_apply_loop_witness:
  "\<exists>n y'. engine_run memory_ops echo_apply () (submissions 1 [(4, Propose (entry_new [7])), (5, Sync)] @ replicate n (Advance 1))
     (engine_start memory_loglet_new () 2) = Some y' \<and>
     es_tickets y' 4 = Some (Answered 1 (Propose (entry_new [7])) (Proposed (Inr (Data [7])))) \<and>
     es_tickets y' 5 = Some (Answered 1 Sync (Synced (Inr 2)))"
proof -
  let ?q = "[(4, Propose (entry_new [7])), (5, Sync)] :: (nat \<times> apply_request) list" and ?y = "engine_start memory_loglet_new () 2"
  obtain be' where l: "apply_loop memory_ops echo_apply (map snd ?q) (engine_of (es_log ?y) (es_nodes ?y ! 1)) =
      Some ([Proposed (Inr (Data [7])), Synced (Inr 2)], be')"
    using echo_loop by (auto simp: engine_start_def)
  have "1 < length (es_nodes ?y)" "en_alive (es_nodes ?y ! 1)" "en_job (es_nodes ?y ! 1) = None" "en_queue (es_nodes ?y ! 1) = []"
    "distinct (map fst ?q)" "\<forall>(t, req) \<in> set ?q. es_tickets ?y t = None" "length ?q \<le> CHANNEL_CAPACITY"
    by (simp_all add: engine_start_def CHANNEL_CAPACITY_def)
  from engine_steps_are_apply_loop[OF this(1) refl this(2-7) l, of "()"] obtain n y' where
    "engine_run memory_ops echo_apply () (submissions 1 ?q @ replicate n (Advance 1)) ?y = Some y'"
    "\<forall>j < length ?q. es_tickets y' (fst (?q ! j)) = Some (Answered 1 (snd (?q ! j)) ([Proposed (Inr (Data [7])), Synced (Inr 2)] ! j))"
    by blast
  from this(1) this(2)[rule_format, of 0] this(2)[rule_format, of 1] show ?thesis by auto
qed

end
