(* ===== verification/View_Trim.thy ===== *)
theory View_Trim
  imports Engine_Concurrent View_Tracking Memory_Loglet Sample_Codec
begin

text \<open>
  What becomes of a server whose next entry is trimmed away, and how trimming the log at the prefix that
  the view-tracking layer computes brings that about.
\<close>

section \<open>A server behind the trimmed prefix\<close>

fun ticket_node :: "ticket \<Rightarrow> nat" where
  "ticket_node (Waiting i req) = i"
| "ticket_node (Answered i req r) = i"

text \<open>Every request in the channel of a server, or being worked on there, was submitted there.\<close>

definition channels_own :: "('l, 'x) engine_sys \<Rightarrow> bool" where
  "channels_own y \<longleftrightarrow> (\<forall>i < length (es_nodes y). \<forall>t \<in> set (queued (es_nodes y ! i)). \<exists>k. es_tickets y t = Some k \<and> ticket_node k = i)"

fun failed_reply :: "apply_reply \<Rightarrow> bool" where
  "failed_reply (Proposed r) \<longleftrightarrow> isl r"
| "failed_reply (Synced r) \<longleftrightarrow> isl r"

fun job_beyond :: "LogPos \<Rightarrow> job \<Rightarrow> bool" where
  "job_beyond p (ProposeJob t target ret) \<longleftrightarrow> p \<le> target"
| "job_beyond p (SyncJob t tail) \<longleftrightarrow> p < tail"

definition stranded :: "nat \<Rightarrow> LogPos \<Rightarrow> (nat \<rightharpoonup> ticket) \<Rightarrow> (memory_loglet, 'x) engine_sys \<Rightarrow> bool" where
  "stranded i p ts0 y \<longleftrightarrow> channels_own y \<and> i < length (es_nodes y) \<and>
     en_cursor (es_nodes y ! i) = p \<and> read_cursor (en_store (es_nodes y ! i)) = Inr p \<and>
     p < ml_trim_pos (es_log y) \<and> unat p \<le> length (ml_entries (es_log y)) \<and>
     (\<forall>j. en_job (es_nodes y ! i) = Some j \<longrightarrow> job_beyond p j) \<and>
     (\<forall>t req r. es_tickets y t = Some (Answered i req r) \<longrightarrow> ts0 t = Some (Answered i req r) \<or> failed_reply r)"

lemma queued_simps [simp]:
  "queued (nd\<lparr>en_store := s\<rparr>) = queued nd" "queued (nd\<lparr>en_app := x\<rparr>) = queued nd" "queued (nd\<lparr>en_cursor := p\<rparr>) = queued nd"
  by (simp_all add: queued_def)

lemma job_step_queued:
  "job_step ops app log j nd = (r, nd') \<Longrightarrow> en_job nd = Some j \<Longrightarrow>
     set (queued nd') \<subseteq> set (queued nd) \<and> (\<forall>t rep. r = Some (t, rep) \<longrightarrow> t = job_client j)"
  by (cases j) (auto simp: queued_def split: if_splits prod.splits sum.splits)

lemma node_step_queued:
  assumes "node_step ops app log nd = Some (r, log', nd')"
  shows "set (queued nd') \<subseteq> set (queued nd) \<and> (\<forall>t rep. r = Some (t, rep) \<longrightarrow> t \<in> set (queued nd))"
proof (cases "en_job nd")
  case (Some j)
  then have "job_step ops app log j nd = (r, nd')" using assms by (auto simp: node_step_def split: prod.splits)
  from job_step_queued[OF this Some] Some show ?thesis by (auto simp: queued_def)
next
  case None
  then show ?thesis
  proof (cases "en_queue nd")
    case (Cons tr q)
    then show ?thesis using None assms
      by (cases tr; cases "snd tr"; force simp: node_step_def queued_def split: option.splits sum.splits)
  qed (use None assms in \<open>auto simp: node_step_def\<close>)
qed

lemma reply_to_node: "reply_to r ts t = Some k \<Longrightarrow> \<exists>k0. ts t = Some k0 \<and> ticket_node k0 = ticket_node k"
  by (auto simp: reply_to_def split: option.splits prod.splits ticket.splits if_splits)

text \<open>A ticket stays at the server where it was handed in.\<close>

lemma exec_ticket_node:
  assumes "engine_exec ops app x0 ev y = Some y'" "es_tickets y t = Some k"
  shows "\<exists>k'. es_tickets y' t = Some k' \<and> ticket_node k' = ticket_node k"
  using assms
  by (cases ev; cases k) (auto simp: Let_def drop_replies_def reply_to_def split: if_splits option.splits prod.splits sum.splits ticket.splits)

text \<open>A step of the system adds to a channel only the ticket of a submission.\<close>

lemma exec_queued:
  assumes "engine_exec ops app x0 ev y = Some y'"
  shows "length (es_nodes y') = length (es_nodes y) \<and>
    (\<forall>i < length (es_nodes y). \<forall>t \<in> set (queued (es_nodes y' ! i)).
       t \<in> set (queued (es_nodes y ! i)) \<or> (\<exists>req. es_tickets y' t = Some (Waiting i req)))"
proof (cases ev)
  case (Advance i)
  show ?thesis
  proof (cases "i < length (es_nodes y) \<and> en_alive (es_nodes y ! i)")
    case True
    then obtain r log' nd' where n: "node_step ops app (es_log y) (es_nodes y ! i) = Some (r, log', nd')"
      "es_nodes y' = (es_nodes y)[i := nd']" using assms Advance by (auto split: option.splits)
    from node_step_queued[OF n(1)] n(2) True show ?thesis by (auto simp: nth_list_update split: if_splits)
  qed (use assms Advance in auto)
qed (use assms in \<open>auto simp: queued_def nth_list_update Let_def split: if_splits sum.splits prod.splits\<close>)

lemma exec_channels_own:
  assumes "channels_own y" "engine_exec ops app x0 ev y = Some y'"
  shows "channels_own y'"
  unfolding channels_own_def
proof (intro allI impI ballI)
  fix i t assume i: "i < length (es_nodes y')" "t \<in> set (queued (es_nodes y' ! i))"
  then have "t \<in> set (queued (es_nodes y ! i)) \<or> (\<exists>req. es_tickets y' t = Some (Waiting i req))" "i < length (es_nodes y)"
    using exec_queued[OF assms(2)] by auto
  then show "\<exists>k. es_tickets y' t = Some k \<and> ticket_node k = i"
    using assms(1) exec_ticket_node[OF assms(2)] unfolding channels_own_def by fastforce
qed

lemma run_channels_own:
  "channels_own y \<Longrightarrow> engine_run ops app x0 evs y = Some y' \<Longrightarrow> channels_own y'"
  by (induction evs arbitrary: y) (auto split: option.splits dest: exec_channels_own)

lemma start_channels_own: "channels_own (engine_start log x0 n)"
  by (simp add: channels_own_def engine_start_def queued_def)

lemma stranded_read: "stranded i p ts0 y \<Longrightarrow> ml_read p (es_log y) = Inl (Trimmed p)"
  by (simp add: stranded_def ml_read_def)

text \<open>A round of the loop of the stranded server answers with an error and moves nothing.\<close>

lemma stranded_job:
  assumes "stranded i p ts0 y" "en_job (es_nodes y ! i) = Some j"
  shows "job_step memory_ops app (es_log y) j (es_nodes y ! i) =
    (Some (job_client j, (case j of ProposeJob _ _ _ \<Rightarrow> Proposed (Inl (Trimmed p)) | SyncJob _ _ \<Rightarrow> Synced (Inl (Trimmed p)))),
     (es_nodes y ! i)\<lparr>en_job := None\<rparr>)"
  using assms stranded_read[OF assms(1)] by (cases j) (auto simp: stranded_def apply_one_def)

text \<open>A new request of the stranded server lies beyond what it can reach.\<close>

lemma stranded_take:
  assumes "stranded i p ts0 y" "length (ml_entries (es_log y)) + 1 < 2 ^ 64"
    and "take_request memory_ops (es_log y) t req nd = Some (r, log', nd')"
  shows "(\<forall>j. en_job nd' = Some j \<longrightarrow> en_job nd = Some j \<or> job_beyond p j) \<and> (\<forall>u rep. r = Some (u, rep) \<longrightarrow> failed_reply rep) \<and>
    en_cursor nd' = en_cursor nd \<and> en_store nd' = en_store nd"
proof -
  have "unat p \<le> length (ml_entries (es_log y))" using assms(1) by (simp add: stranded_def)
  then have "p < ml_tail (es_log y)"
    using assms(2) by (simp add: ml_tail_def LOG_POS_BEGIN_def word_less_nat_alt unat_of_nat_pos flip: of_nat_Suc add.commute[of 1])
  then show ?thesis
    using assms(3) by (cases req) (auto simp: ml_append_def ml_check_tail_def Let_def split: if_splits)
qed

lemma exec_log:
  assumes "engine_exec memory_ops app x0 ev y = Some y'"
  shows "ml_trim_pos (es_log y) \<le> ml_trim_pos (es_log y') \<and> length (ml_entries (es_log y)) \<le> length (ml_entries (es_log y')) \<and>
    length (ml_entries (es_log y')) \<le> Suc (length (ml_entries (es_log y)))"
proof (cases ev)
  case (Advance i)
  have take: "ml_trim_pos l' = ml_trim_pos l \<and> length (ml_entries l) \<le> length (ml_entries l') \<and> length (ml_entries l') \<le> Suc (length (ml_entries l))"
    if "take_request memory_ops l t req nd = Some (r, l', nd')" for l l' t req r and nd nd' :: "'a engine_node"
    using that by (cases req) (auto simp: ml_append_def Let_def split: if_splits sum.splits)
  show ?thesis
    using assms Advance by (auto simp: node_step_def split: if_splits option.splits prod.splits list.splits dest: take)
qed (use assms in \<open>auto simp: Let_def ml_seal_def ml_trim_def split: if_splits sum.splits\<close>)

text \<open>What one step does to the stranded server itself.\<close>

lemma stranded_node:
  assumes "stranded i p ts0 y" "length (ml_entries (es_log y)) + 1 < 2 ^ 64"
    and "node_step memory_ops app (es_log y) (es_nodes y ! i) = Some (r, log', nd')"
  shows "(\<forall>j. en_job nd' = Some j \<longrightarrow> job_beyond p j) \<and> (\<forall>u rep. r = Some (u, rep) \<longrightarrow> failed_reply rep) \<and>
    en_cursor nd' = p \<and> read_cursor (en_store nd') = Inr p"
proof -
  let ?nd = "es_nodes y ! i"
  have nd: "en_cursor ?nd = p" "read_cursor (en_store ?nd) = Inr p" using assms(1) by (simp_all add: stranded_def)
  show ?thesis
  proof (cases "en_job ?nd")
    case (Some j)
    then have "r = Some (job_client j, case j of ProposeJob _ _ _ \<Rightarrow> Proposed (Inl (Trimmed p)) | SyncJob _ _ \<Rightarrow> Synced (Inl (Trimmed p)))"
      "nd' = ?nd\<lparr>en_job := None\<rparr>"
      using assms(3) stranded_job[OF assms(1) Some, of app] by (simp_all add: node_step_def)
    with nd show ?thesis by (cases j) simp_all
  next
    case None
    show ?thesis
    proof (cases "en_queue ?nd")
      case (Cons tr q)
      then have "take_request memory_ops (es_log y) (fst tr) (snd tr) (?nd\<lparr>en_queue := q\<rparr>) = Some (r, log', nd')"
        using assms(3) None by (cases tr) (simp add: node_step_def)
      from stranded_take[OF assms(1,2) this] None nd show ?thesis by simp
    qed (use None assms(3) nd in \<open>simp add: node_step_def\<close>)
  qed
qed

lemma exec_stranded_node:
  assumes "stranded i p ts0 y" "length (ml_entries (es_log y)) + 1 < 2 ^ 64" "engine_exec memory_ops app x0 ev y = Some y'"
  shows "en_cursor (es_nodes y' ! i) = p \<and> read_cursor (en_store (es_nodes y' ! i)) = Inr p \<and>
    (\<forall>j. en_job (es_nodes y' ! i) = Some j \<longrightarrow> job_beyond p j)"
proof -
  have nd: "i < length (es_nodes y)" "en_cursor (es_nodes y ! i) = p" "read_cursor (en_store (es_nodes y ! i)) = Inr p"
    "\<forall>j. en_job (es_nodes y ! i) = Some j \<longrightarrow> job_beyond p j" using assms(1) by (simp_all add: stranded_def)
  show ?thesis
  proof (cases ev)
    case (Advance k)
    show ?thesis
    proof (cases "k = i \<and> en_alive (es_nodes y ! i)")
      case True
      then obtain r log' nd' where "node_step memory_ops app (es_log y) (es_nodes y ! i) = Some (r, log', nd')"
        "es_nodes y' = (es_nodes y)[i := nd']" using assms(3) Advance nd(1) by (auto split: option.splits)
      with stranded_node[OF assms(1,2) this(1)] nd(1) show ?thesis by simp
    qed (use assms(3) Advance nd in \<open>auto simp: nth_list_update split: if_splits option.splits\<close>)
  qed (use assms(3) nd in \<open>auto simp: Let_def nth_list_update engine_new_def split: if_splits sum.splits prod.splits\<close>)
qed

lemma exec_stranded_replies:
  assumes "stranded i p ts0 y" "length (ml_entries (es_log y)) + 1 < 2 ^ 64" "engine_exec memory_ops app x0 ev y = Some y'"
    and "es_tickets y' t = Some (Answered i req r)" "es_tickets y t \<noteq> Some (Answered i req r)"
  shows "failed_reply r"
proof (cases ev)
  case (Submit u k rq)
  then show ?thesis using assms(3-5) by (cases rq) (auto simp: Let_def split: if_splits)
next
  case (Advance k)
  then obtain rp log' nd' where n: "node_step memory_ops app (es_log y) (es_nodes y ! k) = Some (rp, log', nd')"
    "k < length (es_nodes y)" "es_tickets y' = reply_to rp (es_tickets y)"
    using assms(3-5) by (auto split: option.splits if_splits)
  then have rp: "rp = Some (t, r)" "es_tickets y t = Some (Waiting i req)"
    using assms(4,5) by (auto simp: reply_to_def split: option.splits ticket.splits if_splits prod.splits)
  then have "t \<in> set (queued (es_nodes y ! k))" using node_step_queued[OF n(1)] by blast
  moreover have "channels_own y" using assms(1) by (simp add: stranded_def)
  ultimately have "k = i" using rp(2) n(2) by (fastforce simp: channels_own_def)
  with stranded_node[OF assms(1,2)] n(1) rp(1) show ?thesis by blast
next
  case (Kill k)
  then show ?thesis using assms(3-5) by (cases req) (auto simp: drop_replies_def split: if_splits option.splits ticket.splits)
qed (use assms(3-5) in \<open>auto split: if_splits prod.splits sum.splits\<close>)

lemma exec_stranded:
  assumes "stranded i p ts0 y" "length (ml_entries (es_log y)) + 1 < 2 ^ 64" "engine_exec memory_ops app x0 ev y = Some y'"
  shows "stranded i p ts0 y'"
proof -
  have "failed_reply r \<or> ts0 t = Some (Answered i req r)" if "es_tickets y' t = Some (Answered i req r)" for t req r
    using exec_stranded_replies[OF assms that] assms(1) unfolding stranded_def by blast
  with exec_stranded_node[OF assms] exec_log[OF assms(3)] exec_queued[OF assms(3)] exec_channels_own[OF _ assms(3)] assms(1)
  show ?thesis unfolding stranded_def by (smt (verit, best) le_trans order_less_le_trans)
qed

lemma run_stranded:
  assumes "stranded i p ts0 y" "length (ml_entries (es_log y)) + length evs + 1 < 2 ^ 64" "engine_run memory_ops app x0 evs y = Some y'"
  shows "stranded i p ts0 y'"
  using assms
proof (induction evs arbitrary: y)
  case (Cons ev evs)
  then obtain y1 where y1: "engine_exec memory_ops app x0 ev y = Some y1" "engine_run memory_ops app x0 evs y1 = Some y'"
    by (auto split: option.splits)
  have "stranded i p ts0 y1" using exec_stranded[OF Cons.prems(1) _ y1(1)] Cons.prems(2) by simp
  with Cons.IH[OF this _ y1(2)] exec_log[OF y1(1)] Cons.prems(2) show ?case by simp
qed simp

section \<open>The race\<close>

text \<open>The proposal of a server, as \<open>view_propose\<close> hands it to the base engine.\<close>

definition tracked :: "ServerId \<Rightarrow> LogPos \<Rightarrow> byte list \<Rightarrow> entry" where
  "tracked server_id cursor pl =
     (case encode sample_view_codec \<lparr>vt_server_id = server_id, vt_cursor = cursor\<rparr> of
        Inl err \<Rightarrow> entry_new pl
      | Inr header_bytes \<Rightarrow> with_header (entry_new pl) VIEW_TRACKING_HEADER header_bytes)"

definition payload_apply :: "view_state applicator_fn" where
  "payload_apply en pos txn x = (Inr (Data (payload en)), txn, x)"

abbreviation "tracked_apply \<equiv> view_apply sample_view_codec (\<lambda>_. False) payload_apply"

text \<open>Server 1 proposes and is answered; server 0 proposes and its loop has appended the entry but not
  yet applied anything; server 1 proposes again and is answered.\<close>

definition race :: "engine_event list" where
  "race = [Submit 0 1 (Propose (tracked 11 0 [1])), Advance 1, Advance 1, Advance 1,
     Submit 1 0 (Propose (tracked 10 0 [2])), Advance 0,
     Submit 2 1 (Propose (tracked 11 1 [3])), Advance 1, Advance 1, Advance 1, Advance 1]"

definition race_start :: "(memory_loglet, view_state) engine_sys" where
  "race_start = engine_start memory_loglet_new \<lparr>views = bt_empty\<rparr> 2"

definition trimmed_at :: "LogPos \<Rightarrow> (memory_loglet, 'x) engine_sys \<Rightarrow> (memory_loglet, 'x) engine_sys" where
  "trimmed_at pos y = y\<lparr>es_log := snd (ml_trim pos (es_log y))\<rparr>"

lemma race_outcome:
  "map_option (\<lambda>y. (trim_prefix (views (en_app (es_nodes y ! 1))), map (es_tickets y) [0, 1, 2], en_cursor (es_nodes y ! 0),
       read_cursor (en_store (es_nodes y ! 0)), en_job (es_nodes y ! 0), length (es_nodes y)))
     (engine_run memory_ops tracked_apply \<lparr>views = bt_empty\<rparr> race race_start) =
   Some (Some 2, [Some (Answered 1 (Propose (tracked 11 0 [1])) (Proposed (Inr (Data [1])))),
     Some (Waiting 0 (Propose (tracked 10 0 [2]))), Some (Answered 1 (Propose (tracked 11 1 [3])) (Proposed (Inr (Data [3]))))], 1, Inr 1, Some (ProposeJob 1 2 Success), 2)"
  by code_simp

lemma race_log:
  "map_option (\<lambda>y. (length (ml_entries (es_log y)), ml_trim_pos (snd (ml_trim 2 (es_log y))),
     length (ml_entries (snd (ml_trim 2 (es_log y))))))
     (engine_run memory_ops tracked_apply \<lparr>views = bt_empty\<rparr> race race_start) = Some (3, 2, 3)"
  by code_simp

lemma race_witness:
  "map_option (\<lambda>y'. es_tickets y' 1) (Option.bind (engine_run memory_ops tracked_apply \<lparr>views = bt_empty\<rparr> race race_start)
     (\<lambda>y. engine_run memory_ops tracked_apply \<lparr>views = bt_empty\<rparr> [Advance 0] (trimmed_at 2 y))) =
   Some (Some (Answered 0 (Propose (tracked 10 0 [2])) (Proposed (Inl (Trimmed 1)))))"
  by code_simp

lemma race_stranded:
  "\<exists>y. engine_run memory_ops tracked_apply \<lparr>views = bt_empty\<rparr> race race_start = Some y \<and>
     trim_prefix (views (en_app (es_nodes y ! 1))) = Some 2 \<and> (\<forall>t req r. es_tickets y t \<noteq> Some (Answered 0 req r)) \<and>
     length (ml_entries (es_log (trimmed_at 2 y))) = 3 \<and> stranded 0 1 (es_tickets y) (trimmed_at 2 y)"
proof -
  obtain y where y: "engine_run memory_ops tracked_apply \<lparr>views = bt_empty\<rparr> race race_start = Some y"
    "trim_prefix (views (en_app (es_nodes y ! 1))) = Some 2" "es_tickets y 0 = Some (Answered 1 (Propose (tracked 11 0 [1])) (Proposed (Inr (Data [1]))))"
    "es_tickets y 1 = Some (Waiting 0 (Propose (tracked 10 0 [2])))" "es_tickets y 2 = Some (Answered 1 (Propose (tracked 11 1 [3])) (Proposed (Inr (Data [3]))))"
    "en_cursor (es_nodes y ! 0) = 1" "read_cursor (en_store (es_nodes y ! 0)) = Inr 1" "en_job (es_nodes y ! 0) = Some (ProposeJob 1 2 Success)"
    "length (es_nodes y) = 2"
    using race_outcome by auto
  have l: "ml_trim_pos (snd (ml_trim 2 (es_log y))) = 2" "length (ml_entries (snd (ml_trim 2 (es_log y)))) = 3"
    using race_log y(1) by auto
  have own: "channels_own y" using run_channels_own[OF start_channels_own y(1)[unfolded race_start_def]] .
  have "t \<in> {0, 1, 2}" if "es_tickets y t = Some k" for t k
    using run_asked[OF y(1) that] by (auto simp: race_start_def engine_start_def race_def)
  then have none: "es_tickets y t \<noteq> Some (Answered 0 req r)" for t req r using y(3-5) by fastforce
  have "stranded 0 1 (es_tickets y) (trimmed_at 2 y)"
    using own l y(6-9) by (simp add: stranded_def trimmed_at_def channels_own_def word_less_nat_alt word_le_nat_alt)
  with y(1,2) none l(2) show ?thesis by (intro exI[of _ y]) (simp add: trimmed_at_def)
qed

section \<open>Properties\<close>

text \<open>C34. Trimming at the prefix of the view-tracking layer strands a server. Server 0 has appended a proposal
  behind an entry it has not applied; when server 1 has applied both, its view of server 0 is the
  position of that proposal, and \<open>trim_prefix\<close> is beyond the cursor of server 0. Once the log is trimmed
  there, server 0 stays where it is for ever, and everybody who waits or asks there, before or after
  restarts, is answered with an error.\<close>

theorem trim_prefix_strands_server:
  "\<exists>y p. engine_run memory_ops tracked_apply \<lparr>views = bt_empty\<rparr> race race_start = Some y \<and>
     trim_prefix (views (en_app (es_nodes y ! 1))) = Some p \<and>
     (\<forall>evs y'. length evs < 2 ^ 64 - 4 \<longrightarrow> engine_run memory_ops tracked_apply \<lparr>views = bt_empty\<rparr> evs (trimmed_at p y) = Some y' \<longrightarrow>
        en_cursor (es_nodes y' ! 0) = 1 \<and> (\<forall>t req r. es_tickets y' t = Some (Answered 0 req r) \<longrightarrow> failed_reply r))"
proof -
  obtain y where y: "engine_run memory_ops tracked_apply \<lparr>views = bt_empty\<rparr> race race_start = Some y"
    "trim_prefix (views (en_app (es_nodes y ! 1))) = Some 2" "\<And>t req r. es_tickets y t \<noteq> Some (Answered 0 req r)"
    "length (ml_entries (es_log (trimmed_at 2 y))) = 3" "stranded 0 1 (es_tickets y) (trimmed_at 2 y)"
    using race_stranded by blast
  have "stranded 0 1 (es_tickets y) y'"
    if "length evs < 2 ^ 64 - 4" "engine_run memory_ops tracked_apply \<lparr>views = bt_empty\<rparr> evs (trimmed_at 2 y) = Some y'" for evs y'
    using run_stranded[OF y(5) _ that(2)] that(1) y(4) by simp
  with y(1,2,3) show ?thesis unfolding stranded_def by blast
qed

theorem trim_prefix_strands_server_witness:
  "\<exists>y y' r. engine_run memory_ops tracked_apply \<lparr>views = bt_empty\<rparr> race race_start = Some y \<and>
     engine_run memory_ops tracked_apply \<lparr>views = bt_empty\<rparr> [Advance 0] (trimmed_at 2 y) = Some y' \<and>
     es_tickets y' 1 = Some (Answered 0 (Propose (tracked 10 0 [2])) r) \<and> failed_reply r \<and> en_cursor (es_nodes y' ! 0) = 1"
proof -
  obtain y p where y: "engine_run memory_ops tracked_apply \<lparr>views = bt_empty\<rparr> race race_start = Some y"
    "trim_prefix (views (en_app (es_nodes y ! 1))) = Some p"
    "\<forall>evs y'. length evs < 2 ^ 64 - 4 \<longrightarrow> engine_run memory_ops tracked_apply \<lparr>views = bt_empty\<rparr> evs (trimmed_at p y) = Some y' \<longrightarrow>
        en_cursor (es_nodes y' ! 0) = 1 \<and> (\<forall>t req r. es_tickets y' t = Some (Answered 0 req r) \<longrightarrow> failed_reply r)"
    using trim_prefix_strands_server by blast
  have o: "p = 2" "es_tickets y 1 = Some (Waiting 0 (Propose (tracked 10 0 [2])))" "en_job (es_nodes y ! 0) = Some (ProposeJob 1 2 Success)"
    using race_outcome y(1,2) by auto
  obtain y' where y': "engine_run memory_ops tracked_apply \<lparr>views = bt_empty\<rparr> [Advance 0] (trimmed_at 2 y) = Some y'"
    "\<exists>r. es_tickets y' 1 = Some (Answered 0 (Propose (tracked 10 0 [2])) r)"
    using race_witness y(1) by auto
  with y(1) y(3)[rule_format, of "[Advance 0]" y'] o(1) show ?thesis by fastforce
qed

end
