(* ===== verification/Test_Kit.thy ===== *)
theory Test_Kit
  imports Memory_Virtual_Log Base_Engine "HOL-Library.Monad_Syntax"
begin

text \<open>
  What the unit tests of the crates share. A test is a computation in the option monad that gives
  \<open>None\<close> when it would panic: at an \<open>assert!\<close> that does not hold, or at an \<open>unwrap\<close> of an error or of
  nothing. A test passes when it is \<open>Some ()\<close>.
\<close>

named_theorems test_passes

definition assert :: "bool \<Rightarrow> unit option" where
  "assert b = (if b then Some () else None)"

fun unwrap :: "'e + 'a \<Rightarrow> 'a option" where
  "unwrap (Inl err) = None"
| "unwrap (Inr x) = Some x"

text \<open>\<open>assert!(matches!(r, Err(Sealed(p))))\<close> and its like compare the whole result.\<close>

fun is_err :: "'a result \<Rightarrow> relos_error \<Rightarrow> bool" where
  "is_err (Inl err) err' = (err = err')"
| "is_err (Inr x) err' = False"

definition expect_append :: "'l loglet_ops \<Rightarrow> entry \<Rightarrow> 'l \<Rightarrow> (LogPos \<times> 'l) option" where
  "expect_append ops e l = do { (r, l') \<leftarrow> lg_append ops e l; p \<leftarrow> unwrap r; Some (p, l') }"

definition expect_read :: "'l loglet_ops \<Rightarrow> LogPos \<Rightarrow> 'l \<Rightarrow> entry option" where
  "expect_read ops p l = do { r \<leftarrow> unwrap (lg_read ops p l); r }"

definition expect_seal :: "'l loglet_ops \<Rightarrow> 'l \<Rightarrow> (LogPos \<times> 'l) option" where
  "expect_seal ops l = (case lg_seal ops l of (r, l') \<Rightarrow> do { p \<leftarrow> unwrap r; Some (p, l') })"

definition expect_trim :: "'l loglet_ops \<Rightarrow> LogPos \<Rightarrow> 'l \<Rightarrow> 'l option" where
  "expect_trim ops p l = (case lg_trim ops p l of (r, l') \<Rightarrow> do { unwrap r; Some l' })"

definition assert_reads :: "'l loglet_ops \<Rightarrow> LogPos \<Rightarrow> string \<Rightarrow> 'l \<Rightarrow> unit option" where
  "assert_reads ops p s l = do { e \<leftarrow> expect_read ops p l; assert (payload e = into_bytes s) }"

definition text_entry :: "string \<Rightarrow> entry" where
  "text_entry s = entry_new (into_bytes s)"

text \<open>Calls on a store, with string literals for the byte strings of the tests.\<close>

definition expect_put :: "string \<Rightarrow> string \<Rightarrow> memory_write_tx \<Rightarrow> memory_write_tx option" where
  "expect_put k v txn = (case put (into_bytes k) (into_bytes v) txn of (r, txn') \<Rightarrow> do { unwrap r; Some txn' })"

definition expect_delete :: "string \<Rightarrow> memory_write_tx \<Rightarrow> memory_write_tx option" where
  "expect_delete k txn = (case delete (into_bytes k) txn of (r, txn') \<Rightarrow> do { unwrap r; Some txn' })"

definition expect_commit :: "memory_write_tx \<Rightarrow> memory_store \<Rightarrow> memory_store option" where
  "expect_commit txn s = (case commit txn s of (r, txn', s') \<Rightarrow> do { unwrap r; Some s' })"

definition expect_rollback :: "memory_write_tx \<Rightarrow> unit option" where
  "expect_rollback txn = unwrap (fst (rollback txn))"

definition assert_get :: "memory_read_tx \<Rightarrow> string \<Rightarrow> string option \<Rightarrow> unit option" where
  "assert_get txn k v = do { r \<leftarrow> unwrap (read_get txn (into_bytes k)); assert (r = map_option into_bytes v) }"

text \<open>The in-memory virtual log that the tests of several modules build.\<close>

definition make_virtual_log :: "memory_loglet virtual_log option" where
  "make_virtual_log = unwrap (vl_new memory_factory (meta_new (chain_new ''loglet-0'')))"

text \<open>What \<open>cargo test\<close> reports of a list of tests.\<close>

definition passes :: "unit option list \<Rightarrow> bool" where
  "passes ts = list_all (\<lambda>t. t = Some ()) ts"

lemma passes_append [simp]: "passes (ts @ us) \<longleftrightarrow> passes ts \<and> passes us"
  by (simp add: passes_def)

lemma passes_simps [simp]: "passes []" "passes (t # ts) \<longleftrightarrow> t = Some () \<and> passes ts"
  by (simp_all add: passes_def)

end
