(* ===== verification/Log_Tests.thy ===== *)
theory Log_Tests
  imports Test_Kit Native_Virtual_Log
begin

text \<open>
  The unit tests of \<open>relos-log\<close>, one definition for each test function, run on the model.
\<close>

section \<open>chain.rs\<close>

definition chain_test_new_chain :: "unit option" where
  "chain_test_new_chain = (let chain = chain_new ''loglet-0'' in do {
     assert (length (segments chain) = 1);
     assert (loglet_id (segments chain ! 0) = ''loglet-0'');
     assert (start_pos (segments chain ! 0) = LOG_POS_BEGIN);
     assert (end_pos (segments chain ! 0) = None) })"

definition chain_test_active_segment :: "unit option" where
  "chain_test_active_segment = (let chain = chain_new ''loglet-0'' in do {
     active \<leftarrow> active_segment chain;
     assert (loglet_id active = ''loglet-0'') })"

definition chain_test_find_segment_single :: "unit option" where
  "chain_test_find_segment_single = (let chain = chain_new ''loglet-0'' in do {
     seg \<leftarrow> find_segment chain 1;
     assert (loglet_id seg = ''loglet-0'');
     seg' \<leftarrow> find_segment chain 100;
     assert (loglet_id seg' = ''loglet-0'') })"

definition chain_test_extend :: "unit option" where
  "chain_test_extend = (let chain = chain_extend 5 ''loglet-1'' (chain_new ''loglet-0'') in do {
     assert (length (segments chain) = 2);
     assert (end_pos (segments chain ! 0) = Some 5);
     assert (start_pos (segments chain ! 1) = 5);
     assert (end_pos (segments chain ! 1) = None) })"

definition assert_found :: "log_chain \<Rightarrow> LogPos \<Rightarrow> string \<Rightarrow> unit option" where
  "assert_found chain pos i = do { seg \<leftarrow> find_segment chain pos; assert (loglet_id seg = i) }"

definition chain_test_find_segment_after_extend :: "unit option" where
  "chain_test_find_segment_after_extend = (let chain = chain_extend 5 ''loglet-1'' (chain_new ''loglet-0'') in do {
     assert_found chain 1 ''loglet-0''; assert_found chain 4 ''loglet-0'';
     assert_found chain 5 ''loglet-1''; assert_found chain 100 ''loglet-1'' })"

definition chain_test_active_segment_after_extend :: "unit option" where
  "chain_test_active_segment_after_extend = (let chain = chain_extend 5 ''loglet-1'' (chain_new ''loglet-0'') in do {
     active \<leftarrow> active_segment chain;
     assert (loglet_id active = ''loglet-1'') })"

definition chain_test_multiple_extends :: "unit option" where
  "chain_test_multiple_extends =
     (let chain = chain_extend 10 ''loglet-2'' (chain_extend 5 ''loglet-1'' (chain_new ''loglet-0'')) in do {
     assert (length (segments chain) = 3);
     assert_found chain 3 ''loglet-0''; assert_found chain 7 ''loglet-1''; assert_found chain 15 ''loglet-2'' })"

section \<open>metastore.rs\<close>

definition metastore_test_read_initial :: "unit option" where
  "metastore_test_read_initial = (let store = meta_new (chain_new ''loglet-0'') in do {
     (chain, version) \<leftarrow> unwrap (meta_read store);
     assert (version = 0);
     assert (length (segments chain) = 1);
     assert (loglet_id (segments chain ! 0) = ''loglet-0'') })"

definition expect_write :: "log_chain \<Rightarrow> u64 \<Rightarrow> memory_meta_store \<Rightarrow> (bool \<times> memory_meta_store) option" where
  "expect_write chain version store =
     (case meta_write chain version store of (r, store') \<Rightarrow> do { success \<leftarrow> unwrap r; Some (success, store') })"

definition metastore_test_write_success :: "unit option" where
  "metastore_test_write_success = (let store = meta_new (chain_new ''loglet-0'') in do {
     (success, store') \<leftarrow> expect_write (chain_extend 5 ''loglet-1'' (chain_new ''loglet-0'')) 0 store;
     assert success;
     (chain, version) \<leftarrow> unwrap (meta_read store');
     assert (version = 1);
     assert (length (segments chain) = 2) })"

definition metastore_test_write_cas_failure :: "unit option" where
  "metastore_test_write_cas_failure = (let store = meta_new (chain_new ''loglet-0'') in do {
     (success1, store1) \<leftarrow> expect_write (chain_extend 5 ''loglet-1'' (chain_new ''loglet-0'')) 0 store;
     assert success1;
     (success2, store2) \<leftarrow> expect_write (chain_extend 3 ''loglet-2'' (chain_new ''loglet-0'')) 0 store1;
     assert (\<not> success2);
     (_, version) \<leftarrow> unwrap (meta_read store2);
     assert (version = 1) })"

definition metastore_test_sequential_writes :: "unit option" where
  "metastore_test_sequential_writes =
     (let store = meta_new (chain_new ''loglet-0''); chain = chain_extend 5 ''loglet-1'' (chain_new ''loglet-0'') in do {
     (success1, store1) \<leftarrow> expect_write chain 0 store;
     assert success1;
     (success2, store2) \<leftarrow> expect_write (chain_extend 10 ''loglet-2'' chain) 1 store1;
     assert success2;
     (final_chain, version) \<leftarrow> unwrap (meta_read store2);
     assert (version = 2);
     assert (length (segments final_chain) = 3) })"

section \<open>memory_loglet.rs\<close>

definition memory_loglet_test_append_and_read :: "unit option" where
  "memory_loglet_test_append_and_read = do {
     (pos, l) \<leftarrow> expect_append memory_ops (text_entry ''hello'') memory_loglet_new;
     assert (pos = 1);
     assert_reads memory_ops pos ''hello'' l }"

definition memory_loglet_test_append_multiple :: "unit option" where
  "memory_loglet_test_append_multiple = do {
     (pos1, l1) \<leftarrow> expect_append memory_ops (text_entry ''a'') memory_loglet_new;
     (pos2, l2) \<leftarrow> expect_append memory_ops (text_entry ''b'') l1;
     (pos3, l3) \<leftarrow> expect_append memory_ops (text_entry ''c'') l2;
     assert (pos1 = 1); assert (pos2 = 2); assert (pos3 = 3);
     assert_reads memory_ops 1 ''a'' l3; assert_reads memory_ops 2 ''b'' l3; assert_reads memory_ops 3 ''c'' l3 }"

definition memory_loglet_test_check_tail :: "unit option" where
  "memory_loglet_test_check_tail = do {
     t0 \<leftarrow> unwrap (lg_check_tail memory_ops memory_loglet_new); assert (t0 = 1);
     (_, l1) \<leftarrow> expect_append memory_ops (text_entry ''a'') memory_loglet_new;
     t1 \<leftarrow> unwrap (lg_check_tail memory_ops l1); assert (t1 = 2);
     (_, l2) \<leftarrow> expect_append memory_ops (text_entry ''b'') l1;
     t2 \<leftarrow> unwrap (lg_check_tail memory_ops l2); assert (t2 = 3) }"

definition memory_loglet_test_read_beyond_tail_returns_none :: "unit option" where
  "memory_loglet_test_read_beyond_tail_returns_none = do {
     r1 \<leftarrow> unwrap (lg_read memory_ops 1 memory_loglet_new); assert (r1 = None);
     r100 \<leftarrow> unwrap (lg_read memory_ops 100 memory_loglet_new); assert (r100 = None) }"

definition memory_loglet_test_seal_blocks_appends :: "unit option" where
  "memory_loglet_test_seal_blocks_appends = do {
     (_, l1) \<leftarrow> expect_append memory_ops (text_entry ''a'') memory_loglet_new;
     (seal_pos, l2) \<leftarrow> expect_seal memory_ops l1;
     assert (seal_pos = 2);
     (result, _) \<leftarrow> lg_append memory_ops (text_entry ''b'') l2;
     assert (is_err result (Sealed 2)) }"

definition memory_loglet_test_seal_returns_tail :: "unit option" where
  "memory_loglet_test_seal_returns_tail = do {
     (_, l1) \<leftarrow> expect_append memory_ops (text_entry ''x'') memory_loglet_new;
     (_, l2) \<leftarrow> expect_append memory_ops (text_entry ''y'') l1;
     (tail, _) \<leftarrow> expect_seal memory_ops l2;
     assert (tail = 3) }"

definition memory_loglet_test_trim :: "unit option" where
  "memory_loglet_test_trim = do {
     (_, l1) \<leftarrow> expect_append memory_ops (text_entry ''a'') memory_loglet_new;
     (_, l2) \<leftarrow> expect_append memory_ops (text_entry ''b'') l1;
     (_, l3) \<leftarrow> expect_append memory_ops (text_entry ''c'') l2;
     l4 \<leftarrow> expect_trim memory_ops 3 l3;
     assert (is_err (lg_read memory_ops 1 l4) (Trimmed 1));
     assert (is_err (lg_read memory_ops 2 l4) (Trimmed 2));
     assert_reads memory_ops 3 ''c'' l4 }"

definition memory_loglet_test_trim_idempotent :: "unit option" where
  "memory_loglet_test_trim_idempotent = do {
     (_, l1) \<leftarrow> expect_append memory_ops (text_entry ''a'') memory_loglet_new;
     (_, l2) \<leftarrow> expect_append memory_ops (text_entry ''b'') l1;
     l3 \<leftarrow> expect_trim memory_ops 2 l2;
     l4 \<leftarrow> expect_trim memory_ops 2 l3;
     l5 \<leftarrow> expect_trim memory_ops 1 l4;
     assert (is_err (lg_read memory_ops 1 l5) (Trimmed 1));
     assert_reads memory_ops 2 ''b'' l5 }"

definition memory_loglet_test_read_after_seal :: "unit option" where
  "memory_loglet_test_read_after_seal = do {
     (_, l1) \<leftarrow> expect_append memory_ops (text_entry ''a'') memory_loglet_new;
     (_, l2) \<leftarrow> expect_seal memory_ops l1;
     assert_reads memory_ops 1 ''a'' l2 }"

definition memory_loglet_test_entry_with_headers :: "unit option" where
  "memory_loglet_test_entry_with_headers = do {
     (pos, l) \<leftarrow> expect_append memory_ops (with_header (text_entry ''payload'') ''engine1'' (into_bytes ''header_data'')) memory_loglet_new;
     e \<leftarrow> expect_read memory_ops pos l;
     assert (payload e = into_bytes ''payload'');
     assert (get_header e ''engine1'' = Some (into_bytes ''header_data'')) }"

section \<open>virtual_log.rs\<close>

abbreviation vops :: "memory_loglet virtual_log loglet_ops" where
  "vops \<equiv> vl_ops memory_ops memory_factory"

text \<open>Sealing the active loglet through the reference that \<open>get_active_loglet\<close> returns.\<close>

definition seal_active :: "memory_loglet virtual_log \<Rightarrow> memory_loglet virtual_log option" where
  "seal_active v = do {
     (i, l, _) \<leftarrow> unwrap (get_active_loglet v);
     (_, l') \<leftarrow> expect_seal memory_ops l;
     Some (put_loglet i l' v) }"

definition virtual_log_test_append_and_read :: "unit option" where
  "virtual_log_test_append_and_read = do {
     v \<leftarrow> make_virtual_log;
     (pos1, v1) \<leftarrow> expect_append vops (text_entry ''hello'') v;
     (pos2, v2) \<leftarrow> expect_append vops (text_entry ''world'') v1;
     assert (pos1 = 1); assert (pos2 = 2);
     assert_reads vops pos1 ''hello'' v2; assert_reads vops pos2 ''world'' v2 }"

definition virtual_log_test_check_tail :: "unit option" where
  "virtual_log_test_check_tail = do {
     v \<leftarrow> make_virtual_log;
     t0 \<leftarrow> unwrap (lg_check_tail vops v); assert (t0 = 1);
     (_, v1) \<leftarrow> expect_append vops (text_entry ''a'') v;
     t1 \<leftarrow> unwrap (lg_check_tail vops v1); assert (t1 = 2) }"

definition virtual_log_test_read_beyond_tail :: "unit option" where
  "virtual_log_test_read_beyond_tail = do {
     v \<leftarrow> make_virtual_log;
     result \<leftarrow> unwrap (lg_read vops 1 v);
     assert (result = None) }"

definition virtual_log_test_trim :: "unit option" where
  "virtual_log_test_trim = do {
     v \<leftarrow> make_virtual_log;
     (_, v1) \<leftarrow> expect_append vops (text_entry ''a'') v;
     (_, v2) \<leftarrow> expect_append vops (text_entry ''b'') v1;
     (_, v3) \<leftarrow> expect_append vops (text_entry ''c'') v2;
     v4 \<leftarrow> expect_trim vops 3 v3;
     assert (is_err (lg_read vops 1 v4) (Trimmed 1));
     assert (is_err (lg_read vops 2 v4) (Trimmed 2));
     assert_reads vops 3 ''c'' v4 }"

definition virtual_log_test_reconfigure_on_seal :: "unit option" where
  "virtual_log_test_reconfigure_on_seal = do {
     v \<leftarrow> make_virtual_log;
     (_, v1) \<leftarrow> expect_append vops (text_entry ''a'') v;
     (_, v2) \<leftarrow> expect_append vops (text_entry ''b'') v1;
     v3 \<leftarrow> seal_active v2;
     (pos, v4) \<leftarrow> expect_append vops (text_entry ''c'') v3;
     assert (pos = 3);
     assert_reads vops 1 ''a'' v4; assert_reads vops 2 ''b'' v4; assert_reads vops 3 ''c'' v4;
     (chain, version) \<leftarrow> unwrap (meta_read (vl_meta v4));
     assert (version = 1);
     assert (length (segments chain) = 2) }"

definition virtual_log_test_position_mapping_across_segments :: "unit option" where
  "virtual_log_test_position_mapping_across_segments = do {
     v \<leftarrow> make_virtual_log;
     (pos1, v1) \<leftarrow> expect_append vops (text_entry (''entry-'' @ decimal 0)) v; assert (pos1 = 1);
     (pos2, v2) \<leftarrow> expect_append vops (text_entry (''entry-'' @ decimal 1)) v1; assert (pos2 = 2);
     (pos3, v3) \<leftarrow> expect_append vops (text_entry (''entry-'' @ decimal 2)) v2; assert (pos3 = 3);
     v4 \<leftarrow> seal_active v3;
     (pos, v5) \<leftarrow> expect_append vops (text_entry ''entry-3'') v4;
     assert (pos = 4);
     tail \<leftarrow> unwrap (lg_check_tail vops v5);
     assert (tail = 5) }"

definition virtual_log_test_multiple_reconfigurations :: "unit option" where
  "virtual_log_test_multiple_reconfigurations = do {
     v \<leftarrow> make_virtual_log;
     (_, v1) \<leftarrow> expect_append vops (text_entry ''a'') v;
     (_, v2) \<leftarrow> expect_append vops (text_entry ''b'') v1;
     v3 \<leftarrow> seal_active v2;
     (_, v4) \<leftarrow> expect_append vops (text_entry ''c'') v3;
     (_, v5) \<leftarrow> expect_append vops (text_entry ''d'') v4;
     v6 \<leftarrow> seal_active v5;
     (pos, v7) \<leftarrow> expect_append vops (text_entry ''e'') v6;
     assert (pos = 5);
     assert_reads vops 1 ''a'' v7; assert_reads vops 2 ''b'' v7; assert_reads vops 3 ''c'' v7;
     assert_reads vops 4 ''d'' v7; assert_reads vops 5 ''e'' v7;
     (chain, version) \<leftarrow> unwrap (meta_read (vl_meta v7));
     assert (version = 2);
     assert (length (segments chain) = 3) }"

section \<open>native_loglet.rs\<close>

definition native_loglet_test_append_and_read :: "unit option" where
  "native_loglet_test_append_and_read = do {
     (pos, l) \<leftarrow> expect_append native_ops (text_entry ''hello'') with_defaults;
     assert (pos = 1);
     assert_reads native_ops pos ''hello'' l }"

definition native_loglet_test_append_multiple :: "unit option" where
  "native_loglet_test_append_multiple = do {
     (pos1, l1) \<leftarrow> expect_append native_ops (text_entry ''a'') with_defaults;
     (pos2, l2) \<leftarrow> expect_append native_ops (text_entry ''b'') l1;
     (pos3, l3) \<leftarrow> expect_append native_ops (text_entry ''c'') l2;
     assert (pos1 = 1); assert (pos2 = 2); assert (pos3 = 3);
     assert_reads native_ops 1 ''a'' l3; assert_reads native_ops 2 ''b'' l3; assert_reads native_ops 3 ''c'' l3 }"

definition native_loglet_test_check_tail :: "unit option" where
  "native_loglet_test_check_tail = do {
     t0 \<leftarrow> unwrap (lg_check_tail native_ops with_defaults); assert (t0 = 1);
     (_, l1) \<leftarrow> expect_append native_ops (text_entry ''a'') with_defaults;
     t1 \<leftarrow> unwrap (lg_check_tail native_ops l1); assert (t1 = 2);
     (_, l2) \<leftarrow> expect_append native_ops (text_entry ''b'') l1;
     t2 \<leftarrow> unwrap (lg_check_tail native_ops l2); assert (t2 = 3) }"

definition native_loglet_test_read_beyond_tail_returns_none :: "unit option" where
  "native_loglet_test_read_beyond_tail_returns_none = do {
     r1 \<leftarrow> unwrap (lg_read native_ops 1 with_defaults); assert (r1 = None);
     r100 \<leftarrow> unwrap (lg_read native_ops 100 with_defaults); assert (r100 = None) }"

definition native_loglet_test_seal_blocks_appends :: "unit option" where
  "native_loglet_test_seal_blocks_appends = do {
     (_, l1) \<leftarrow> expect_append native_ops (text_entry ''a'') with_defaults;
     (seal_pos, l2) \<leftarrow> expect_seal native_ops l1;
     assert (seal_pos = 2);
     (result, _) \<leftarrow> lg_append native_ops (text_entry ''b'') l2;
     assert (is_err result (Sealed 2)) }"

definition native_loglet_test_seal_returns_correct_tail :: "unit option" where
  "native_loglet_test_seal_returns_correct_tail = do {
     (_, l1) \<leftarrow> expect_append native_ops (text_entry ''x'') with_defaults;
     (_, l2) \<leftarrow> expect_append native_ops (text_entry ''y'') l1;
     (tail, _) \<leftarrow> expect_seal native_ops l2;
     assert (tail = 3) }"

definition native_loglet_test_trim :: "unit option" where
  "native_loglet_test_trim = do {
     (_, l1) \<leftarrow> expect_append native_ops (text_entry ''a'') with_defaults;
     (_, l2) \<leftarrow> expect_append native_ops (text_entry ''b'') l1;
     (_, l3) \<leftarrow> expect_append native_ops (text_entry ''c'') l2;
     l4 \<leftarrow> expect_trim native_ops 3 l3;
     assert (is_err (lg_read native_ops 1 l4) (Trimmed 1));
     assert (is_err (lg_read native_ops 2 l4) (Trimmed 2));
     assert_reads native_ops 3 ''c'' l4 }"

definition native_loglet_test_read_after_seal :: "unit option" where
  "native_loglet_test_read_after_seal = do {
     (_, l1) \<leftarrow> expect_append native_ops (text_entry ''a'') with_defaults;
     (_, l2) \<leftarrow> expect_seal native_ops l1;
     assert_reads native_ops 1 ''a'' l2 }"

definition native_loglet_test_entry_with_headers :: "unit option" where
  "native_loglet_test_entry_with_headers = do {
     (pos, l) \<leftarrow> expect_append native_ops (with_header (text_entry ''payload'') ''engine1'' (into_bytes ''header_data'')) with_defaults;
     e \<leftarrow> expect_read native_ops pos l;
     assert (payload e = into_bytes ''payload'');
     assert (get_header e ''engine1'' = Some (into_bytes ''header_data'')) }"

definition native_loglet_test_quorum_write :: "unit option" where
  "native_loglet_test_quorum_write = do {
     l0 \<leftarrow> native_loglet_new 3;
     (pos, l) \<leftarrow> expect_append native_ops (text_entry ''quorum'') l0;
     assert (pos = 1);
     assert_reads native_ops pos ''quorum'' l }"

definition native_loglet_test_single_server :: "unit option" where
  "native_loglet_test_single_server = do {
     l0 \<leftarrow> native_loglet_new 1;
     (pos, l) \<leftarrow> expect_append native_ops (text_entry ''solo'') l0;
     assert (pos = 1);
     assert_reads native_ops pos ''solo'' l;
     (tail, _) \<leftarrow> expect_seal native_ops l;
     assert (tail = 2) }"

definition native_loglet_test_five_servers :: "unit option" where
  "native_loglet_test_five_servers = do {
     l0 \<leftarrow> native_loglet_new 5;
     (_, l1) \<leftarrow> expect_append native_ops (text_entry ''a'') l0;
     (_, l2) \<leftarrow> expect_append native_ops (text_entry ''b'') l1;
     assert_reads native_ops 1 ''a'' l2; assert_reads native_ops 2 ''b'' l2;
     (tail, _) \<leftarrow> expect_seal native_ops l2;
     assert (tail = 3) }"

definition native_loglet_test_factory_creates_distinct_loglets :: "unit option" where
  "native_loglet_test_factory_creates_distinct_loglets = do {
     loglet_a \<leftarrow> unwrap (native_factory 3 ''loglet-a'');
     loglet_b \<leftarrow> unwrap (native_factory 3 ''loglet-b'');
     (_, loglet_a') \<leftarrow> expect_append native_ops (text_entry ''in-a'') loglet_a;
     tail \<leftarrow> unwrap (lg_check_tail native_ops loglet_b); assert (tail = 1);
     r \<leftarrow> unwrap (lg_read native_ops 1 loglet_b); assert (r = None) }"

section \<open>Results\<close>

lemma chain_test_new_chain_ok [test_passes]: "chain_test_new_chain = Some ()" by code_simp
lemma chain_test_active_segment_ok [test_passes]: "chain_test_active_segment = Some ()" by code_simp
lemma chain_test_find_segment_single_ok [test_passes]: "chain_test_find_segment_single = Some ()" by code_simp
lemma chain_test_extend_ok [test_passes]: "chain_test_extend = Some ()" by code_simp
lemma chain_test_find_segment_after_extend_ok [test_passes]: "chain_test_find_segment_after_extend = Some ()" by code_simp
lemma chain_test_active_segment_after_extend_ok [test_passes]: "chain_test_active_segment_after_extend = Some ()" by code_simp
lemma chain_test_multiple_extends_ok [test_passes]: "chain_test_multiple_extends = Some ()" by code_simp
lemma metastore_test_read_initial_ok [test_passes]: "metastore_test_read_initial = Some ()" by code_simp
lemma metastore_test_write_success_ok [test_passes]: "metastore_test_write_success = Some ()" by code_simp
lemma metastore_test_write_cas_failure_ok [test_passes]: "metastore_test_write_cas_failure = Some ()" by code_simp
lemma metastore_test_sequential_writes_ok [test_passes]: "metastore_test_sequential_writes = Some ()" by code_simp
lemma memory_loglet_test_append_and_read_ok [test_passes]: "memory_loglet_test_append_and_read = Some ()" by code_simp
lemma memory_loglet_test_append_multiple_ok [test_passes]: "memory_loglet_test_append_multiple = Some ()" by code_simp
lemma memory_loglet_test_check_tail_ok [test_passes]: "memory_loglet_test_check_tail = Some ()" by code_simp
lemma memory_loglet_test_read_beyond_tail_returns_none_ok [test_passes]: "memory_loglet_test_read_beyond_tail_returns_none = Some ()" by code_simp
lemma memory_loglet_test_seal_blocks_appends_ok [test_passes]: "memory_loglet_test_seal_blocks_appends = Some ()" by code_simp
lemma memory_loglet_test_seal_returns_tail_ok [test_passes]: "memory_loglet_test_seal_returns_tail = Some ()" by code_simp
lemma memory_loglet_test_trim_ok [test_passes]: "memory_loglet_test_trim = Some ()" by code_simp
lemma memory_loglet_test_trim_idempotent_ok [test_passes]: "memory_loglet_test_trim_idempotent = Some ()" by code_simp
lemma memory_loglet_test_read_after_seal_ok [test_passes]: "memory_loglet_test_read_after_seal = Some ()" by code_simp
lemma memory_loglet_test_entry_with_headers_ok [test_passes]: "memory_loglet_test_entry_with_headers = Some ()" by code_simp
lemma virtual_log_test_append_and_read_ok [test_passes]: "virtual_log_test_append_and_read = Some ()" by code_simp
lemma virtual_log_test_check_tail_ok [test_passes]: "virtual_log_test_check_tail = Some ()" by code_simp
lemma virtual_log_test_read_beyond_tail_ok [test_passes]: "virtual_log_test_read_beyond_tail = Some ()" by code_simp
lemma virtual_log_test_trim_ok [test_passes]: "virtual_log_test_trim = Some ()" by code_simp
lemma virtual_log_test_reconfigure_on_seal_ok [test_passes]: "virtual_log_test_reconfigure_on_seal = Some ()" by code_simp
lemma virtual_log_test_position_mapping_across_segments_ok [test_passes]: "virtual_log_test_position_mapping_across_segments = Some ()" by code_simp
lemma virtual_log_test_multiple_reconfigurations_ok [test_passes]: "virtual_log_test_multiple_reconfigurations = Some ()" by code_simp
lemma native_loglet_test_append_and_read_ok [test_passes]: "native_loglet_test_append_and_read = Some ()" by code_simp
lemma native_loglet_test_append_multiple_ok [test_passes]: "native_loglet_test_append_multiple = Some ()" by code_simp
lemma native_loglet_test_check_tail_ok [test_passes]: "native_loglet_test_check_tail = Some ()" by code_simp
lemma native_loglet_test_read_beyond_tail_returns_none_ok [test_passes]: "native_loglet_test_read_beyond_tail_returns_none = Some ()" by code_simp
lemma native_loglet_test_seal_blocks_appends_ok [test_passes]: "native_loglet_test_seal_blocks_appends = Some ()" by code_simp
lemma native_loglet_test_seal_returns_correct_tail_ok [test_passes]: "native_loglet_test_seal_returns_correct_tail = Some ()" by code_simp
lemma native_loglet_test_trim_ok [test_passes]: "native_loglet_test_trim = Some ()" by code_simp
lemma native_loglet_test_read_after_seal_ok [test_passes]: "native_loglet_test_read_after_seal = Some ()" by code_simp
lemma native_loglet_test_entry_with_headers_ok [test_passes]: "native_loglet_test_entry_with_headers = Some ()" by code_simp
lemma native_loglet_test_quorum_write_ok [test_passes]: "native_loglet_test_quorum_write = Some ()" by code_simp
lemma native_loglet_test_single_server_ok [test_passes]: "native_loglet_test_single_server = Some ()" by code_simp
lemma native_loglet_test_five_servers_ok [test_passes]: "native_loglet_test_five_servers = Some ()" by code_simp
lemma native_loglet_test_factory_creates_distinct_loglets_ok [test_passes]: "native_loglet_test_factory_creates_distinct_loglets = Some ()" by code_simp

definition relos_log_tests :: "unit option list" where
  "relos_log_tests =
     [chain_test_new_chain, chain_test_active_segment, chain_test_find_segment_single,
      chain_test_extend, chain_test_find_segment_after_extend,
      chain_test_active_segment_after_extend, chain_test_multiple_extends,
      metastore_test_read_initial, metastore_test_write_success, metastore_test_write_cas_failure,
      metastore_test_sequential_writes, memory_loglet_test_append_and_read,
      memory_loglet_test_append_multiple, memory_loglet_test_check_tail,
      memory_loglet_test_read_beyond_tail_returns_none, memory_loglet_test_seal_blocks_appends,
      memory_loglet_test_seal_returns_tail, memory_loglet_test_trim,
      memory_loglet_test_trim_idempotent, memory_loglet_test_read_after_seal,
      memory_loglet_test_entry_with_headers, virtual_log_test_append_and_read,
      virtual_log_test_check_tail, virtual_log_test_read_beyond_tail, virtual_log_test_trim,
      virtual_log_test_reconfigure_on_seal, virtual_log_test_position_mapping_across_segments,
      virtual_log_test_multiple_reconfigurations, native_loglet_test_append_and_read,
      native_loglet_test_append_multiple, native_loglet_test_check_tail,
      native_loglet_test_read_beyond_tail_returns_none, native_loglet_test_seal_blocks_appends,
      native_loglet_test_seal_returns_correct_tail, native_loglet_test_trim,
      native_loglet_test_read_after_seal, native_loglet_test_entry_with_headers,
      native_loglet_test_quorum_write, native_loglet_test_single_server,
      native_loglet_test_five_servers, native_loglet_test_factory_creates_distinct_loglets]"

lemma relos_log_tests_pass: "passes relos_log_tests"
  by (simp add: relos_log_tests_def test_passes)

end
