(* ===== verification/Native_Appends.thy ===== *)
theory Native_Appends
  imports Native_Concurrent
begin

text \<open>
  The native loglet while nobody seals or trims it: \<open>test_concurrent_appends\<close> of \<open>native_loglet.rs\<close>, in which
  tasks append concurrently, holds under every interleaving of the messages and for every number of
  tasks and servers.
\<close>

section \<open>The test\<close>

definition test_payload :: "nat \<Rightarrow> nat \<Rightarrow> bytes" where
  "test_payload task_id i = into_bytes (''task-'' @ decimal task_id @ ''-entry-'' @ decimal i)"

text \<open>The append that a task makes in one round has a number; its result is unwrapped.\<close>

definition append_id :: "nat \<Rightarrow> nat \<Rightarrow> nat \<Rightarrow> nat" where
  "append_id entries_per_task task_id i = task_id * entries_per_task + i"

definition unwrap_append :: "nat \<Rightarrow> native_sys \<Rightarrow> LogPos option" where
  "unwrap_append c y = (case ns_appends y c of Some (en, Finished (Inr pos)) \<Rightarrow> Some pos | _ \<Rightarrow> None)"

fun collect_positions :: "nat list \<Rightarrow> native_sys \<Rightarrow> LogPos list option" where
  "collect_positions [] y = Some []"
| "collect_positions (c # cs) y =
     Option.bind (unwrap_append c y) (\<lambda>pos. map_option (\<lambda>rest. pos # rest) (collect_positions cs y))"

definition entry_exists :: "LogPos \<Rightarrow> native_sys \<Rightarrow> bool" where
  "entry_exists pos y = (case read_servers pos (ns_servers y) of Inr (Some en) \<Rightarrow> True | _ \<Rightarrow> False)"

definition append_ids :: "nat \<Rightarrow> nat \<Rightarrow> nat list" where
  "append_ids num_tasks entries_per_task =
     concat (map (\<lambda>task_id. map (append_id entries_per_task task_id) [0..<entries_per_task]) [0..<num_tasks])"

text \<open>What the test asserts of the state in which every task has been joined.\<close>

definition native_loglet_test_concurrent_appends :: "nat \<Rightarrow> nat \<Rightarrow> native_sys \<Rightarrow> bool" where
  "native_loglet_test_concurrent_appends num_tasks entries_per_task y =
     (case collect_positions (append_ids num_tasks entries_per_task) y of
        None \<Rightarrow> False
      | Some all_positions \<Rightarrow>
          (let all_positions = remdups_adj (sort all_positions) in
           length all_positions = num_tasks * entries_per_task \<and> list_all (\<lambda>pos. entry_exists pos y) all_positions))"

fun is_append_event :: "native_event \<Rightarrow> bool" where
  "is_append_event (ELoad c en) = True"
| "is_append_event (EPosition c) = True"
| "is_append_event (EStore c i) = True"
| "is_append_event (EFinish c) = True"
| "is_append_event _ = False"

text \<open>Every task has come to the end of every append it makes.\<close>

definition tasks_joined :: "nat \<Rightarrow> nat \<Rightarrow> native_sys \<Rightarrow> bool" where
  "tasks_joined num_tasks entries_per_task y \<longleftrightarrow>
     (\<forall>task_id \<in> set [0..<num_tasks]. \<forall>i \<in> set [0..<entries_per_task].
        case ns_appends y (append_id entries_per_task task_id i) of
          Some (en, Finished r) \<Rightarrow> en = entry_new (test_payload task_id i)
        | _ \<Rightarrow> False)"

section \<open>An open loglet\<close>

fun phase_open :: "nat \<Rightarrow> append_phase \<Rightarrow> bool" where
  "phase_open n Loaded = True"
| "phase_open n (Storing pos rs) = (\<forall>i r. rs i = Some r \<longrightarrow> \<not> isl r)"
| "phase_open n (Finished r) = (\<not> isl r)"

definition open_inv :: "nat \<Rightarrow> native_sys \<Rightarrow> bool" where
  "open_inv n y \<longleftrightarrow> 0 < n \<and> length (ns_servers y) = n \<and> ns_quorum y = n div 2 + 1 \<and> \<not> sq_sealed (ns_seq y) \<and> \<not> ns_flag y \<and>
     (\<forall>s \<in> set (ns_servers y). \<not> ls_sealed s \<and> ls_trim_pos s = LOG_POS_BEGIN) \<and>
     (\<forall>c en ph. ns_appends y c = Some (en, ph) \<longrightarrow> phase_open n ph)"

lemma open_init: "0 < n \<Longrightarrow> open_inv n (native_init n)"
  by (simp add: open_inv_def native_init_def sequencer_new_def log_server_new_def)

lemma outcome_open:
  assumes "0 < n" "\<forall>i < n. \<exists>b. rs i = Some (Inr b)"
  shows "append_outcome (n div 2 + 1) pos (all_replies n rs) = Inr pos"
proof -
  have "\<forall>r \<in> set (all_replies n rs). \<exists>b. r = Inr b" using assms(2) by (fastforce simp: all_replies_def)
  from count_acks_all[OF this, of 0 None] have "count_acks (all_replies n rs) 0 None = (n, None)"
    by (simp add: all_replies_def)
  with quorum_le[OF assms(1)] show ?thesis by (simp add: append_outcome_def)
qed

lemma open_set_append: "open_inv n y \<Longrightarrow> phase_open n ph \<Longrightarrow> open_inv n (set_append c en ph y)"
  by (auto simp: open_inv_def set_append_def split: if_splits)

lemma open_set_server:
  assumes "open_inv n y" "\<not> ls_sealed s" "ls_trim_pos s = LOG_POS_BEGIN"
  shows "open_inv n (set_server i s y)"
  using assms set_update_subset_insert[of "ns_servers y" i s] unfolding open_inv_def set_server_def by auto

lemma open_exec:
  assumes "open_inv n y" "is_append_event e" "native_exec e y = Some y'"
  shows "open_inv n y'"
proof (cases e)
  case (ELoad c en)
  with assms open_set_append[OF assms(1), of Loaded c en] show ?thesis
    by (auto simp: open_inv_def split: if_splits)
next
  case (EPosition c)
  then obtain en pos q where a: "ns_appends y c = Some (en, Loaded)" "seq_next_pos (ns_seq y) = (Some pos, q)"
    "y' = set_append c en (Storing pos Map.empty) (y\<lparr>ns_seq := q, ns_assigned := (ns_assigned y)(pos \<mapsto> en)\<rparr>)"
    using assms by (auto simp: open_inv_def seq_next_pos_def split: option.splits append_phase.splits if_splits)
  have "open_inv n (y\<lparr>ns_seq := q, ns_assigned := (ns_assigned y)(pos \<mapsto> en)\<rparr>)"
    using assms(1) a(2) by (auto simp: open_inv_def seq_next_pos_def)
  then show ?thesis unfolding a(3) by (rule open_set_append) simp
next
  case (EStore c i)
  then obtain en pos rs r s where a: "ns_appends y c = Some (en, Storing pos rs)" "i < length (ns_servers y)"
    "ls_store pos en (ns_servers y ! i) = (r, s)" "y' = set_append c en (Storing pos (rs(i \<mapsto> r))) (set_server i s y)"
    using assms(3) by (auto split: option.splits append_phase.splits if_splits prod.splits)
  have o: "\<not> ls_sealed (ns_servers y ! i)" "ls_trim_pos (ns_servers y ! i) = LOG_POS_BEGIN"
    using assms(1) nth_mem[OF a(2)] by (auto simp: open_inv_def)
  have "\<not> isl r" "\<not> ls_sealed s" "ls_trim_pos s = LOG_POS_BEGIN"
    using a(3) o by (auto simp: ls_store_def split: if_splits)
  moreover have "phase_open n (Storing pos rs)" using assms(1) a(1) unfolding open_inv_def by blast
  ultimately show ?thesis
    unfolding a(4) by (intro open_set_append open_set_server assms(1)) auto
next
  case (EFinish c)
  then obtain en pos rs where a: "ns_appends y c = Some (en, Storing pos rs)" "\<forall>i < length (ns_servers y). rs i \<noteq> None"
    "y' = (let r = append_outcome (ns_quorum y) pos (all_replies (length (ns_servers y)) rs)
           in set_append c en (Finished r) (y\<lparr>ns_flag := raise_flag r (ns_flag y)\<rparr>))"
    using assms(3) by (auto simp: Let_def split: option.splits append_phase.splits if_splits)
  have inv: "0 < n" "length (ns_servers y) = n" "ns_quorum y = n div 2 + 1" "\<not> ns_flag y"
    using assms(1) by (simp_all add: open_inv_def)
  have "phase_open n (Storing pos rs)" using assms(1) a(1) unfolding open_inv_def by blast
  then have "\<forall>i < n. \<exists>b. rs i = Some (Inr b)"
    using a(2) inv(2) by (metis option.exhaust phase_open.simps(2) sum.collapse(2))
  from outcome_open[OF inv(1) this, of pos] have y': "y' = set_append c en (Finished (Inr pos)) (y\<lparr>ns_flag := False\<rparr>)"
    unfolding a(3) inv by (simp add: Let_def raise_flag_def inv(4))
  have "open_inv n (y\<lparr>ns_flag := False\<rparr>)" using assms(1) by (simp add: open_inv_def)
  then show ?thesis unfolding y' by (rule open_set_append) simp
qed (use assms(2) in simp_all)

lemma open_schedule:
  "open_inv n y \<Longrightarrow> list_all is_append_event es \<Longrightarrow> native_schedule es y = Some y' \<Longrightarrow> open_inv n y'"
  by (induction es arbitrary: y) (auto simp: bind_eq_Some_conv intro: open_exec)

text \<open>An append that has come to its end.\<close>

lemma open_append:
  assumes "native_inv y" "open_inv n y" "ns_appends y c = Some (en, Finished r)"
  shows "\<exists>pos. r = Inr pos \<and> entry_exists pos y"
proof -
  have "phase_open n (Finished r)" using assms(2,3) unfolding open_inv_def by blast
  then obtain pos where r: "r = Inr pos" by (cases r) simp_all
  note D = native_invD[OF assms(1)]
  have ok: "phase_ok y en (Finished (Inr pos))" using D(4)[OF assms(3)] r by simp
  then have "holders y pos en \<noteq> {}" "ns_assigned y pos = Some en" using D(3) by auto
  then have h: "\<exists>s \<in> set (ns_servers y). held pos en s" "\<forall>s \<in> set (ns_servers y). \<forall>e. bt_get (ls_entries s) pos = Some e \<longrightarrow> e = en"
    using D(1) by (auto simp: holders_def servers_ok_def)
  have "LOG_POS_BEGIN \<le> pos" using D(2) \<open>ns_assigned y pos = Some en\<close> unfolding positions_ok_def by blast
  then have "read_servers pos ss \<noteq> Inl (Trimmed pos)" if "set ss \<subseteq> set (ns_servers y)" for ss
    using assms(2) that by (induction ss) (auto simp: open_inv_def ls_read_def split: option.splits)
  with read_held[OF h(2,1)] have "read_servers pos (ns_servers y) = Inr (Some en)" by blast
  with r show ?thesis by (simp add: entry_exists_def)
qed

lemma collect_open:
  assumes "native_inv y" "open_inv n y" "distinct cs" "\<forall>c \<in> set cs. \<exists>en r. ns_appends y c = Some (en, Finished r)"
  shows "\<exists>ps. collect_positions cs y = Some ps \<and> length ps = length cs \<and> distinct ps \<and> list_all (\<lambda>p. entry_exists p y) ps \<and>
    (\<forall>p \<in> set ps. \<exists>c \<in> set cs. \<exists>en. ns_appends y c = Some (en, Finished (Inr p)))"
  using assms(3,4)
proof (induction cs)
  case (Cons c cs)
  then obtain ps where ps: "collect_positions cs y = Some ps" "length ps = length cs" "distinct ps" "list_all (\<lambda>p. entry_exists p y) ps"
    "\<forall>p \<in> set ps. \<exists>c \<in> set cs. \<exists>en. ns_appends y c = Some (en, Finished (Inr p))" by auto
  obtain en r where a: "ns_appends y c = Some (en, Finished r)" using Cons.prems(2) by auto
  obtain p where p: "r = Inr p" "entry_exists p y" using open_append[OF assms(1,2) a] by blast
  have "p \<notin> set ps"
  proof
    assume "p \<in> set ps"
    then obtain d en' where "d \<in> set cs" "ns_appends y d = Some (en', Finished (Inr p))" using ps(5) by blast
    with a p(1) native_invD(2)[OF assms(1)] have "c = d" unfolding positions_ok_def by (metis phase_pos.simps(3))
    with \<open>d \<in> set cs\<close> Cons.prems(1) show False by simp
  qed
  with ps a p show ?case by (auto simp: unwrap_append_def)
qed simp

lemma append_ids_upt: "append_ids n k = [0..<n * k]"
proof (induction n)
  case (Suc n)
  have "map (append_id k n) [0..<k] = [n * k..<n * k + k]"
    by (rule nth_equalityI) (simp_all add: append_id_def)
  moreover have "[0..<n * k] @ [n * k..<n * k + k] = [0..<n * k + k]" by (simp add: upt_add_eq_append[symmetric])
  ultimately show ?case using Suc by (simp add: append_ids_def add.commute)
qed (simp add: append_ids_def)

lemma joined_finished:
  assumes "tasks_joined n k y" "c \<in> set (append_ids n k)"
  shows "\<exists>en r. ns_appends y c = Some (en, Finished r)"
proof -
  obtain t i where "t < n" "i < k" "c = append_id k t i" using assms(2) by (auto simp: append_ids_def)
  with assms(1) have "case ns_appends y c of Some (en, Finished r) \<Rightarrow> en = entry_new (test_payload t i) | _ \<Rightarrow> False"
    by (simp add: tasks_joined_def)
  then show ?thesis by (auto split: option.splits append_phase.splits) (metis append_phase.exhaust)+
qed

section \<open>Properties\<close>

text \<open>C20. Concurrent appends to an open loglet all succeed: take any number of log servers and of tasks, each
  making any number of appends, and let their messages interleave in any way; once all tasks are
  joined the assertions of \<open>test_concurrent_appends\<close> hold. No append failed, all positions differ, and
  an entry can be read at each of them.\<close>

theorem concurrent_appends_test:
  assumes "0 < n" and "list_all is_append_event es" and "native_schedule es (native_init n) = Some y"
    and "tasks_joined num_tasks entries_per_task y"
  shows "native_loglet_test_concurrent_appends num_tasks entries_per_task y"
proof -
  have inv: "native_inv y" using native_reach_inv[OF native_schedule_reach[OF assms(3)] assms(1)] .
  have opn: "open_inv n y" using open_schedule[OF open_init[OF assms(1)] assms(2,3)] .
  have "distinct (append_ids num_tasks entries_per_task)" by (simp add: append_ids_upt)
  from collect_open[OF inv opn this] joined_finished[OF assms(4)] obtain ps where
    "collect_positions (append_ids num_tasks entries_per_task) y = Some ps" "length ps = num_tasks * entries_per_task"
    "distinct ps" "list_all (\<lambda>p. entry_exists p y) ps" by (auto simp: append_ids_upt)
  then show ?thesis
    by (simp add: native_loglet_test_concurrent_appends_def remdups_adj_distinct list_all_iff)
qed

text \<open>Two tasks with one append each, whose messages overtake each other.\<close>

definition joined_schedule :: "native_event list" where
  "joined_schedule = [ELoad 0 (entry_new (test_payload 0 0)), ELoad 1 (entry_new (test_payload 1 0)), EPosition 1, EPosition 0,
     EStore 0 0, EStore 1 0, EFinish 1, EFinish 0]"

theorem concurrent_appends_test_witness:
  "\<exists>y. native_schedule joined_schedule (native_init 1) = Some y \<and> tasks_joined 2 1 y \<and>
     native_loglet_test_concurrent_appends 2 1 y"
proof -
  have "\<exists>y. native_schedule joined_schedule (native_init 1) = Some y \<and> tasks_joined 2 1 y"
    by (simp add: joined_schedule_def schedule_simps tasks_joined_def append_id_def)
  moreover have "list_all is_append_event joined_schedule" by (simp add: joined_schedule_def)
  ultimately show ?thesis using concurrent_appends_test[of 1 joined_schedule] by auto
qed

end
