(* ===== verification/Store_Tests.thy ===== *)
theory Store_Tests
  imports Test_Kit
begin

text \<open>
  The unit tests of \<open>relos-store/src/memory.rs\<close>, one definition for each test function, run on the
  model. A variable that the test shadows or that the store's lock updates in place is rebound.
\<close>

definition store_test_put_and_get :: "unit option" where
  "store_test_put_and_get = (let store = memory_store_new in do {
     txn \<leftarrow> unwrap (begin_write_txn store);
     txn \<leftarrow> expect_put ''key1'' ''value1'' txn;
     txn \<leftarrow> expect_put ''key2'' ''value2'' txn;
     store \<leftarrow> expect_commit txn store;
     txn \<leftarrow> unwrap (begin_read_txn store);
     assert_get txn ''key1'' (Some ''value1'');
     assert_get txn ''key2'' (Some ''value2'');
     assert_get txn ''missing'' None })"

definition store_test_put_overwrites :: "unit option" where
  "store_test_put_overwrites = (let store = memory_store_new in do {
     txn \<leftarrow> unwrap (begin_write_txn store);
     txn \<leftarrow> expect_put ''k'' ''v1'' txn;
     store \<leftarrow> expect_commit txn store;
     txn \<leftarrow> unwrap (begin_write_txn store);
     txn \<leftarrow> expect_put ''k'' ''v2'' txn;
     store \<leftarrow> expect_commit txn store;
     txn \<leftarrow> unwrap (begin_read_txn store);
     assert_get txn ''k'' (Some ''v2'') })"

definition store_test_delete :: "unit option" where
  "store_test_delete = (let store = memory_store_new in do {
     txn \<leftarrow> unwrap (begin_write_txn store);
     txn \<leftarrow> expect_put ''key1'' ''value1'' txn;
     store \<leftarrow> expect_commit txn store;
     txn \<leftarrow> unwrap (begin_write_txn store);
     txn \<leftarrow> expect_delete ''key1'' txn;
     v \<leftarrow> unwrap (write_get txn (into_bytes ''key1''));
     assert (v = None);
     store \<leftarrow> expect_commit txn store;
     txn \<leftarrow> unwrap (begin_read_txn store);
     assert_get txn ''key1'' None })"

definition store_test_delete_nonexistent_key :: "unit option" where
  "store_test_delete_nonexistent_key = (let store = memory_store_new in do {
     txn \<leftarrow> unwrap (begin_write_txn store);
     txn \<leftarrow> expect_delete ''nope'' txn;
     store \<leftarrow> expect_commit txn store;
     Some () })"

definition store_test_commit :: "unit option" where
  "store_test_commit = (let store = memory_store_new in do {
     txn \<leftarrow> unwrap (begin_write_txn store);
     txn \<leftarrow> expect_put ''a'' ''1'' txn;
     store \<leftarrow> expect_commit txn store;
     txn \<leftarrow> unwrap (begin_read_txn store);
     assert_get txn ''a'' (Some ''1'') })"

definition store_test_rollback :: "unit option" where
  "store_test_rollback = (let store = memory_store_new in do {
     txn \<leftarrow> unwrap (begin_write_txn store);
     txn \<leftarrow> expect_put ''key1'' ''value1'' txn;
     expect_rollback txn;
     txn \<leftarrow> unwrap (begin_read_txn store);
     assert_get txn ''key1'' None })"

definition store_test_rollback_preserves_existing_data :: "unit option" where
  "store_test_rollback_preserves_existing_data = (let store = memory_store_new in do {
     txn \<leftarrow> unwrap (begin_write_txn store);
     txn \<leftarrow> expect_put ''keep'' ''me'' txn;
     store \<leftarrow> expect_commit txn store;
     txn \<leftarrow> unwrap (begin_write_txn store);
     txn \<leftarrow> expect_put ''new'' ''data'' txn;
     txn \<leftarrow> expect_delete ''keep'' txn;
     expect_rollback txn;
     txn \<leftarrow> unwrap (begin_read_txn store);
     assert_get txn ''keep'' (Some ''me'');
     assert_get txn ''new'' None })"

definition store_test_prefix_scan :: "unit option" where
  "store_test_prefix_scan = (let store = memory_store_new in do {
     txn \<leftarrow> unwrap (begin_write_txn store);
     txn \<leftarrow> expect_put ''users/1'' ''alice'' txn;
     txn \<leftarrow> expect_put ''users/2'' ''bob'' txn;
     txn \<leftarrow> expect_put ''users/3'' ''carol'' txn;
     txn \<leftarrow> expect_put ''orders/1'' ''order1'' txn;
     txn \<leftarrow> expect_put ''orders/2'' ''order2'' txn;
     store \<leftarrow> expect_commit txn store;
     txn \<leftarrow> unwrap (begin_read_txn store);
     users \<leftarrow> unwrap (read_prefix_scan txn (into_bytes ''users/''));
     assert (length users = 3);
     assert (users ! 0 = (into_bytes ''users/1'', into_bytes ''alice''));
     assert (users ! 1 = (into_bytes ''users/2'', into_bytes ''bob''));
     assert (users ! 2 = (into_bytes ''users/3'', into_bytes ''carol''));
     orders \<leftarrow> unwrap (read_prefix_scan txn (into_bytes ''orders/''));
     assert (length orders = 2);
     empty \<leftarrow> unwrap (read_prefix_scan txn (into_bytes ''nonexistent/''));
     assert (empty = []) })"

definition store_test_prefix_scan_within_write_txn :: "unit option" where
  "store_test_prefix_scan_within_write_txn = (let store = memory_store_new in do {
     txn \<leftarrow> unwrap (begin_write_txn store);
     txn \<leftarrow> expect_put ''a/1'' ''v1'' txn;
     txn \<leftarrow> expect_put ''a/2'' ''v2'' txn;
     txn \<leftarrow> expect_put ''b/1'' ''v3'' txn;
     results \<leftarrow> unwrap (write_prefix_scan txn (into_bytes ''a/''));
     assert (length results = 2);
     assert (fst (results ! 0) = into_bytes ''a/1'');
     assert (fst (results ! 1) = into_bytes ''a/2'');
     expect_rollback txn })"

definition store_test_snapshot_isolation :: "unit option" where
  "store_test_snapshot_isolation = (let store = memory_store_new in do {
     txn \<leftarrow> unwrap (begin_write_txn store);
     txn \<leftarrow> expect_put ''key1'' ''value1'' txn;
     store \<leftarrow> expect_commit txn store;
     snap \<leftarrow> unwrap (begin_read_txn store);
     txn \<leftarrow> unwrap (begin_write_txn store);
     txn \<leftarrow> expect_put ''key2'' ''value2'' txn;
     txn \<leftarrow> expect_put ''key1'' ''updated'' txn;
     store \<leftarrow> expect_commit txn store;
     assert_get snap ''key1'' (Some ''value1'');
     assert_get snap ''key2'' None;
     fresh \<leftarrow> unwrap (begin_read_txn store);
     assert_get fresh ''key1'' (Some ''updated'');
     assert_get fresh ''key2'' (Some ''value2'') })"

definition store_test_write_txn_isolation_from_concurrent_reads :: "unit option" where
  "store_test_write_txn_isolation_from_concurrent_reads = (let store = memory_store_new in do {
     txn \<leftarrow> unwrap (begin_write_txn store);
     txn \<leftarrow> expect_put ''k'' ''v'' txn;
     ro \<leftarrow> unwrap (begin_read_txn store);
     assert_get ro ''k'' None;
     store \<leftarrow> expect_commit txn store;
     ro2 \<leftarrow> unwrap (begin_read_txn store);
     assert_get ro2 ''k'' (Some ''v'') })"

definition store_test_flush_is_noop :: "unit option" where
  "store_test_flush_is_noop = (unwrap (flush memory_store_new))"

definition store_test_empty_prefix_scan_returns_all :: "unit option" where
  "store_test_empty_prefix_scan_returns_all = (let store = memory_store_new in do {
     txn \<leftarrow> unwrap (begin_write_txn store);
     txn \<leftarrow> expect_put ''a'' ''1'' txn;
     txn \<leftarrow> expect_put ''b'' ''2'' txn;
     txn \<leftarrow> expect_put ''c'' ''3'' txn;
     store \<leftarrow> expect_commit txn store;
     txn \<leftarrow> unwrap (begin_read_txn store);
     all \<leftarrow> unwrap (read_prefix_scan txn (into_bytes []));
     assert (length all = 3) })"

definition store_test_multiple_commits :: "unit option" where
  "store_test_multiple_commits = (let store = memory_store_new in do {
     txn \<leftarrow> unwrap (begin_write_txn store);
     txn \<leftarrow> expect_put ''k1'' ''v1'' txn;
     store \<leftarrow> expect_commit txn store;
     txn \<leftarrow> unwrap (begin_write_txn store);
     txn \<leftarrow> expect_put ''k2'' ''v2'' txn;
     store \<leftarrow> expect_commit txn store;
     txn \<leftarrow> unwrap (begin_write_txn store);
     txn \<leftarrow> expect_put ''k3'' ''v3'' txn;
     store \<leftarrow> expect_commit txn store;
     txn \<leftarrow> unwrap (begin_read_txn store);
     assert_get txn ''k1'' (Some ''v1'');
     assert_get txn ''k2'' (Some ''v2'');
     assert_get txn ''k3'' (Some ''v3'') })"

section \<open>Results\<close>

lemma store_test_put_and_get_ok [test_passes]: "store_test_put_and_get = Some ()" by code_simp
lemma store_test_put_overwrites_ok [test_passes]: "store_test_put_overwrites = Some ()" by code_simp
lemma store_test_delete_ok [test_passes]: "store_test_delete = Some ()" by code_simp
lemma store_test_delete_nonexistent_key_ok [test_passes]: "store_test_delete_nonexistent_key = Some ()" by code_simp
lemma store_test_commit_ok [test_passes]: "store_test_commit = Some ()" by code_simp
lemma store_test_rollback_ok [test_passes]: "store_test_rollback = Some ()" by code_simp
lemma store_test_rollback_preserves_existing_data_ok [test_passes]: "store_test_rollback_preserves_existing_data = Some ()" by code_simp
lemma store_test_prefix_scan_ok [test_passes]: "store_test_prefix_scan = Some ()" by code_simp
lemma store_test_prefix_scan_within_write_txn_ok [test_passes]: "store_test_prefix_scan_within_write_txn = Some ()" by code_simp
lemma store_test_snapshot_isolation_ok [test_passes]: "store_test_snapshot_isolation = Some ()" by code_simp
lemma store_test_write_txn_isolation_from_concurrent_reads_ok [test_passes]: "store_test_write_txn_isolation_from_concurrent_reads = Some ()" by code_simp
lemma store_test_flush_is_noop_ok [test_passes]: "store_test_flush_is_noop = Some ()" by code_simp
lemma store_test_empty_prefix_scan_returns_all_ok [test_passes]: "store_test_empty_prefix_scan_returns_all = Some ()" by code_simp
lemma store_test_multiple_commits_ok [test_passes]: "store_test_multiple_commits = Some ()" by code_simp

definition relos_store_tests :: "unit option list" where
  "relos_store_tests =
     [store_test_put_and_get, store_test_put_overwrites, store_test_delete,
      store_test_delete_nonexistent_key, store_test_commit, store_test_rollback,
      store_test_rollback_preserves_existing_data, store_test_prefix_scan,
      store_test_prefix_scan_within_write_txn, store_test_snapshot_isolation,
      store_test_write_txn_isolation_from_concurrent_reads, store_test_flush_is_noop,
      store_test_empty_prefix_scan_returns_all, store_test_multiple_commits]"

lemma relos_store_tests_pass: "passes relos_store_tests"
  by (simp add: relos_store_tests_def test_passes)

end
