(* ===== verification/Engine_Tests.thy ===== *)
theory Engine_Tests
  imports Test_Kit Engine_Stack Sample_Codec
begin

text \<open>
  The unit tests of \<open>relos-engine\<close>, one definition for each test function, run on the model. Tests that
  serialise take the serialiser as an argument; they are run with the sample one. The engines of the
  tests share their state with the test as the source does through \<open>Arc\<close>: the log, the store and the
  applicator's state are fields of the engine's state.
\<close>

section \<open>Fixtures\<close>

definition test_apply :: "'x applicator_fn" where
  "test_apply en pos txn x =
     (case put (into_bytes (''entry:'' @ decimal (unat pos))) (payload en) txn of
        (Inl err, txn') \<Rightarrow> (Inl err, txn', x)
      | (Inr _, txn') \<Rightarrow> (Inr (Data (payload en)), txn', x))"

definition counting_apply :: "nat applicator_fn" where
  "counting_apply en pos txn n =
     (case put (into_bytes (''applied:'' @ decimal n)) (payload en) txn of
        (Inl err, txn') \<Rightarrow> (Inl err, txn', n + 1)
      | (Inr _, txn') \<Rightarrow> (Inr (Data (payload en)), txn', n + 1))"

record metric_counts =
  propose_count :: u64
  sync_count :: u64
  apply_count :: u64

definition counting_metrics :: "metric_counts metrics_reporter" where
  "counting_metrics = \<lparr>
     record_propose_latency = (\<lambda>d m. m\<lparr>propose_count := propose_count m + 1\<rparr>),
     record_sync_latency = (\<lambda>d m. m\<lparr>sync_count := sync_count m + 1\<rparr>),
     record_apply_latency = (\<lambda>d m. m\<lparr>apply_count := apply_count m + 1\<rparr>)\<rparr>"

definition no_counts :: metric_counts where
  "no_counts = \<lparr>propose_count = 0, sync_count = 0, apply_count = 0\<rparr>"

definition engine_setup :: "'x \<Rightarrow> (memory_loglet virtual_log, 'x) base_engine option" where
  "engine_setup x = do { v \<leftarrow> make_virtual_log; unwrap (engine_new v memory_store_new x) }"

definition expect_propose :: "'s engine_ops \<Rightarrow> entry \<Rightarrow> 's \<Rightarrow> (return_value \<times> 's) option" where
  "expect_propose engine en s = do { (r, s') \<leftarrow> eng_propose engine en s; rv \<leftarrow> unwrap r; Some (rv, s') }"

definition expect_sync :: "'s engine_ops \<Rightarrow> 's \<Rightarrow> (LogPos \<times> 's) option" where
  "expect_sync engine s = do { (r, s') \<leftarrow> eng_sync engine s; tail \<leftarrow> unwrap r; Some (tail, s') }"

definition assert_stored :: "memory_store \<Rightarrow> string \<Rightarrow> bytes option \<Rightarrow> unit option" where
  "assert_stored store k v = do {
     txn \<leftarrow> unwrap (begin_read_txn store);
     r \<leftarrow> unwrap (read_get txn (into_bytes k));
     assert (r = v) }"

text \<open>Appending to the log behind the engine's back.\<close>

definition append_to_log ::
  "string \<Rightarrow> (memory_loglet virtual_log, 'x) base_engine \<Rightarrow> (memory_loglet virtual_log, 'x) base_engine option" where
  "append_to_log s be = do { (_, v) \<leftarrow> expect_append mvl_ops (text_entry s) (be_log be); Some (be\<lparr>be_log := v\<rparr>) }"

section \<open>base_engine.rs\<close>

abbreviation test_engine :: "(memory_loglet virtual_log, unit) base_engine engine_ops" where
  "test_engine \<equiv> base_ops mvl_ops test_apply"

definition base_test_propose_single_entry :: "unit option" where
  "base_test_propose_single_entry = do {
     be \<leftarrow> engine_setup ();
     (rv, be) \<leftarrow> expect_propose test_engine (text_entry ''hello'') be;
     assert (rv = Data (into_bytes ''hello''));
     assert_stored (be_store be) ''entry:1'' (Some (into_bytes ''hello'')) }"

fun propose_each :: "'s engine_ops \<Rightarrow> nat list \<Rightarrow> 's \<Rightarrow> 's option" where
  "propose_each engine [] s = Some s"
| "propose_each engine (i # is) s = do {
     (_, s) \<leftarrow> expect_propose engine (entry_new [of_nat i]) s;
     propose_each engine is s }"

fun assert_each :: "memory_store \<Rightarrow> nat list \<Rightarrow> unit option" where
  "assert_each store [] = Some ()"
| "assert_each store (i # is) = do {
     assert_stored store (''entry:'' @ decimal (i + 1)) (Some [of_nat i]);
     assert_each store is }"

definition base_test_propose_multiple_entries :: "unit option" where
  "base_test_propose_multiple_entries = do {
     be \<leftarrow> engine_setup ();
     be \<leftarrow> propose_each test_engine [0..<5] be;
     assert_each (be_store be) [0..<5] }"

definition base_test_sync_catches_up :: "unit option" where
  "base_test_sync_catches_up = do {
     be \<leftarrow> engine_setup ();
     be \<leftarrow> append_to_log ''external1'' be;
     be \<leftarrow> append_to_log ''external2'' be;
     (tail, be) \<leftarrow> expect_sync test_engine be;
     assert (tail = 3);
     assert_stored (be_store be) ''entry:1'' (Some (into_bytes ''external1''));
     assert_stored (be_store be) ''entry:2'' (Some (into_bytes ''external2'')) }"

definition base_test_sync_idempotent :: "unit option" where
  "base_test_sync_idempotent = do {
     be \<leftarrow> engine_setup ();
     (tail1, be) \<leftarrow> expect_sync test_engine be;
     (tail2, be) \<leftarrow> expect_sync test_engine be;
     assert (tail1 = tail2) }"

definition base_test_propose_then_sync :: "unit option" where
  "base_test_propose_then_sync = do {
     be \<leftarrow> engine_setup ();
     (_, be) \<leftarrow> expect_propose test_engine (text_entry ''first'') be;
     (tail, be) \<leftarrow> expect_sync test_engine be;
     assert (tail = 2);
     assert_stored (be_store be) ''entry:1'' (Some (into_bytes ''first'')) }"

definition base_test_cursor_persisted :: "unit option" where
  "base_test_cursor_persisted = do {
     be \<leftarrow> engine_setup ();
     (_, be) \<leftarrow> expect_propose test_engine (text_entry ''persisted'') be;
     txn \<leftarrow> unwrap (begin_read_txn (be_store be));
     v \<leftarrow> unwrap (read_get txn CURSOR_KEY);
     cursor_bytes \<leftarrow> v;
     assert (length cursor_bytes = 8);
     assert (from_le_bytes cursor_bytes = (2 :: u64));
     be \<leftarrow> append_to_log ''second'' be;
     be2 \<leftarrow> unwrap (engine_new (be_log be) (be_store be) ());
     (_, be2) \<leftarrow> expect_sync test_engine be2;
     assert_stored (be_store be2) ''entry:1'' (Some (into_bytes ''persisted''));
     assert_stored (be_store be2) ''entry:2'' (Some (into_bytes ''second'')) }"

definition base_test_entries_applied_in_order :: "unit option" where
  "base_test_entries_applied_in_order = do {
     be \<leftarrow> engine_setup ();
     be \<leftarrow> append_to_log ''a'' be;
     be \<leftarrow> append_to_log ''b'' be;
     be \<leftarrow> append_to_log ''c'' be;
     (_, be) \<leftarrow> expect_sync test_engine be;
     assert_stored (be_store be) ''entry:1'' (Some (into_bytes ''a''));
     assert_stored (be_store be) ''entry:2'' (Some (into_bytes ''b''));
     assert_stored (be_store be) ''entry:3'' (Some (into_bytes ''c'')) }"

section \<open>batching.rs\<close>

definition batching_test_applicator_unbatched :: "batch_codecs \<Rightarrow> unit option" where
  "batching_test_applicator_unbatched c = (let store = memory_store_new in do {
     txn \<leftarrow> unwrap (begin_write_txn store);
     (case batching_apply c counting_apply (text_entry ''hello'') 1 txn 0 of
        (r, txn, n) \<Rightarrow> do {
          rv \<leftarrow> unwrap r;
          _ \<leftarrow> expect_commit txn store;
          assert (rv = Data (into_bytes ''hello'')) }) })"

definition batching_test_applicator_batched :: "batch_codecs \<Rightarrow> unit option" where
  "batching_test_applicator_batched c = (let store = memory_store_new in do {
     txn \<leftarrow> unwrap (begin_write_txn store);
     batched_payload \<leftarrow> unwrap (encode (payloads_codec c) [into_bytes ''a'', into_bytes ''b'', into_bytes ''c'']);
     header_bytes \<leftarrow> unwrap (encode (meta_codec c) \<lparr>batch_count = 3\<rparr>);
     (case batching_apply c counting_apply (with_header (entry_new batched_payload) BATCHING_HEADER header_bytes) 1 txn 0 of
        (r, txn, n) \<Rightarrow> do {
          unwrap r;
          store \<leftarrow> expect_commit txn store;
          assert (n = 3);
          assert_stored store ''applied:0'' (Some (into_bytes ''a''));
          assert_stored store ''applied:1'' (Some (into_bytes ''b''));
          assert_stored store ''applied:2'' (Some (into_bytes ''c'')) }) })"

abbreviation counting_base :: "batch_codecs \<Rightarrow> (memory_loglet virtual_log, nat) base_engine engine_ops" where
  "counting_base c \<equiv> base_ops mvl_ops (batching_apply c counting_apply)"

text \<open>The three tasks send their proposals in some order; the third to arrive fills the batch.\<close>

fun proposed_ok :: "batch_reply \<Rightarrow> bool" where
  "proposed_ok (BProposed tx (Inr rv)) = True"
| "proposed_ok _ = False"

definition batching_test_engine_end_to_end :: "batch_codecs \<Rightarrow> nat list \<Rightarrow> unit option" where
  "batching_test_engine_end_to_end c arrivals = do {
     be \<leftarrow> engine_setup 0;
     (reps, pending, be) \<leftarrow> flush_loop c (counting_base c) 3
       (map (\<lambda>i. Received (BPropose \<lparr>pp_payload = [of_nat i], pp_result_tx = i\<rparr>)) arrivals) ([], be);
     assert (list_all proposed_ok reps \<and> map reply_tx reps = arrivals);
     assert (be_app be = 3) }"

definition batching_test_engine_timeout_flush :: "batch_codecs \<Rightarrow> unit option" where
  "batching_test_engine_timeout_flush c = do {
     be \<leftarrow> engine_setup 0;
     (_, be) \<leftarrow> expect_propose (batching_ops c (Some 1000) (counting_base c)) (text_entry ''timeout_flush'') be;
     assert (be_app be = 1) }"

definition batching_test_engine_sync :: "batch_codecs \<Rightarrow> unit option" where
  "batching_test_engine_sync c = do {
     be \<leftarrow> engine_setup 0;
     (_, be) \<leftarrow> expect_propose (batching_ops c (Some 100) (counting_base c)) (text_entry ''before_sync'') be;
     (tail, be) \<leftarrow> expect_sync (batching_ops c (Some 100) (counting_base c)) be;
     assert (tail \<ge> 2) }"

section \<open>view_tracking.rs\<close>

abbreviation no_views :: view_state where
  "no_views \<equiv> \<lparr>views = bt_empty\<rparr>"

abbreviation view_test_engine ::
  "view_tracking_metadata codec \<Rightarrow> ServerId \<Rightarrow> (memory_loglet virtual_log, view_state) base_engine engine_ops" where
  "view_test_engine vc server_id \<equiv>
     view_ops vc (\<lambda>be. views (be_app be)) server_id (base_ops mvl_ops (view_apply vc (\<lambda>_. False) test_apply))"

definition view_test_injects_header :: "view_tracking_metadata codec \<Rightarrow> unit option" where
  "view_test_injects_header vc = do {
     be \<leftarrow> engine_setup no_views;
     (_, be) \<leftarrow> expect_propose (view_test_engine vc 42) (text_entry ''hello'') be;
     log_entry \<leftarrow> expect_read mvl_ops 1 (be_log be);
     header_bytes \<leftarrow> get_header log_entry VIEW_TRACKING_HEADER;
     metadata \<leftarrow> unwrap (decode vc header_bytes);
     assert (vt_server_id metadata = 42) }"

definition view_test_computes_min_trim_prefix :: "unit option" where
  "view_test_computes_min_trim_prefix =
     (let vs = bt_insert 3 15 (bt_insert 2 5 (bt_insert 1 10 (bt_empty :: view_map)))
      in assert (trim_prefix vs = Some 5))"

definition view_test_passthrough :: "view_tracking_metadata codec \<Rightarrow> unit option" where
  "view_test_passthrough vc = do {
     be \<leftarrow> engine_setup no_views;
     (rv, be) \<leftarrow> expect_propose (view_test_engine vc 1) (text_entry ''data'') be;
     assert (rv = Data (into_bytes ''data''));
     (tail, be) \<leftarrow> expect_sync (view_test_engine vc 1) be;
     assert (tail = 2);
     assert_stored (be_store be) ''entry:1'' (Some (into_bytes ''data'')) }"

section \<open>observer.rs\<close>

abbreviation observed :: "nat \<Rightarrow> (memory_loglet virtual_log, metric_counts) base_engine engine_ops" where
  "observed elapsed \<equiv> observer_ops counting_metrics (\<lambda>f be. be\<lparr>be_app := f (be_app be)\<rparr>) elapsed
     (base_ops mvl_ops (observer_apply counting_metrics (\<lambda>f. f) elapsed test_apply))"

definition observer_test_records_latencies :: "nat \<Rightarrow> unit option" where
  "observer_test_records_latencies elapsed = do {
     be \<leftarrow> engine_setup no_counts;
     (_, be) \<leftarrow> expect_propose (observed elapsed) (text_entry ''a'') be;
     (_, be) \<leftarrow> expect_propose (observed elapsed) (text_entry ''b'') be;
     (_, be) \<leftarrow> expect_sync (observed elapsed) be;
     assert (propose_count (be_app be) = 2);
     assert (sync_count (be_app be) = 1);
     assert (apply_count (be_app be) = 2) }"

definition observer_test_passthrough :: "nat \<Rightarrow> unit option" where
  "observer_test_passthrough elapsed = do {
     be \<leftarrow> engine_setup no_counts;
     (rv, be) \<leftarrow> expect_propose (observed elapsed) (text_entry ''passthrough'') be;
     assert (rv = Data (into_bytes ''passthrough''));
     (tail, be) \<leftarrow> expect_sync (observed elapsed) be;
     assert (tail = 2);
     assert_stored (be_store be) ''entry:1'' (Some (into_bytes ''passthrough'')) }"

section \<open>stack.rs\<close>

definition stack_test_build_minimal_stack :: "unit option" where
  "stack_test_build_minimal_stack = do {
     v \<leftarrow> make_virtual_log;
     (engine, be) \<leftarrow> unwrap (stack_build stack_new mvl_ops v memory_store_new test_apply ());
     (rv, be) \<leftarrow> expect_propose engine (text_entry ''minimal'') be;
     assert (rv = Data (into_bytes ''minimal''));
     (tail, be) \<leftarrow> expect_sync engine be;
     assert (tail = 2);
     assert_stored (be_store be) ''entry:1'' (Some (into_bytes ''minimal'')) }"

definition view_tracking_middleware ::
  "view_tracking_metadata codec \<Rightarrow> ServerId \<Rightarrow> ((memory_loglet virtual_log, view_state) base_engine, view_state) middle_engine" where
  "view_tracking_middleware vc server_id =
     \<lparr>wrap_engine = view_ops vc (\<lambda>be. views (be_app be)) server_id, wrap_applicator = view_apply vc (\<lambda>_. False)\<rparr>"

definition stack_test_build_with_middleware :: "view_tracking_metadata codec \<Rightarrow> unit option" where
  "stack_test_build_with_middleware vc = do {
     v \<leftarrow> make_virtual_log;
     (engine, be) \<leftarrow> unwrap (stack_build (stack_push (view_tracking_middleware vc 1) stack_new) mvl_ops v
       memory_store_new test_apply no_views);
     (rv, be) \<leftarrow> expect_propose engine (text_entry ''stacked'') be;
     assert (rv = Data (into_bytes ''stacked''));
     log_entry \<leftarrow> expect_read mvl_ops 1 (be_log be);
     assert (get_header log_entry ''view_tracking'' \<noteq> None);
     assert (bt_get (views (be_app be)) 1 \<noteq> None) }"

section \<open>Results\<close>

lemma base_test_propose_single_entry_ok [test_passes]: "base_test_propose_single_entry = Some ()" by code_simp
lemma base_test_propose_multiple_entries_ok [test_passes]: "base_test_propose_multiple_entries = Some ()" by code_simp
lemma base_test_sync_catches_up_ok [test_passes]: "base_test_sync_catches_up = Some ()" by code_simp
lemma base_test_sync_idempotent_ok [test_passes]: "base_test_sync_idempotent = Some ()" by code_simp
lemma base_test_propose_then_sync_ok [test_passes]: "base_test_propose_then_sync = Some ()" by code_simp
lemma base_test_cursor_persisted_ok [test_passes]: "base_test_cursor_persisted = Some ()" by code_simp
lemma base_test_entries_applied_in_order_ok [test_passes]: "base_test_entries_applied_in_order = Some ()" by code_simp
lemma batching_test_applicator_unbatched_ok [test_passes]: "batching_test_applicator_unbatched sample_batch_codecs = Some ()" by code_simp
lemma batching_test_applicator_batched_ok [test_passes]: "batching_test_applicator_batched sample_batch_codecs = Some ()" by code_simp
lemma batching_test_engine_end_to_end_ok [test_passes]:
  "batching_test_engine_end_to_end sample_batch_codecs [0, 1, 2] = Some ()"
  "batching_test_engine_end_to_end sample_batch_codecs [0, 2, 1] = Some ()"
  "batching_test_engine_end_to_end sample_batch_codecs [1, 0, 2] = Some ()"
  "batching_test_engine_end_to_end sample_batch_codecs [1, 2, 0] = Some ()"
  "batching_test_engine_end_to_end sample_batch_codecs [2, 0, 1] = Some ()"
  "batching_test_engine_end_to_end sample_batch_codecs [2, 1, 0] = Some ()"
  by code_simp+
lemma batching_test_engine_timeout_flush_ok [test_passes]: "batching_test_engine_timeout_flush sample_batch_codecs = Some ()" by code_simp
lemma batching_test_engine_sync_ok [test_passes]: "batching_test_engine_sync sample_batch_codecs = Some ()" by code_simp
lemma view_test_injects_header_ok [test_passes]: "view_test_injects_header sample_view_codec = Some ()" by code_simp
lemma view_test_computes_min_trim_prefix_ok [test_passes]: "view_test_computes_min_trim_prefix = Some ()" by code_simp
lemma view_test_passthrough_ok [test_passes]: "view_test_passthrough sample_view_codec = Some ()" by code_simp
lemma observer_test_records_latencies_ok [test_passes]: "observer_test_records_latencies elapsed = Some ()" by code_simp
lemma observer_test_passthrough_ok [test_passes]: "observer_test_passthrough elapsed = Some ()" by code_simp
lemma stack_test_build_minimal_stack_ok [test_passes]: "stack_test_build_minimal_stack = Some ()" by code_simp
lemma stack_test_build_with_middleware_ok [test_passes]: "stack_test_build_with_middleware sample_view_codec = Some ()" by code_simp

text \<open>The three proposals of the end-to-end test are tried in every order of arrival.\<close>

definition arrival_orders :: "nat list list" where
  "arrival_orders = [[0, 1, 2], [0, 2, 1], [1, 0, 2], [1, 2, 0], [2, 0, 1], [2, 1, 0]]"

definition relos_engine_tests :: "batch_codecs \<Rightarrow> view_tracking_metadata codec \<Rightarrow> nat \<Rightarrow> unit option list" where
  "relos_engine_tests bc vc elapsed =
     [base_test_propose_single_entry,
      base_test_propose_multiple_entries,
      base_test_sync_catches_up,
      base_test_sync_idempotent,
      base_test_propose_then_sync,
      base_test_cursor_persisted,
      base_test_entries_applied_in_order,
      batching_test_applicator_unbatched bc,
      batching_test_applicator_batched bc,
      batching_test_engine_timeout_flush bc,
      batching_test_engine_sync bc,
      view_test_injects_header vc,
      view_test_computes_min_trim_prefix,
      view_test_passthrough vc,
      observer_test_records_latencies elapsed,
      observer_test_passthrough elapsed,
      stack_test_build_minimal_stack,
      stack_test_build_with_middleware vc] @
     map (batching_test_engine_end_to_end bc) arrival_orders"

lemma relos_engine_tests_pass: "passes (relos_engine_tests sample_batch_codecs sample_view_codec elapsed)"
  by (simp add: relos_engine_tests_def arrival_orders_def test_passes del: One_nat_def)

end
