(* ===== verification/Server_Tests.thy ===== *)
theory Server_Tests
  imports Test_Kit Server
begin

text \<open>
  The unit tests of \<open>relos-server\<close> (\<open>grpc_service.rs\<close>), one definition for each test function: the
  conversions between the table's types and those of the protocol.
\<close>

section \<open>Tests\<close>

text \<open>The derived \<open>Debug\<close> of a column type, by which one test compares them.\<close>

fun column_type_debug :: "column_type \<Rightarrow> string" where
  "column_type_debug TInt64 = ''Int64''" | "column_type_debug TUtf8 = ''Utf8''"
| "column_type_debug TBytes = ''Bytes''" | "column_type_debug TBool = ''Bool''"
| "column_type_debug TFloat64 = ''Float64''"

definition assert_value_roundtrip :: "table_value \<Rightarrow> unit option" where
  "assert_value_roundtrip relos_val =
     (let proto_val = relos_value_to_proto relos_val;
          back = proto_value_to_relos proto_val
      in assert (back = relos_val))"

definition grpc_test_value_roundtrip_null :: "unit option" where
  "grpc_test_value_roundtrip_null = assert_value_roundtrip Null"

definition grpc_test_value_roundtrip_int64 :: "unit option" where
  "grpc_test_value_roundtrip_int64 = assert_value_roundtrip (Int64 42)"

definition grpc_test_value_roundtrip_utf8 :: "unit option" where
  "grpc_test_value_roundtrip_utf8 = assert_value_roundtrip (Utf8 ''hello'')"

definition grpc_test_value_roundtrip_bytes :: "unit option" where
  "grpc_test_value_roundtrip_bytes = assert_value_roundtrip (Bytes [1, 2, 3])"

definition grpc_test_value_roundtrip_bool :: "unit option" where
  "grpc_test_value_roundtrip_bool = assert_value_roundtrip (Bool True)"

text \<open>A floating-point number is its bit pattern; this one is 3.14.\<close>

definition grpc_test_value_roundtrip_float64 :: "unit option" where
  "grpc_test_value_roundtrip_float64 = assert_value_roundtrip (Float64 0x40091EB851EB851F)"

fun assert_column_types :: "column_type list \<Rightarrow> unit option" where
  "assert_column_types [] = Some ()"
| "assert_column_types (ct # types) = (let proto_ct = relos_column_type_to_proto ct in do {
     back \<leftarrow> unwrap (proto_column_type_to_relos (column_type_number proto_ct));
     assert (column_type_debug back = column_type_debug ct);
     assert_column_types types })"

definition grpc_test_column_type_roundtrip :: "unit option" where
  "grpc_test_column_type_roundtrip = assert_column_types [TInt64, TUtf8, TBytes, TBool, TFloat64]"

definition grpc_test_column_type_unspecified_is_error :: "unit option" where
  "grpc_test_column_type_unspecified_is_error =
     (let result = proto_column_type_to_relos (column_type_number CUnspecified)
      in assert (unwrap result = None))"

definition grpc_test_row_roundtrip :: "unit option" where
  "grpc_test_row_roundtrip =
     (let relos_row = \<lparr>values = [Int64 1, Utf8 ''test'', Null]\<rparr>;
          proto_row = relos_row_to_proto relos_row;
          back = proto_row_to_relos proto_row
      in do {
        assert (length (values back) = 3);
        assert (values back ! 0 = Int64 1);
        assert (values back ! 1 = Utf8 ''test'');
        assert (values back ! 2 = Null) })"

definition grpc_test_schema_conversion :: "unit option" where
  "grpc_test_schema_conversion =
     (let proto_schema = \<lparr>ps_name = ''users'',
            ps_columns =
              [\<lparr>p_name = ''id'', p_column_type = column_type_number CInt64, p_nullable = False\<rparr>,
               \<lparr>p_name = ''name'', p_column_type = column_type_number CUtf8, p_nullable = True\<rparr>],
            ps_primary_key = [''id'']\<rparr>
      in do {
        relos_schema \<leftarrow> unwrap (proto_schema_to_relos proto_schema);
        assert (schema_name relos_schema = ''users'');
        assert (length (columns relos_schema) = 2);
        assert (col_name (columns relos_schema ! 0) = ''id'');
        assert (\<not> nullable (columns relos_schema ! 0));
        assert (col_name (columns relos_schema ! 1) = ''name'');
        assert (nullable (columns relos_schema ! 1));
        assert (primary_key relos_schema = [''id'']) })"

section \<open>Results\<close>

lemma grpc_test_value_roundtrip_null_ok [test_passes]: "grpc_test_value_roundtrip_null = Some ()" by code_simp
lemma grpc_test_value_roundtrip_int64_ok [test_passes]: "grpc_test_value_roundtrip_int64 = Some ()" by code_simp
lemma grpc_test_value_roundtrip_utf8_ok [test_passes]: "grpc_test_value_roundtrip_utf8 = Some ()" by code_simp
lemma grpc_test_value_roundtrip_bytes_ok [test_passes]: "grpc_test_value_roundtrip_bytes = Some ()" by code_simp
lemma grpc_test_value_roundtrip_bool_ok [test_passes]: "grpc_test_value_roundtrip_bool = Some ()" by code_simp
lemma grpc_test_value_roundtrip_float64_ok [test_passes]: "grpc_test_value_roundtrip_float64 = Some ()" by code_simp
lemma grpc_test_column_type_roundtrip_ok [test_passes]: "grpc_test_column_type_roundtrip = Some ()" by code_simp
lemma grpc_test_column_type_unspecified_is_error_ok [test_passes]: "grpc_test_column_type_unspecified_is_error = Some ()" by code_simp
lemma grpc_test_row_roundtrip_ok [test_passes]: "grpc_test_row_roundtrip = Some ()" by code_simp
lemma grpc_test_schema_conversion_ok [test_passes]: "grpc_test_schema_conversion = Some ()" by code_simp

definition relos_server_tests :: "unit option list" where
  "relos_server_tests =
     [grpc_test_value_roundtrip_null, grpc_test_value_roundtrip_int64,
      grpc_test_value_roundtrip_utf8, grpc_test_value_roundtrip_bytes,
      grpc_test_value_roundtrip_bool, grpc_test_value_roundtrip_float64,
      grpc_test_column_type_roundtrip, grpc_test_column_type_unspecified_is_error,
      grpc_test_row_roundtrip, grpc_test_schema_conversion]"

lemma relos_server_tests_pass: "passes relos_server_tests"
  by (simp add: relos_server_tests_def test_passes)

end
