(* ===== verification/Spec2Isabelle.thy ===== *)
theory Spec2Isabelle
  imports Server_Main Layer_Properties Native_Virtual_Log Native_Faults Concurrent_Properties Concurrent_Servers Cluster
    Engine_Alone View_Trim Log_Tests Native_Appends Store_Tests Engine_Tests Server_Tests
begin

text \<open>
  Relos is a replicated table store over a virtualised shared log, written in Rust after the Delos
  papers. This development models the seven crates under \<open>src/crates/\<close> as executable definitions and
  proves what makes them correct, and in some places what goes wrong.

  \<^bold>\<open>The program.\<close> A client calls the gRPC service (\<open>relos-server\<close>), which calls \<open>DelosTable\<close>
  (\<open>relos-table\<close>). A write is serialised as a command and proposed to an engine (\<open>relos-engine\<close>): a
  base engine under a stack of layers (batching, view tracking, observer). The base engine appends
  the entry to a loglet (\<open>relos-log\<close>), applies the log in order up to that entry through the table
  applicator, one store transaction per entry that also persists the cursor (\<open>relos-store\<close>), and
  returns what the applicator answered. A read first synchronises with the tail of the log and then
  reads the local store. The loglet of the server is a virtual log: a chain of loglets whose chain is
  kept in a MetaStore and changed by compare-and-swap after the active loglet was sealed. Two loglets
  can stand in the chain: the in-memory one and the native one, which has a sequencer and replicated
  log servers.

  \<^bold>\<open>Theories and sources.\<close>

  \<^item> \<open>Prelude\<close>: machine types, the question-mark operator \<open>and_then\<close>, decimal and little-endian
    renderings, shared facts. \<open>Ordered_Map\<close>: \<open>BTreeMap\<close> as a sorted association list.
  \<^item> \<open>Core\<close>: \<open>relos-core/src/{types,error,entry}.rs\<close>. Positions are 64-bit words, so \<open>+\<close> wraps as
    the release build does; errors are a datatype with one constructor for each variant.
  \<^item> \<open>Memory_Store\<close>: \<open>relos-store/src/{traits,memory}.rs\<close>. One function for each method of the store and
    its transactions, and a system of interleaved transactions (\<open>store_event\<close>).
  \<^item> \<open>Loglet\<close>: \<open>relos-log/src/loglet.rs\<close>. The trait is the record \<open>loglet_ops\<close> of operations on a state;
    its contract is the locale \<open>loglet\<close> (and \<open>loglet_core\<close>, the part a virtual log keeps) against the
    abstract log \<open>alog\<close>.
  \<^item> \<open>Memory_Loglet\<close>, \<open>Native_Loglet\<close>, \<open>Native_Concurrent\<close>: \<open>memory_loglet.rs\<close> and
    \<open>native_loglet.rs\<close>. The native loglet is modelled twice over the same sequencer and log-server
    operations: as one caller runs it, and as the step relation \<open>native_step\<close>, in which every message
    of every append, seal and trim is handled at its own moment. \<open>Native_Faults\<close> has the same operations
    when the sequencer and log-server tasks die: each call gets the fate of every task it talks to.
  \<^item> \<open>Chain\<close>, \<open>Meta_Store\<close>, \<open>Virtual_Log\<close>: \<open>chain.rs\<close>, \<open>metastore.rs\<close>, \<open>virtual_log.rs\<close>. \<open>chained_log\<close>
    proves, for any loglet that meets the contract, that the chain of them is again a log.
    \<open>Log_History\<close> states it for whole histories; \<open>Memory_Virtual_Log\<close> and \<open>Native_Virtual_Log\<close>
    interpret it for both factories (\<open>main.rs\<close>, \<open>NativeLogletFactory\<close>).
  \<^item> \<open>Virtual_Log_Steps\<close>, \<open>Virtual_Log_Concurrent\<close>, \<open>Concurrent_Properties\<close>: the same virtual log under
    concurrent callers. \<open>task_step\<close> is one critical section of one call, with loglets in a heap that tasks
    refer to; executions are interleavings of such steps.
  \<^item> \<open>Base_Engine\<close>: \<open>relos-engine/src/{traits,base_engine}.rs\<close>. \<open>engine_new\<close>, \<open>handle_propose\<close>,
    \<open>handle_sync\<close> and \<open>apply_one\<close> are the functions of the same names. The locales \<open>applicator\<close> and
    \<open>replica\<close> are the contracts between engine, log and applicator.
  \<^item> \<open>Engine_Steps\<close>, \<open>Engine_Concurrent\<close>, \<open>Concurrent_Servers\<close>: the apply loops of several engines on one
    log, step by step: the request channel and its capacity, one entry per round, replies, loops that
    die with requests in their channel, new engines on the store they leave, and trims of what all of
    them have applied. \<open>Engine_Alone\<close> relates these steps to the functions of \<open>Base_Engine\<close>.
  \<^item> \<open>Batching\<close>, \<open>View_Tracking\<close>, \<open>Observer\<close>, \<open>Engine_Stack\<close>: the layers and \<open>stack.rs\<close>.
    \<open>Layer_Properties\<close> has their theorems; \<open>Layered_Engine\<close> shows that a whole stack is again an engine
    for the application on top of it. \<open>View_Trim\<close> runs view tracking under interleaved engines.
  \<^item> \<open>Table_Schema\<close>, \<open>Table_Applicator\<close>, \<open>Delos_Table\<close>: \<open>relos-table/src/{schema,command}.rs\<close>,
    \<open>applicator.rs\<close>, \<open>table.rs\<close>. \<open>Table_Spec\<close> is the abstract database that they implement.
  \<^item> \<open>Replicated_Table\<close>, \<open>Server_Life\<close>: the table over the engine and the log of \<open>main.rs\<close>.
  \<^item> \<open>Cluster\<close>: several table servers, each with its own stack of layers, on one virtual log of either
    kind of loglet.
  \<^item> \<open>Server\<close>, \<open>Server_Main\<close>: \<open>relos-server/src/{grpc_service,config,main}.rs\<close> and the messages of
    \<open>proto/relos.proto\<close>. \<open>server_main\<close> is the function \<open>main\<close>, with the serving of a socket as a parameter.
  \<^item> \<open>Sample_Codec\<close>: one concrete instance of the serialisation parameters, for the witnesses.
  \<^item> \<open>Test_Kit\<close>, \<open>Log_Tests\<close>, \<open>Store_Tests\<close>, \<open>Engine_Tests\<close>, \<open>Server_Tests\<close>: the unit tests of the crates, one
    definition for each test function, in the option monad with \<open>None\<close> for a panic. The one test that runs
    concurrent tasks is in \<open>Native_Appends\<close>, for every interleaving of them.

  \<^bold>\<open>What is shown.\<close>

  \<^item> The store: a transaction takes effect as a whole, readers keep their snapshot, a prefix scan is
    exactly the matching range; two concurrent writers lose an update.
  \<^item> The log: each loglet meets the contract; the chain is always a partition of the positions; of
    the writers of one MetaStore version one wins; a virtual log gives consecutive positions and
    reads back every entry across any number of seals and reconfigurations, and its append returns.
    Under concurrent callers, trims included, this stays true as long as no two reconfigurations overlap; two
    that do can lose an acknowledged entry.
  \<^item> The native loglet under concurrency: acknowledged entries stay on a majority and read back,
    positions are unique, a seal is final; a seal may leave a hole, and a failed append may be visible.
    When tasks die, an acknowledged entry never disappears silently, but one dead log server stops every
    append, seal and trim.
  \<^item> The replica: over any life with crashes the store is the replay of a prefix of the log, each entry
    once, and the persisted cursor agrees; replicas at the same cursor have the same store, under any
    stack of layers.
  \<^item> The table: every write and read is answered as the abstract database of the whole log answers
    it, whatever the server's local store had seen; a bad row blocks a server for ever.
  \<^item> The cluster: calls made at any of several servers, under stacks of layers, with restarts, seals and
    trims, are answered as one database answers them. With the apply loops interleaved, writes are linearised by
    the log in an order that respects real time, reads see every write acknowledged before they began,
    and every caller at a live server is answered.
  \<^item> The layers: a batch applies its payloads in order and every request is answered once, but callers
    of a batch share the last result; a stack nests as pushed; view tracking records positions that a
    server may not have applied, so that a log trimmed at its prefix can strand the server for ever.
  \<^item> The service: conversions round-trip, a put row is found, errors map to statuses, and \<open>main\<close> runs
    the demonstration to its end or serves an empty database at its address.
  \<^item> The model itself: the unit tests of the crates pass on it, evaluated by the kernel.

  \<^bold>\<open>Parameters and bounds.\<close> \<open>bincode\<close> is a parameter: an encoder and a decoder for each serialised type
  (\<open>codec\<close>, \<open>table_codecs\<close>, \<open>batch_codecs\<close>); the theorems that need it assume that decoding inverts encoding
  and that key encodings are injective (\<open>codecs_ok\<close>), which \<open>Sample_Codec\<close> shows to be satisfiable.
  Durations of the observer are a parameter. Theorems about growing logs assume that the tail stays
  below \<open>2 ^ 64\<close>, where positions would wrap. The retry loops \<open>vl_append\<close> and \<open>propose_loop\<close> are partial
  functions into \<open>option\<close>, with \<open>None\<close> for a loop that never ends, and every theorem about them shows
  that they return; \<open>sync_loop\<close> has a termination proof. No definition uses fuel.

  \<^bold>\<open>Not modelled.\<close> Tracing, sockets and the generated protobuf code; the clock, which appears only as the
  choice of the moment a batch times out; the death of the flush task of the batching layer, and so its
  errors for a dropped channel; IPv6 addresses in the parser of the socket address, which the default
  configuration never has. The tasks of the native loglet die around calls of one caller, not inside
  \<open>native_step\<close>. The crate \<open>relos-client\<close> is empty.
\<close>

section \<open>The unit tests of the crates\<close>


end
